(* ===== verification/Prelude.thy ===== *)
theory Prelude
  imports "HOL-Library.Word" "HOL-Library.List_Lexorder" "HOL-Library.Product_Lexorder"
    "HOL-Library.Monad_Syntax"
begin

text \<open>
  What every component of the development shares: the names of Rust's machine integers,
  byte strings and fixed-length arrays, results and panics as values, the checked,
  wrapping and saturating arithmetic of the standard library, the little- and big-endian
  byte forms of integers, and the lemma collections the component proofs use.

  \<^item> A Rust \<open>Result<T, E>\<close> is \<open>'e + 't\<close>, \<open>Err\<close> on the left and \<open>Ok\<close> on the right.
  \<^item> A computation that may panic is an \<open>option\<close> whose \<open>None\<close> is the panic (\<open>run\<close>).
  \<^item> \<open>usize\<close> is \<open>nat\<close>: every length in the code is bounded by memory, far below \<open>2 ^ 64\<close>.
  \<^item> Integers with a width are words. Arithmetic on them wraps, which is what the crate's
    release profile does (\<open>Cargo.toml\<close> does not turn overflow checks on).
\<close>

unbundle bit_operations_syntax

section \<open>Types\<close>

type_synonym byte = "8 word"
type_synonym bytes = "8 word list"
type_synonym u16 = "16 word"
type_synonym u32 = "32 word"
type_synonym u64 = "64 word"
type_synonym u128 = "128 word"
type_synonym i128 = "128 word"
type_synonym 'a run = "'a option"

abbreviation Err :: "'e \<Rightarrow> 'e + 'a" where
  "Err \<equiv> Inl"

abbreviation Ok :: "'a \<Rightarrow> 'e + 'a" where
  "Ok \<equiv> Inr"

text \<open>\<open>Option::ok_or\<close>, and the \<open>?\<close> operator on a result.\<close>

definition ok_or :: "'a option \<Rightarrow> 'e \<Rightarrow> 'e + 'a" where
  "ok_or o' e = (case o' of None \<Rightarrow> Err e | Some x \<Rightarrow> Ok x)"

definition and_then :: "'e + 'a \<Rightarrow> ('a \<Rightarrow> 'e + 'b) \<Rightarrow> 'e + 'b" where
  "and_then r f = (case r of Inl e \<Rightarrow> Err e | Inr x \<Rightarrow> f x)"

definition is_ok :: "'e + 'a \<Rightarrow> bool" where
  "is_ok r = (case r of Inl _ \<Rightarrow> False | Inr _ \<Rightarrow> True)"

named_theorems result_simps \<open>the result combinators\<close>

lemma ok_or_simps [simp, result_simps]:
  "ok_or None e = Err e" "ok_or (Some x) e = Ok x"
  by (simp_all add: ok_or_def)

lemma ok_or_eq [result_simps]:
  "ok_or o' e = Inr x \<longleftrightarrow> o' = Some x" "ok_or o' e = Inl e' \<longleftrightarrow> o' = None \<and> e' = e"
  by (auto simp: ok_or_def split: option.splits)

lemma and_then_simps [simp, result_simps]:
  "and_then (Inl e) f = Inl e" "and_then (Inr x) f = f x"
  by (simp_all add: and_then_def)

lemma and_then_ok [result_simps]:
  "and_then r f = Inr y \<longleftrightarrow> (\<exists>x. r = Inr x \<and> f x = Inr y)"
  by (cases r) auto

lemma and_then_err [result_simps]:
  "and_then r f = Inl e \<longleftrightarrow> r = Inl e \<or> (\<exists>x. r = Inr x \<and> f x = Inl e)"
  by (cases r) auto

lemma is_ok_simps [simp, result_simps]: "is_ok (Inr x)" "\<not> is_ok (Inl e)"
  by (simp_all add: is_ok_def)

lemma is_ok_iff: "is_ok r \<longleftrightarrow> (\<exists>x. r = Inr x)"
  by (cases r) auto

section \<open>Byte strings and arrays\<close>

text \<open>A byte-string literal \<open>b"..."\<close>, and the arrays \<open>[u8; n]\<close> as lists of length \<open>n\<close>.\<close>

definition ascii :: "string \<Rightarrow> bytes" where
  "ascii s = map of_char s"

definition is_array :: "nat \<Rightarrow> bytes \<Rightarrow> bool" where
  "is_array n b \<longleftrightarrow> length b = n"

definition zeros :: "nat \<Rightarrow> bytes" where
  "zeros n = replicate n 0"

text \<open>The subs \<open>b[i..j]\<close>, used where the code has checked the bounds.\<close>

definition subs :: "nat \<Rightarrow> nat \<Rightarrow> 'a list \<Rightarrow> 'a list" where
  "subs i j b = take (j - i) (drop i b)"

definition all_zero :: "bytes \<Rightarrow> bool" where
  "all_zero b \<longleftrightarrow> list_all (\<lambda>x. x = 0) b"

lemma length_zeros [simp]: "length (zeros n) = n"
  by (simp add: zeros_def)

lemma is_array_zeros [simp]: "is_array n (zeros n)"
  by (simp add: is_array_def)

lemma all_zero_zeros [simp]: "all_zero (zeros n)"
  by (simp add: all_zero_def zeros_def list_all_iff)

lemma all_zero_eq: "all_zero b \<longleftrightarrow> b = zeros (length b)"
  by (auto simp: all_zero_def zeros_def list_all_length list_eq_iff_nth_eq)

lemma all_zero_append [simp]: "all_zero (a @ b) \<longleftrightarrow> all_zero a \<and> all_zero b"
  by (simp add: all_zero_def)

lemma all_zero_Nil [simp]: "all_zero []"
  by (simp add: all_zero_def)

lemma length_subs [simp]: "length (subs i j b) = min (j - i) (length b - i)"
  by (simp add: subs_def)

lemma subs_append_left [simp]: "j \<le> length a \<Longrightarrow> subs i j (a @ b) = subs i j a"
  by (simp add: subs_def)

lemma subs_append_right [simp]:
  "length a \<le> i \<Longrightarrow> subs i j (a @ b) = subs (i - length a) (j - length a) b"
  by (simp add: subs_def)

lemma subs_all [simp]: "length b \<le> j \<Longrightarrow> subs 0 j b = b"
  by (simp add: subs_def)

lemma subs_split: "i \<le> length b \<Longrightarrow> take i b @ subs i j b @ drop (max i j) b = b"
  by (metis append_take_drop_id drop_drop le_add_diff_inverse max_def nat_le_linear
      append_Nil diff_is_0_eq subs_def take_eq_Nil add.commute)

section \<open>Checked and saturating arithmetic\<close>

definition checked_sub :: "'a::len word \<Rightarrow> 'a word \<Rightarrow> 'a word option" where
  "checked_sub a b = (if b \<le> a then Some (a - b) else None)"

definition saturating_sub :: "'a::len word \<Rightarrow> 'a word \<Rightarrow> 'a word" where
  "saturating_sub a b = (if b \<le> a then a - b else 0)"

definition checked_add :: "'a::len word \<Rightarrow> 'a word \<Rightarrow> 'a word option" where
  "checked_add a b = (if unat a + unat b < 2 ^ LENGTH('a) then Some (a + b) else None)"

definition saturating_add :: "'a::len word \<Rightarrow> 'a word \<Rightarrow> 'a word" where
  "saturating_add a b = (if unat a + unat b < 2 ^ LENGTH('a) then a + b else - 1)"

lemma unat_saturating_sub: "unat (saturating_sub a b) = unat a - unat b"
  by (simp add: saturating_sub_def unat_sub word_le_nat_alt)

lemma checked_sub_Some: "checked_sub a b = Some c \<longleftrightarrow> unat b \<le> unat a \<and> unat c = unat a - unat b"
  by (auto simp: checked_sub_def unat_sub word_le_nat_alt word_unat_eq_iff)

lemma unat_add_no_wrap:
  fixes a b :: "'a::len word"
  shows "unat a + unat b < 2 ^ LENGTH('a) \<Longrightarrow> unat (a + b) = unat a + unat b"
  by (simp add: unat_word_ariths)

lemma checked_add_Some:
  fixes a b c :: "'a::len word"
  shows "checked_add a b = Some c \<longleftrightarrow>
    unat a + unat b < 2 ^ LENGTH('a) \<and> unat c = unat a + unat b"
  by (auto simp: checked_add_def unat_add_no_wrap word_unat_eq_iff)

lemma unat_max: "unat (- 1 :: 'a::len word) = 2 ^ LENGTH('a) - 1"
  by (simp add: unsigned_minus_1_eq_mask mask_eq_exp_minus_1)

lemma unat_saturating_add:
  fixes a b :: "'a::len word"
  shows "unat (saturating_add a b) = min (unat a + unat b) (2 ^ LENGTH('a) - 1)"
proof -
  have "unat a + unat b < 2 ^ LENGTH('a) \<Longrightarrow>
      min (unat a + unat b) (2 ^ LENGTH('a) - 1) = unat a + unat b"
    by linarith
  moreover have "\<not> unat a + unat b < 2 ^ LENGTH('a) \<Longrightarrow>
      min (unat a + unat b) (2 ^ LENGTH('a) - 1) = 2 ^ LENGTH('a) - 1"
    by linarith
  ultimately show ?thesis
    by (simp add: saturating_add_def unat_add_no_wrap unat_max)
qed

section \<open>Casts\<close>

lemma unat_less_64: "unat (w :: u64) < 18446744073709551616"
  using unsigned_less [of w] by simp

lemma unat_plus_one: "(w :: u64) < s \<Longrightarrow> unat (w + 1) = unat w + 1"
  using unat_less_64 [of s] unat_add_no_wrap [of w 1] by (simp add: word_less_nat_alt)

lemma unat_less_32: "unat (w :: u32) < 4294967296"
  using unsigned_less [of w] by simp

lemma ucast_of_nat_unat: "ucast (v :: 'a::len word) = (of_nat (unat v) :: 'b::len word)"
  by (simp only: of_nat_unat)

lemma unat_ucast: "unat (ucast (v :: 'a::len word) :: 'b::len word) = unat v mod 2 ^ LENGTH('b)"
  by (simp add: unsigned_ucast_eq take_bit_eq_mod)

lemma unat_ucast_up:
  fixes v :: "'a::len word"
  assumes "LENGTH('a) \<le> LENGTH('b::len)"
  shows "unat (ucast v :: 'b word) = unat v"
proof -
  have "(2 :: nat) ^ LENGTH('a) \<le> 2 ^ LENGTH('b)" using assms by (rule power_increasing) simp
  then have "unat v < 2 ^ LENGTH('b)" using unsigned_less [of v] by (rule less_le_trans [rotated])
  then show ?thesis by (simp add: unat_ucast)
qed

section \<open>Integers as bytes\<close>

text \<open>
  \<open>le_bytes n v\<close> are the low \<open>n\<close> bytes of \<open>v\<close>, least significant first: for a word \<open>w\<close> of
  \<open>8 n\<close> bits, \<open>w.to_le_bytes()\<close> is \<open>le_bytes n (unat w)\<close> and \<open>to_be_bytes\<close> its reverse.
\<close>

fun le_bytes :: "nat \<Rightarrow> nat \<Rightarrow> bytes" where
  "le_bytes 0 v = []"
| "le_bytes (Suc n) v = of_nat v # le_bytes n (v div 256)"

fun le_val :: "bytes \<Rightarrow> nat" where
  "le_val [] = 0"
| "le_val (b # bs) = unat b + 256 * le_val bs"

definition be_bytes :: "nat \<Rightarrow> nat \<Rightarrow> bytes" where
  "be_bytes n v = rev (le_bytes n v)"

definition be_val :: "bytes \<Rightarrow> nat" where
  "be_val b = le_val (rev b)"

lemma le_bytes_numeral [simp]:
  "le_bytes (numeral k) v = of_nat v # le_bytes (pred_numeral k) (v div 256)"
  by (subst numeral_eq_Suc) (rule le_bytes.simps(2))

lemma le_bytes_one [simp]: "le_bytes 1 v = [of_nat v]"
  by simp

lemma length_le_bytes [simp]: "length (le_bytes n v) = n"
  by (induction n arbitrary: v) auto

lemma length_be_bytes [simp]: "length (be_bytes n v) = n"
  by (simp add: be_bytes_def)

lemma unat_byte_less: "unat (b :: byte) < 256"
  using unsigned_less [of b] by simp

lemma le_val_le_bytes: "le_val (le_bytes n v) = v mod 256 ^ n"
  by (induction n arbitrary: v) (simp_all add: unat_of_nat mod_mult2_eq)

lemma le_val_less: "le_val b < 256 ^ length b"
proof (induction b)
  case (Cons x b)
  then have "le_val b + 1 \<le> 256 ^ length b" by simp
  then have "256 * le_val b + 256 \<le> 256 * 256 ^ length b" by linarith
  with unat_byte_less [of x] show ?case by simp
qed simp

lemma le_bytes_le_val: "le_bytes (length b) (le_val b) = b"
proof (induction b)
  case (Cons x b)
  have "(unat x + 256 * le_val b) div 256 = le_val b"
    using unat_byte_less [of x] by simp
  moreover have "(of_nat (unat x + 256 * le_val b) :: byte) = x"
  proof -
    have "(unat x + 256 * le_val b) mod 256 = unat x"
      using unat_byte_less [of x] by simp
    moreover have "unat (of_nat (unat x + 256 * le_val b) :: byte)
        = (unat x + 256 * le_val b) mod 256"
      unfolding unat_of_nat by simp
    ultimately show ?thesis by (simp only: word_unat_eq_iff)
  qed
  ultimately show ?case using Cons by simp
qed simp

lemma be_val_be_bytes: "be_val (be_bytes n v) = v mod 256 ^ n"
  by (simp add: be_val_def be_bytes_def le_val_le_bytes)

lemma be_val_less: "be_val b < 256 ^ length b"
  using le_val_less [of "rev b"] by (simp add: be_val_def)

lemma be_bytes_be_val: "be_bytes (length b) (be_val b) = b"
  using le_bytes_le_val [of "rev b"] by (simp add: be_val_def be_bytes_def)

text \<open>Reading back a word that was written at its full width.\<close>

lemma of_nat_le_val:
  fixes w :: "'a::len word"
  assumes "LENGTH('a) = 8 * n"
  shows "(of_nat (le_val (le_bytes n (unat w))) :: 'a word) = w"
proof -
  have "(256 :: nat) ^ n = 2 ^ LENGTH('a)"
    using assms by (simp add: power_mult)
  then have "unat w mod 256 ^ n = unat w" using unsigned_less [of w] by simp
  then show ?thesis by (simp add: le_val_le_bytes)
qed

lemma of_nat_be_val:
  fixes w :: "'a::len word"
  assumes "LENGTH('a) = 8 * n"
  shows "(of_nat (be_val (be_bytes n (unat w))) :: 'a word) = w"
  using of_nat_le_val [OF assms, of w] by (simp add: be_val_def be_bytes_def)

lemma le_bytes_unat_of_nat:
  assumes "LENGTH('a::len) = 8 * length b"
  shows "le_bytes (length b) (unat (of_nat (le_val b) :: 'a word)) = b"
proof -
  have "(256 :: nat) ^ length b = 2 ^ LENGTH('a)"
    using assms by (simp add: power_mult)
  then have "unat (of_nat (le_val b) :: 'a word) = le_val b"
    using le_val_less [of b] by (simp add: unat_of_nat)
  then show ?thesis by (simp add: le_bytes_le_val)
qed

lemma be_bytes_unat_of_nat:
  assumes "LENGTH('a::len) = 8 * length b"
  shows "be_bytes (length b) (unat (of_nat (be_val b) :: 'a word)) = b"
  using le_bytes_unat_of_nat [of "rev b", where 'a='a] assms
  by (simp add: be_val_def be_bytes_def)

section \<open>Sums\<close>

text \<open>\<open>Iterator::sum\<close> over \<open>u64\<close>: it wraps in the release profile; below the bound it is the sum.\<close>

definition sum_words :: "'a::len word list \<Rightarrow> 'a word" where
  "sum_words ws = foldl (+) 0 ws"

lemma foldl_plus_word: "foldl (+) (a :: 'a::len word) ws = a + sum_list ws"
  by (induction ws arbitrary: a) (simp_all add: add.assoc)

lemma sum_words_eq: "sum_words ws = sum_list ws"
  by (simp add: sum_words_def foldl_plus_word)

lemma unat_sum_words:
  fixes ws :: "'a::len word list"
  assumes "sum_list (map unat ws) < 2 ^ LENGTH('a)"
  shows "unat (sum_words ws) = sum_list (map unat ws)"
  using assms
  by (induction ws) (simp_all add: sum_words_eq unat_add_no_wrap)

end
