(* ===== verification/Decimal.thy ===== *)
theory Decimal
  imports Prelude
begin

text \<open>
  Decimal numerals: what \<open>to_string\<close> and \<open>{}\<close> write of an unsigned integer, the zero-padded form of
  \<open>{:018}\<close>, and the value a row of digits stands for.
\<close>

fun decimal :: "nat \<Rightarrow> bytes" where
  "decimal n = (if n < 10 then [of_nat (48 + n)] else decimal (n div 10) @ [of_nat (48 + n mod 10)])"

declare decimal.simps [simp del]

definition is_digit :: "byte \<Rightarrow> bool" where
  "is_digit c \<longleftrightarrow> 48 \<le> unat c \<and> unat c \<le> 57"

definition dec_value :: "bytes \<Rightarrow> nat" where
  "dec_value ds = foldl (\<lambda>a c. 10 * a + (unat c - 48)) 0 ds"

definition pad_zeros :: "nat \<Rightarrow> bytes \<Rightarrow> bytes" where
  "pad_zeros k ds = replicate (k - length ds) 48 @ ds"

lemma unat_digit: "d < 10 \<Longrightarrow> unat (48 + of_nat d :: byte) = 48 + d"
proof -
  have "unat (of_nat (48 + d) :: byte) = (48 + d) mod 2 ^ 8" by (simp only: unat_of_nat) simp
  then show "d < 10 \<Longrightarrow> unat (48 + of_nat d :: byte) = 48 + d" by simp
qed

lemma decimal_digits: "c \<in> set (decimal n) \<Longrightarrow> is_digit c"
proof (induction n rule: decimal.induct)
  case (1 n)
  have last: "n mod 10 < 10" by simp
  show ?case
  proof (cases "n < 10")
    case True
    with 1(2) show ?thesis by (simp add: decimal.simps [of n] is_digit_def unat_digit)
  next
    case False
    with 1 show ?thesis by (auto simp: decimal.simps [of n] is_digit_def unat_digit [OF last])
  qed
qed

lemma dec_value_append: "dec_value (xs @ ys) = dec_value xs * 10 ^ length ys + dec_value ys"
proof (induction ys rule: rev_induct)
  case (snoc y ys)
  then show ?case unfolding dec_value_def by (simp add: algebra_simps)
qed (simp add: dec_value_def)

lemma dec_value_decimal: "dec_value (decimal n) = n"
proof (induction n rule: decimal.induct)
  case (1 n)
  have last: "n mod 10 < 10" by simp
  show ?case
  proof (cases "n < 10")
    case True
    then show ?thesis by (simp add: decimal.simps [of n] dec_value_def unat_digit)
  next
    case False
    then have "dec_value (decimal n) = n div 10 * 10 + n mod 10"
      using 1 by (simp add: decimal.simps [of n] dec_value_append)
        (simp add: dec_value_def unat_digit [OF last])
    then show ?thesis by simp
  qed
qed

lemma decimal_length: "n < 10 ^ k \<Longrightarrow> 0 < k \<Longrightarrow> length (decimal n) \<le> k"
proof (induction n arbitrary: k rule: decimal.induct)
  case (1 n)
  show ?case
  proof (cases "n < 10")
    case True
    then show ?thesis using 1(3) by (simp add: decimal.simps [of n])
  next
    case False
    then obtain j where k: "k = Suc j" "0 < j" using 1(2,3) by (cases k; cases "k - 1") auto
    then have "n div 10 < 10 ^ j" using 1(2) by (simp add: less_mult_imp_div_less)
    with 1(1) [OF False, of j] k False show ?thesis by (simp add: decimal.simps [of n])
  qed
qed

lemma decimal_not_Nil [simp]: "decimal n \<noteq> []"
  by (subst decimal.simps) simp

lemma dec_value_zeros: "dec_value (replicate k 48) = 0"
  by (induction k) (simp_all add: dec_value_def)

lemma pad_zeros_facts:
  "dec_value (pad_zeros k (decimal n)) = n"
  "n < 10 ^ k \<Longrightarrow> 0 < k \<Longrightarrow> length (pad_zeros k (decimal n)) = k"
  "c \<in> set (pad_zeros k (decimal n)) \<Longrightarrow> is_digit c"
proof -
  show "dec_value (pad_zeros k (decimal n)) = n"
    by (simp add: pad_zeros_def dec_value_append dec_value_zeros dec_value_decimal)
  show "n < 10 ^ k \<Longrightarrow> 0 < k \<Longrightarrow> length (pad_zeros k (decimal n)) = k"
    using decimal_length [of n k] by (simp add: pad_zeros_def)
  show "c \<in> set (pad_zeros k (decimal n)) \<Longrightarrow> is_digit c"
    using decimal_digits by (auto simp: pad_zeros_def is_digit_def)
qed

end
