(* ===== verification/Account.thy ===== *)
theory Account
  imports Prelude
begin

text \<open>
  account.rs: signing schemes, their tags and key lengths, and the account a key controls. The
  hash is a parameter; what matters of the derivation is its preimage, which determines the
  scheme and the key.
\<close>

datatype scheme = Ed25519 | Secp256k1Eip712 | Ed25519Message

type_synonym account_id = bytes

definition scheme_tag :: "scheme \<Rightarrow> byte" where
  "scheme_tag s = (case s of Ed25519 \<Rightarrow> 1 | Secp256k1Eip712 \<Rightarrow> 2 | Ed25519Message \<Rightarrow> 3)"

definition scheme_from_tag :: "byte \<Rightarrow> scheme option" where
  "scheme_from_tag t =
    (if t = 1 then Some Ed25519
     else if t = 2 then Some Secp256k1Eip712
     else if t = 3 then Some Ed25519Message
     else None)"

definition key_len :: "scheme \<Rightarrow> nat" where
  "key_len s = (case s of Ed25519 \<Rightarrow> 32 | Ed25519Message \<Rightarrow> 32 | Secp256k1Eip712 \<Rightarrow> 20)"

definition ACCOUNT_DOMAIN :: bytes where
  "ACCOUNT_DOMAIN = ascii ''zec.account.v1''"

text \<open>What \<open>account_of\<close> feeds the hash.\<close>

definition account_preimage :: "scheme \<Rightarrow> bytes \<Rightarrow> bytes" where
  "account_preimage s key = ACCOUNT_DOMAIN @ [scheme_tag s] @ be_bytes 4 (length key) @ key"

definition account_of :: "(bytes \<Rightarrow> bytes) \<Rightarrow> scheme \<Rightarrow> bytes \<Rightarrow> account_id" where
  "account_of sha256 s key = sha256 (account_preimage s key)"

lemma scheme_from_tag_tag [simp]: "scheme_from_tag (scheme_tag s) = Some s"
  by (cases s) (simp_all add: scheme_from_tag_def scheme_tag_def)

lemma scheme_from_tag_Some: "scheme_from_tag t = Some s \<longleftrightarrow> t = scheme_tag s"
  by (cases s) (auto simp: scheme_from_tag_def scheme_tag_def)

lemma scheme_tag_inject: "scheme_tag s = scheme_tag s' \<longleftrightarrow> s = s'"
  by (metis scheme_from_tag_tag option.inject)

text \<open>An account id commits to its scheme and its key: where the hash has no collision on the
  two preimages, two derivations give one account only for the same scheme and the same key
  bytes, so a scheme cannot be swapped under an account and keys of different lengths never
  share one.\<close>

theorem account_commits_to_key:
  assumes "sha256 (account_preimage s key) = sha256 (account_preimage s' key') \<longrightarrow>
    account_preimage s key = account_preimage s' key'"
  shows "account_of sha256 s key = account_of sha256 s' key' \<longleftrightarrow> s = s' \<and> key = key'"
  using assms by (auto simp: account_of_def account_preimage_def scheme_tag_inject)

theorem account_commits_to_key_witness:
  "account_of (\<lambda>b. rev b) Ed25519 [1, 2] = account_of (\<lambda>b. rev b) Ed25519 [1, 2] \<and>
   account_of (\<lambda>b. rev b) Ed25519 [1, 2] \<noteq> account_of (\<lambda>b. rev b) Ed25519Message [1, 2]"
  using account_commits_to_key [of "\<lambda>b. rev b" Ed25519 "[1, 2]" Ed25519Message "[1, 2]"] by simp

end
