(* ===== verification/Amount.thy ===== *)
theory Amount
  imports Decimal
begin

text \<open>
  amount.rs: the fixed-point type \<open>Fixed\<close> (an \<open>i128\<close> scaled by \<open>WAD = 10 ^ 18\<close>), its checked
  operations, and the 256-bit intermediate product and division behind \<open>mul\<close> and \<open>div\<close>. The
  integers stay 128-bit words, read with \<open>uint\<close> as \<open>u128\<close> and with \<open>sint\<close> as \<open>i128\<close>; the
  long division is the source's shift-and-subtract loop. The reference is exact integer
  arithmetic: the truncated (or rounded-up) quotient of the full product when it fits, and
  \<open>None\<close> when it does not.
\<close>

section \<open>The type and its checked operations\<close>

datatype fixed = Fixed (fixed_raw: i128)

definition WAD :: i128 where
  "WAD = 1000000000000000000"

definition checked_i128 :: "int \<Rightarrow> i128 option" where
  "checked_i128 n = (if - (2 ^ 127) \<le> n \<and> n < 2 ^ 127 then Some (word_of_int n) else None)"

definition fixed_zero :: fixed where
  "fixed_zero = Fixed 0"

definition fixed_one :: fixed where
  "fixed_one = Fixed WAD"

definition fixed_whole :: "64 word \<Rightarrow> fixed" where
  "fixed_whole n = Fixed (signed n * WAD)"

definition is_zero :: "fixed \<Rightarrow> bool" where
  "is_zero a \<longleftrightarrow> fixed_raw a = 0"

definition is_positive :: "fixed \<Rightarrow> bool" where
  "is_positive a \<longleftrightarrow> 0 < sint (fixed_raw a)"

definition is_negative :: "fixed \<Rightarrow> bool" where
  "is_negative a \<longleftrightarrow> sint (fixed_raw a) < 0"

definition fixed_abs :: "fixed \<Rightarrow> fixed option" where
  "fixed_abs a = map_option Fixed (checked_i128 \<bar>sint (fixed_raw a)\<bar>)"

definition fixed_neg :: "fixed \<Rightarrow> fixed option" where
  "fixed_neg a = map_option Fixed (checked_i128 (- sint (fixed_raw a)))"

definition fixed_add :: "fixed \<Rightarrow> fixed \<Rightarrow> fixed option" where
  "fixed_add a b = map_option Fixed (checked_i128 (sint (fixed_raw a) + sint (fixed_raw b)))"

definition fixed_sub :: "fixed \<Rightarrow> fixed \<Rightarrow> fixed option" where
  "fixed_sub a b = map_option Fixed (checked_i128 (sint (fixed_raw a) - sint (fixed_raw b)))"

definition fixed_min :: "fixed \<Rightarrow> fixed \<Rightarrow> fixed" where
  "fixed_min a b = (if sint (fixed_raw a) \<le> sint (fixed_raw b) then a else b)"

definition fixed_max :: "fixed \<Rightarrow> fixed \<Rightarrow> fixed" where
  "fixed_max a b = (if sint (fixed_raw b) \<le> sint (fixed_raw a) then a else b)"

text \<open>\<open>impl Ord for Fixed\<close>: the order of the signed raw values.\<close>

definition fixed_le :: "fixed \<Rightarrow> fixed \<Rightarrow> bool" where
  "fixed_le a b \<longleftrightarrow> sint (fixed_raw a) \<le> sint (fixed_raw b)"

definition fixed_lt :: "fixed \<Rightarrow> fixed \<Rightarrow> bool" where
  "fixed_lt a b \<longleftrightarrow> sint (fixed_raw a) < sint (fixed_raw b)"

instantiation fixed :: linorder
begin

definition less_eq_fixed :: "fixed \<Rightarrow> fixed \<Rightarrow> bool" where
  "less_eq_fixed = fixed_le"

definition less_fixed :: "fixed \<Rightarrow> fixed \<Rightarrow> bool" where
  "less_fixed = fixed_lt"

instance
proof
  fix x y :: fixed
  assume "x \<le> y" and "y \<le> x"
  then have "sint (fixed_raw x) = sint (fixed_raw y)" by (simp add: less_eq_fixed_def fixed_le_def)
  then have "fixed_raw x = fixed_raw y" by (rule signed_word_eqI)
  then show "x = y" by (rule fixed.expand)
qed (auto simp: less_eq_fixed_def less_fixed_def fixed_le_def fixed_lt_def)

end

section \<open>The 256-bit product\<close>

definition MASK :: u128 where
  "MASK = 0xFFFFFFFFFFFFFFFF"

definition mul_full :: "u128 \<Rightarrow> u128 \<Rightarrow> u128 \<times> u128" where
  "mul_full a b =
    (let a_lo = a AND MASK; a_hi = drop_bit 64 a;
         b_lo = b AND MASK; b_hi = drop_bit 64 b;
         ll = a_lo * b_lo; lh = a_lo * b_hi; hl = a_hi * b_lo; hh = a_hi * b_hi;
         mid = drop_bit 64 ll + (lh AND MASK) + (hl AND MASK);
         lo = (ll AND MASK) OR push_bit 64 mid;
         hi = hh + drop_bit 64 lh + drop_bit 64 hl + drop_bit 64 mid
     in (hi, lo))"

section \<open>The long division\<close>

text \<open>The loop \<open>while i > 0\<close>, whose counter runs down from 128.\<close>

fun div_loop :: "nat \<Rightarrow> u128 \<Rightarrow> u128 \<Rightarrow> u128 \<Rightarrow> u128 \<Rightarrow> u128 \<times> u128" where
  "div_loop 0 lo den rem quo = (quo, rem)"
| "div_loop (Suc i) lo den rem quo =
    (let bit = drop_bit i lo AND 1;
         carry_out = drop_bit 127 rem;
         rem' = push_bit 1 rem OR bit
     in if carry_out = 1 \<or> den \<le> rem'
        then div_loop i lo den (rem' - den) (quo OR push_bit i 1)
        else div_loop i lo den rem' quo)"

definition div_256_rem :: "u128 \<Rightarrow> u128 \<Rightarrow> u128 \<Rightarrow> (u128 \<times> u128) option" where
  "div_256_rem hi lo den =
    (if den = 0 then None
     else if hi = 0 then Some (lo div den, lo mod den)
     else if den \<le> hi then None
     else Some (div_loop 128 lo den hi 0))"

definition div_256_by_128 :: "u128 \<Rightarrow> u128 \<Rightarrow> u128 \<Rightarrow> u128 option" where
  "div_256_by_128 hi lo den = map_option fst (div_256_rem hi lo den)"

section \<open>Signed multiply-divide\<close>

definition unsigned_abs :: "i128 \<Rightarrow> u128" where
  "unsigned_abs a = (if sint a < 0 then - a else a)"

definition I128_MAX :: u128 where
  "I128_MAX = 0x7FFFFFFFFFFFFFFFFFFFFFFFFFFFFFFF"

definition I128_MIN :: i128 where
  "I128_MIN = 0x80000000000000000000000000000000"

text \<open>The tail both functions share: put the sign back, refuse what does not fit.\<close>

definition with_sign :: "bool \<Rightarrow> u128 \<Rightarrow> i128 option" where
  "with_sign neg q =
    (if neg then
       (if I128_MAX + 1 < q then None
        else if q = I128_MAX + 1 then Some I128_MIN
        else Some (- q))
     else if I128_MAX < q then None
     else Some q)"

definition signs_differ :: "i128 \<Rightarrow> i128 \<Rightarrow> i128 \<Rightarrow> bool" where
  "signs_differ a b den \<longleftrightarrow> ((sint a < 0) \<noteq> (sint b < 0)) \<noteq> (sint den < 0)"

definition mul_div :: "i128 \<Rightarrow> i128 \<Rightarrow> i128 \<Rightarrow> i128 option" where
  "mul_div a b den =
    (if den = 0 then None
     else case mul_full (unsigned_abs a) (unsigned_abs b) of
       (hi, lo) \<Rightarrow> do {
         q \<leftarrow> div_256_by_128 hi lo (unsigned_abs den);
         with_sign (signs_differ a b den) q
       })"

definition mul_div_ceil :: "i128 \<Rightarrow> i128 \<Rightarrow> i128 \<Rightarrow> i128 option" where
  "mul_div_ceil a b den =
    (if den = 0 then None
     else case mul_full (unsigned_abs a) (unsigned_abs b) of
       (hi, lo) \<Rightarrow> do {
         (q, r) \<leftarrow> div_256_rem hi lo (unsigned_abs den);
         q' \<leftarrow> (if r \<noteq> 0 then checked_add q 1 else Some q);
         with_sign (signs_differ a b den) q'
       })"

definition fixed_mul :: "fixed \<Rightarrow> fixed \<Rightarrow> fixed option" where
  "fixed_mul a b = map_option Fixed (mul_div (fixed_raw a) (fixed_raw b) WAD)"

definition fixed_div :: "fixed \<Rightarrow> fixed \<Rightarrow> fixed option" where
  "fixed_div a b =
    (if fixed_raw b = 0 then None
     else map_option Fixed (mul_div (fixed_raw a) WAD (fixed_raw b)))"

definition fixed_mul_div :: "fixed \<Rightarrow> fixed \<Rightarrow> fixed \<Rightarrow> fixed option" where
  "fixed_mul_div a num den =
    (if fixed_raw den = 0 then None
     else map_option Fixed (mul_div (fixed_raw a) (fixed_raw num) (fixed_raw den)))"

definition fixed_mul_div_ceil :: "fixed \<Rightarrow> fixed \<Rightarrow> fixed \<Rightarrow> fixed option" where
  "fixed_mul_div_ceil a num den =
    (if fixed_raw den = 0 then None
     else map_option Fixed (mul_div_ceil (fixed_raw a) (fixed_raw num) (fixed_raw den)))"

section \<open>The reference: exact integers\<close>

definition tdiv :: "int \<Rightarrow> int \<Rightarrow> int" where
  "tdiv x y = sgn x * sgn y * (\<bar>x\<bar> div \<bar>y\<bar>)"

definition up_div :: "int \<Rightarrow> int \<Rightarrow> int" where
  "up_div x y = sgn x * sgn y * ((\<bar>x\<bar> + \<bar>y\<bar> - 1) div \<bar>y\<bar>)"

section \<open>Words as integers\<close>

lemma uint_less_128: "uint (w :: u128) < 2 ^ 128"
  using uint_bounded [of w] by simp

lemma uint_and_MASK: "uint (w AND MASK) = uint w mod 2 ^ 64"
proof -
  have "w AND MASK = take_bit 64 w"
    by (simp add: MASK_def take_bit_eq_mask mask_eq_exp_minus_1)
  then show ?thesis by (simp only: unsigned_take_bit_eq) (rule take_bit_eq_mod)
qed

lemma uint_drop_bit: "uint (drop_bit n (w :: u128)) = uint w div 2 ^ n"
  by (metis drop_bit_eq_div unsigned_drop_bit_eq take_bit_length_eq unsigned_take_bit_eq)

lemma uint_mult_no_wrap: "uint a * uint b < 2 ^ 128 \<Longrightarrow> uint (a * b :: u128) = uint a * uint b"
  by (simp add: uint_word_ariths)

lemma uint_add_no_wrap: "uint a + uint b < 2 ^ 128 \<Longrightarrow> uint (a + b :: u128) = uint a + uint b"
  by (simp add: uint_word_ariths)

lemma or_push_bit_int:
  fixes x y :: int
  assumes "0 \<le> x" and "x < 2 ^ n"
  shows "x OR push_bit n y = x + y * 2 ^ n"
proof -
  have t: "take_bit n x = x" using assms by (simp add: take_bit_int_eq_self_iff)
  have "take_bit n x AND push_bit n y = 0"
    by (rule bit_eqI) (auto simp: bit_simps)
  then have "take_bit n x + push_bit n y = take_bit n x OR push_bit n y"
    by (rule disjunctive_add_eq_or)
  then show ?thesis unfolding t push_bit_eq_mult by simp
qed

lemma uint_push_bit: "uint (push_bit n (w :: u128)) = (uint w * 2 ^ n) mod 2 ^ 128"
  unfolding unsigned_push_bit_eq by (simp add: take_bit_eq_mod push_bit_eq_mult)

section \<open>The product is exact\<close>

text \<open>The four partial products put together again, over an arbitrary base.\<close>

lemma int_div_less:
  fixes A X :: int
  assumes "0 < X" and "A < X * X"
  shows "A div X < X"
proof (rule ccontr)
  assume "\<not> A div X < X"
  then have "X * X \<le> A div X * X" using assms(1) by (simp add: mult_right_mono)
  moreover have "A div X * X \<le> A"
    using div_mult_mod_eq [of A X] pos_mod_sign [OF assms(1), of A] by linarith
  ultimately show False using assms(2) by linarith
qed

lemma expand_product:
  fixes p q r s X :: int
  shows "(p * X + q) * (r * X + s) = (p * r) * (X * X) + (q * r + p * s) * X + q * s"
  by (simp add: algebra_simps)

lemma collect_carries:
  fixes X :: int
  shows "h * (X * X) + ((p * X + q) + (r * X + s)) * X + (t * X + u)
    = (h + p + r) * (X * X) + (t + q + s) * X + u"
  by (simp add: algebra_simps)

lemma partial_products:
  fixes X A B :: int
  assumes X: "0 < X" and A: "0 \<le> A" "A < X * X" and B: "0 \<le> B" "B < X * X"
  defines "ll \<equiv> (A mod X) * (B mod X)" and "lh \<equiv> (A mod X) * (B div X)"
    and "hl \<equiv> (A div X) * (B mod X)" and "hh \<equiv> (A div X) * (B div X)"
  defines "mid \<equiv> ll div X + lh mod X + hl mod X"
  shows "(hh + lh div X + hl div X + mid div X) * (X * X) + (ll mod X + (mid mod X) * X) = A * B"
    and "0 \<le> ll \<and> ll < X * X" and "0 \<le> lh \<and> lh < X * X"
    and "0 \<le> hl \<and> hl < X * X" and "0 \<le> hh \<and> hh < X * X"
    and "0 \<le> mid \<and> mid < 3 * X"
proof -
  let ?al = "A mod X" and ?ah = "A div X" and ?bl = "B mod X" and ?bh = "B div X"
  have al: "0 \<le> ?al" "?al < X" and bl: "0 \<le> ?bl" "?bl < X" using X by auto
  have "?ah < X" "?bh < X" "0 \<le> ?ah" "0 \<le> ?bh"
    using X A B by (simp_all add: pos_imp_zdiv_nonneg_iff int_div_less)
  with al bl X show ll: "0 \<le> ll \<and> ll < X * X" and lh: "0 \<le> lh \<and> lh < X * X"
    and hl: "0 \<le> hl \<and> hl < X * X" and hh: "0 \<le> hh \<and> hh < X * X"
    by (auto simp: ll_def lh_def hl_def hh_def intro: mult_strict_mono')
  have "ll div X < X" using ll X by (simp add: int_div_less)
  with ll X show "0 \<le> mid \<and> mid < 3 * X"
    using pos_mod_bound [of X lh] pos_mod_bound [of X hl] pos_mod_sign [of X lh]
      pos_mod_sign [of X hl]
      pos_imp_zdiv_nonneg_iff [of X ll]
    unfolding mid_def by linarith
  have "A * B = (?ah * X + ?al) * (?bh * X + ?bl)" by simp
  also have "\<dots> = hh * (X * X) + (lh + hl) * X + ll"
    by (simp only: ll_def lh_def hl_def hh_def expand_product)
  also have "\<dots> = hh * (X * X) + ((lh div X) * X + lh mod X + ((hl div X) * X + hl mod X)) * X
      + ((ll div X) * X + ll mod X)"
    by simp
  also have "\<dots> = (hh + lh div X + hl div X) * (X * X) + mid * X + ll mod X"
    unfolding mid_def by (rule collect_carries)
  also have "mid * X = (mid div X) * (X * X) + (mid mod X) * X"
    by (metis div_mult_mod_eq distrib_right mult.assoc)
  finally show "(hh + lh div X + hl div X + mid div X) * (X * X)
      + (ll mod X + (mid mod X) * X) = A * B"
    by (simp add: algebra_simps)
qed

lemma mul_full_exact:
  assumes "mul_full a b = (hi, lo)"
  shows "uint hi * 2 ^ 128 + uint lo = uint a * uint b"
proof -
  define X where "X = (2 :: int) ^ 64"
  have X2: "(2 :: int) ^ 128 = X * X" by (simp add: X_def)
  have X0: "0 < X" by (simp add: X_def)
  define A B where "A = uint a" and "B = uint b"
  have A: "0 \<le> A" "A < X * X" and B: "0 \<le> B" "B < X * X"
    using uint_less_128 [of a] uint_less_128 [of b] by (simp_all add: A_def B_def flip: X2)
  note P = partial_products [OF X0 A B]
  define ll lh hl hh where "ll = (A mod X) * (B mod X)" and "lh = (A mod X) * (B div X)"
    and "hl = (A div X) * (B mod X)" and "hh = (A div X) * (B div X)"
  define mid where "mid = ll div X + lh mod X + hl mod X"
  note defs = ll_def lh_def hl_def hh_def mid_def
  note R = P [folded ll_def lh_def hl_def hh_def, folded mid_def]
  have parts: "uint (a AND MASK) = A mod X" "uint (drop_bit 64 a) = A div X"
    "uint (b AND MASK) = B mod X" "uint (drop_bit 64 b) = B div X"
    by (simp_all only: uint_and_MASK uint_drop_bit A_def B_def X_def)
  define wll wlh whl whh where "wll = (a AND MASK) * (b AND MASK)"
    and "wlh = (a AND MASK) * drop_bit 64 b" and "whl = drop_bit 64 a * (b AND MASK)"
    and "whh = drop_bit 64 a * drop_bit 64 b"
  have w: "uint wll = ll" "uint wlh = lh" "uint whl = hl" "uint whh = hh"
    using R(2-5) unfolding wll_def wlh_def whl_def whh_def
    by (subst uint_mult_no_wrap; simp only: parts X2 ll_def lh_def hl_def hh_def; blast)+
  define wmid where "wmid = drop_bit 64 wll + (wlh AND MASK) + (whl AND MASK)"
  have small: "3 * X < X * X" by (simp add: X_def)
  have bounds: "0 \<le> ll div X" "0 \<le> lh mod X" "0 \<le> hl mod X" "0 \<le> lh div X" "0 \<le> hl div X"
    using R(2-4) X0 by (simp_all add: pos_imp_zdiv_nonneg_iff)
  have d: "uint (drop_bit 64 wll) = ll div X" "uint (wlh AND MASK) = lh mod X"
    "uint (whl AND MASK) = hl mod X" "uint (drop_bit 64 wlh) = lh div X"
    "uint (drop_bit 64 whl) = hl div X" "uint (wll AND MASK) = ll mod X"
    by (simp_all only: uint_and_MASK uint_drop_bit w X_def)
  have m1: "uint (drop_bit 64 wll + (wlh AND MASK)) = ll div X + lh mod X"
    using R(6) small bounds unfolding mid_def
    by (subst uint_add_no_wrap; simp only: d X2; linarith)
  have wmid: "uint wmid = mid"
    using R(6) small unfolding wmid_def mid_def
    by (subst uint_add_no_wrap; simp only: d m1 X2; linarith)
  define wlo where "wlo = (wll AND MASK) OR push_bit 64 wmid"
  have "uint (push_bit 64 wmid) = (mid * X) mod (X * X)"
    by (simp only: uint_push_bit wmid X2) (simp only: X_def)
  then have "uint (push_bit 64 wmid) = push_bit 64 (mid mod X)"
    by (simp only: mod_mult_mult2) (simp add: push_bit_eq_mult X_def)
  moreover have "ll mod X < 2 ^ 64" "0 \<le> ll mod X"
    using X0 pos_mod_bound [of X ll] by (simp_all add: X_def)
  ultimately have wlo: "uint wlo = ll mod X + (mid mod X) * X"
    unfolding wlo_def unsigned_or_eq d using or_push_bit_int [of "ll mod X" 64 "mid mod X"]
    by (simp add: X_def)
  define H where "H = hh + lh div X + hl div X + mid div X"
  have key: "H * (X * X) + (ll mod X + (mid mod X) * X) = A * B"
    using R(1) by (simp add: H_def)
  have "H < X * X"
  proof (rule ccontr)
    assume "\<not> H < X * X"
    then have "(X * X) * (X * X) \<le> H * (X * X)" using X0 by (simp add: mult_right_mono)
    moreover have "A * B < (X * X) * (X * X)" using A B X0 by (simp add: mult_strict_mono')
    moreover have "0 \<le> ll mod X + (mid mod X) * X" using X0 by simp
    ultimately show False using key by linarith
  qed
  moreover have "0 \<le> mid div X" using R(6) X0 by (simp add: pos_imp_zdiv_nonneg_iff)
  ultimately have sums: "hh + lh div X < X * X" "hh + lh div X + hl div X < X * X"
    "hh + lh div X + hl div X + mid div X < X * X"
    using bounds R(5) by (auto simp: H_def)
  define whi where "whi = whh + drop_bit 64 wlh + drop_bit 64 whl + drop_bit 64 wmid"
  have dm: "uint (drop_bit 64 wmid) = mid div X" by (simp only: uint_drop_bit wmid X_def)
  have h1: "uint (whh + drop_bit 64 wlh) = hh + lh div X"
    using sums by (subst uint_add_no_wrap; simp only: w d X2)
  have h2: "uint (whh + drop_bit 64 wlh + drop_bit 64 whl) = hh + lh div X + hl div X"
    using sums by (subst uint_add_no_wrap; simp only: h1 d X2)
  have whi: "uint whi = H"
    unfolding whi_def H_def using sums by (subst uint_add_no_wrap; simp only: h2 dm X2)
  have "mul_full a b = (whi, wlo)"
    by (simp add: mul_full_def Let_def whi_def wlo_def wmid_def wll_def wlh_def whl_def whh_def)
  with assms whi wlo key show ?thesis unfolding X2 A_def B_def by simp
qed

section \<open>The long division is exact\<close>

lemma uint_minus_128: "uint (a - b :: u128) = (uint a - uint b) mod 2 ^ 128"
  by (simp add: uint_word_ariths)

text \<open>One turn of the loop on integers: shift a bit of the numerator in, subtract if possible.\<close>

lemma uint_shift_in:
  assumes "uint rem < 2 ^ 127" and "uint bt < 2"
  shows "uint (push_bit 1 rem OR bt :: u128) = 2 * uint rem + uint bt"
proof -
  have "uint (push_bit 1 rem) = push_bit 1 (uint rem)"
    using assms(1) by (simp only: uint_push_bit) (simp add: push_bit_eq_mult)
  then show ?thesis
    using or_push_bit_int [of "uint bt" 1 "uint rem"] assms(2)
    by (simp only: unsigned_or_eq) (simp add: or.commute)
qed

lemma uint_shift_in_carry:
  assumes "2 ^ 127 \<le> uint rem" and "uint bt < 2"
  shows "uint (push_bit 1 rem OR bt :: u128) = 2 * uint rem + uint bt - 2 ^ 128"
proof -
  have "(uint rem * 2 - 2 ^ 128) mod 2 ^ 128 = uint rem * 2 - 2 ^ 128"
    using assms(1) uint_less_128 [of rem] by (intro mod_pos_pos_trivial) simp_all
  then have "uint rem * 2 - 2 ^ 128 = uint rem * 2 mod 2 ^ 128"
    by (simp only: minus_mod_self2)
  then have "uint (push_bit 1 rem) = push_bit 1 (uint rem - 2 ^ 127)"
    by (simp only: uint_push_bit) (simp add: push_bit_eq_mult)
  then show ?thesis
    using or_push_bit_int [of "uint bt" 1 "uint rem - 2 ^ 127"] assms(2)
    by (simp only: unsigned_or_eq) (simp add: or.commute)
qed

lemma uint_set_bit:
  assumes "i < 128" and "2 ^ Suc i dvd uint quo"
  shows "uint (quo OR push_bit i 1 :: u128) = uint quo + 2 ^ i"
proof -
  from assms(2) obtain k where k: "uint quo = k * 2 ^ Suc i" by (auto elim: dvdE simp: mult.commute)
  have "(2 :: int) ^ i < 2 ^ 128" using assms(1) by (intro power_strict_increasing) auto
  then have p: "uint (push_bit i 1 :: u128) = 2 ^ i"
    by (simp only: uint_push_bit unsigned_1 mult_1_left) (intro mod_pos_pos_trivial; simp)
  have "uint quo = push_bit (Suc i) k" by (simp add: k push_bit_eq_mult)
  then show ?thesis
    using or_push_bit_int [of "2 ^ i" "Suc i" k] k
    by (simp only: unsigned_or_eq p) (simp add: or.commute)
qed

lemma mod_Suc_bit:
  fixes l :: int
  shows "l mod 2 ^ Suc i = (l div 2 ^ i mod 2) * 2 ^ i + l mod 2 ^ i"
  using zmod_zmult2_eq [of 2 l "2 ^ i"] by (simp add: mult.commute)

lemma div_loop_exact:
  assumes "div_loop i lo den rem quo = (q, r)"
    and "i \<le> 128" and "uint rem < uint den" and "2 ^ i dvd uint quo"
  shows "uint r < uint den \<and>
    uint q * uint den + uint r = uint quo * uint den + (uint rem * 2 ^ i + uint lo mod 2 ^ i)"
  using assms
proof (induction i arbitrary: rem quo)
  case (Suc i)
  define bt where "bt = drop_bit i lo AND 1"
  define rem' where "rem' = (push_bit 1 rem OR bt)"
  define R where "R = 2 * uint rem + uint bt"
  have bt: "uint bt = uint lo div 2 ^ i mod 2"
    unfolding bt_def and_one_eq by (simp only: uint_mod uint_drop_bit) simp
  then have bit2: "uint bt < 2" by simp
  have carry: "drop_bit 127 rem = 1 \<longleftrightarrow> 2 ^ 127 \<le> uint rem"
  proof -
    have "uint rem div 2 ^ 127 < 2" using uint_less_128 [of rem] by simp
    then show ?thesis
      using zdiv_mono1 [of "2 ^ 127" "uint rem" "2 ^ 127"]
      by (auto simp: word_uint_eq_iff uint_drop_bit)
  qed
  have total: "uint rem * 2 ^ Suc i + uint lo mod 2 ^ Suc i = R * 2 ^ i + uint lo mod 2 ^ i"
    unfolding R_def bt mod_Suc_bit by (simp add: algebra_simps)
  have dbl: "(2 :: int) ^ 128 = 2 * 2 ^ 127" by simp
  have i: "i \<le> 128" "i < 128" using Suc.prems(2) by auto
  have R: "R < 2 * uint den" using Suc.prems(3) bit2 by (simp add: R_def)
  have dvd_i: "2 ^ i dvd uint quo" using Suc.prems(4) by (rule power_le_dvd) simp
  have set: "uint (quo OR push_bit i 1) = uint quo + 2 ^ i"
    using i(2) Suc.prems(4) by (rule uint_set_bit)
  have dvd_set: "2 ^ i dvd uint (quo OR push_bit i 1)" unfolding set using dvd_i by simp
  show ?case
  proof (cases "drop_bit 127 rem = 1 \<or> den \<le> rem'")
    case True
    have "uint (rem' - den) = R - uint den \<and> uint den \<le> R"
    proof (cases "2 ^ 127 \<le> uint rem")
      case True
      then have "uint rem' = R - 2 ^ 128"
        unfolding rem'_def R_def using bit2 by (rule uint_shift_in_carry)
      moreover have "(R - 2 ^ 128 - uint den) mod 2 ^ 128 = R - uint den"
      proof -
        have "uint den \<le> R" using True dbl uint_less_128 [of den] uint_nonnegative [of bt]
          unfolding R_def by linarith
        moreover have "R - uint den < 2 ^ 128" using R uint_less_128 [of den] by simp
        ultimately have "(R - uint den) mod 2 ^ 128 = R - uint den"
          by (intro mod_pos_pos_trivial) auto
        then show ?thesis
          by (simp only: diff_right_commute [of R "2 ^ 128" "uint den"] minus_mod_self2)
      qed
      moreover have "uint den \<le> R" using True dbl uint_less_128 [of den] uint_nonnegative [of bt]
          unfolding R_def by linarith
      ultimately show ?thesis by (simp only: uint_minus_128 simp_thms)
    next
      case False
      then have *: "uint rem' = R"
        unfolding rem'_def R_def using bit2 by (intro uint_shift_in) auto
      moreover have "den \<le> rem'" using True False carry by blast
      ultimately show ?thesis using uint_sub_lem [of den rem'] by (simp add: word_le_def)
    qed
    moreover have "div_loop i lo den (rem' - den) (quo OR push_bit i 1) = (q, r)"
      using Suc.prems(1) True by (simp add: Let_def bt_def rem'_def)
    moreover have "(uint quo + 2 ^ i) * uint den + ((R - uint den) * 2 ^ i + l)
        = uint quo * uint den + (R * 2 ^ i + l)" for l
      by (simp add: algebra_simps)
    moreover have "R - uint den < uint den" using R by simp
    ultimately show ?thesis
      using Suc.IH [of "rem' - den" "quo OR push_bit i 1"] i(1) dvd_set
      unfolding total set by simp
  next
    case False
    then have "uint rem < 2 ^ 127" using carry by auto
    then have *: "uint rem' = R" unfolding rem'_def R_def using bit2 by (rule uint_shift_in)
    moreover have "uint rem' < uint den" using False by (simp add: word_le_def)
    moreover have "div_loop i lo den rem' quo = (q, r)"
      using Suc.prems(1) False by (simp add: Let_def bt_def rem'_def)
    ultimately show ?thesis using Suc.IH [of rem' quo] i(1) dvd_i unfolding total by simp
  qed
qed simp

lemma div_256_rem_exact:
  assumes "div_256_rem hi lo den = Some (q, r)"
  shows "uint hi * 2 ^ 128 + uint lo = uint q * uint den + uint r \<and> uint r < uint den"
proof -
  have den: "den \<noteq> 0" using assms by (auto simp: div_256_rem_def split: if_splits)
  show ?thesis
  proof (cases "hi = 0")
    case True
    with assms den have "q = lo div den" "r = lo mod den" by (auto simp: div_256_rem_def)
    moreover have "0 < uint den" using den by (simp add: uint_0_iff less_le)
    ultimately show ?thesis using True by (simp add: uint_div uint_mod)
  next
    case False
    with assms den have "hi < den" and *: "div_loop 128 lo den hi 0 = (q, r)"
      by (auto simp: div_256_rem_def split: if_splits)
    then have "uint hi < uint den" by (simp add: word_less_def)
    with div_loop_exact [OF *] have "uint r < uint den \<and>
        uint q * uint den + uint r = uint hi * 2 ^ 128 + uint lo mod 2 ^ 128"
      by (simp only: order_refl unsigned_0 dvd_0_right) simp
    moreover have "uint lo mod 2 ^ 128 = uint lo" using uint_less_128 [of lo] by simp
    ultimately show ?thesis by simp
  qed
qed

lemma div_256_rem_None:
  assumes "den \<noteq> 0"
  shows "div_256_rem hi lo den = None \<longleftrightarrow> 2 ^ 128 \<le> (uint hi * 2 ^ 128 + uint lo) div uint den"
proof -
  have den: "0 < uint den" using assms by (simp add: uint_0_iff less_le)
  show ?thesis
  proof (cases "div_256_rem hi lo den")
    case None
    with assms have "uint den \<le> uint hi"
      by (auto simp: div_256_rem_def word_le_def split: if_splits)
    then have "2 ^ 128 * uint den \<le> 2 ^ 128 * uint hi" by (rule mult_left_mono) simp
    then have "2 ^ 128 * uint den \<le> uint hi * 2 ^ 128 + uint lo"
      using uint_nonnegative [of lo] by (simp only: mult.commute)
    then have "2 ^ 128 * uint den div uint den \<le> (uint hi * 2 ^ 128 + uint lo) div uint den"
      using den by (rule zdiv_mono1)
    with den have "2 ^ 128 \<le> (uint hi * 2 ^ 128 + uint lo) div uint den" by simp
    with None show ?thesis by simp
  next
    case (Some p)
    obtain q r where p: "p = (q, r)" by (cases p)
    note * = div_256_rem_exact [OF Some [unfolded p]]
    then have "(uint hi * 2 ^ 128 + uint lo) div uint den = uint q"
      using div_mult_self3 [of "uint den" "uint q" "uint r"] den by (simp add: div_pos_pos_trivial)
    with Some show ?thesis using uint_less_128 [of q] by simp
  qed
qed

section \<open>Signed results\<close>

lemma uint_unsigned_abs: "uint (unsigned_abs a) = \<bar>sint a\<bar>"
proof (cases "sint a < 0")
  case True
  have "- (2 ^ 127) \<le> sint a" using sint_ge [of a] by simp
  moreover have "uint (- a) = (- sint a) mod 2 ^ 128"
    using uint_word_of_int [of "- sint a", where 'a=128] by (simp add: wi_hom_neg [symmetric])
  ultimately show ?thesis using True by (simp add: unsigned_abs_def)
next
  case False
  then have "uint a = sint a"
    using uint_word_of_int [of "sint a", where 'a=128] sint_lt [of a] by simp
  with False show ?thesis by (simp add: unsigned_abs_def)
qed

lemma sint_checked: "checked_i128 n = Some w \<longleftrightarrow> sint w = n"
proof -
  have "- (2 ^ 127) \<le> n \<and> n < 2 ^ 127 \<Longrightarrow> sint (word_of_int n :: i128) = n"
    by (simp add: signed_of_int signed_take_bit_int_eq_self)
  moreover have "- (2 ^ 127) \<le> sint w \<and> sint w < 2 ^ 127"
    using sint_ge [of w] sint_lt [of w] by simp
  ultimately show ?thesis by (auto simp: checked_i128_def)
qed

text \<open>\<open>with_sign\<close> is the checked conversion of the signed quotient.\<close>

lemma with_sign_eq: "with_sign neg q = checked_i128 (if neg then - uint q else uint q)"
proof -
  have M: "uint I128_MAX = 2 ^ 127 - 1" "uint (I128_MAX + 1) = 2 ^ 127"
    by (simp_all add: I128_MAX_def)
  have m: "q = I128_MAX + 1 \<Longrightarrow> I128_MIN = word_of_int (- uint q)"
    by (simp add: I128_MAX_def I128_MIN_def)
  have q: "- uint q < 2 ^ 127" "- (2 ^ 127) \<le> uint q"
    by (rule le_less_trans [of _ 0], simp_all, rule order_trans [of _ 0], simp_all)
  have n: "word_of_int (- uint q) = - q" by (simp add: wi_hom_neg [symmetric])
  show ?thesis
    using q m M
    unfolding with_sign_def checked_i128_def word_less_def
    by (cases neg; cases "q = I128_MAX + 1") (auto simp: n)
qed

section \<open>Multiply-divide is exact integer arithmetic\<close>

lemma checked_big: "2 ^ 128 \<le> n \<Longrightarrow> checked_i128 n = None" "2 ^ 128 \<le> n \<Longrightarrow> checked_i128 (- n) = None"
  by (simp_all add: checked_i128_def)

lemma sint_eq_0: "sint (d :: i128) = 0 \<longleftrightarrow> d = 0"
  by (metis signed_0 signed_word_eqI)

lemma sgn_product:
  fixes x y z :: int
  shows "x \<noteq> 0 \<Longrightarrow> y \<noteq> 0 \<Longrightarrow> z \<noteq> 0 \<Longrightarrow>
    sgn x * sgn y * sgn z = (if ((x < 0) \<noteq> (y < 0)) \<noteq> (z < 0) then - 1 else 1)"
  by (auto simp: sgn_if)

lemma signed_quotient:
  assumes "sint a * sint b \<noteq> 0" and "den \<noteq> 0"
  shows "sgn (sint a * sint b) * sgn (sint den) = (if signs_differ a b den then - 1 else 1)"
proof -
  have "sint a \<noteq> 0" "sint b \<noteq> 0" "sint den \<noteq> 0" using assms by (auto simp: sint_eq_0)
  from sgn_product [OF this] show ?thesis by (simp only: sgn_mult signs_differ_def)
qed

lemma unsigned_abs_eq_0: "unsigned_abs d = 0 \<longleftrightarrow> d = 0"
  by (auto simp: unsigned_abs_def)

text \<open>What both functions divide: the magnitude of the product by that of the denominator.\<close>

lemma magnitude_parts:
  assumes "mul_full (unsigned_abs a) (unsigned_abs b) = (hi, lo)"
  shows "uint hi * 2 ^ 128 + uint lo = \<bar>sint a * sint b\<bar>"
  using mul_full_exact [OF assms] by (simp add: uint_unsigned_abs abs_mult)

lemma mul_div_exact:
  assumes "den \<noteq> 0"
  shows "mul_div a b den = checked_i128 (tdiv (sint a * sint b) (sint den))"
proof -
  obtain hi lo where p: "mul_full (unsigned_abs a) (unsigned_abs b) = (hi, lo)"
    by fastforce
  note m = magnitude_parts [OF p]
  have den: "unsigned_abs den \<noteq> 0" "uint (unsigned_abs den) = \<bar>sint den\<bar>" "\<bar>sint den\<bar> > 0"
    using assms by (simp_all add: unsigned_abs_eq_0 uint_unsigned_abs sint_eq_0)
  define n where "n = \<bar>sint a * sint b\<bar> div \<bar>sint den\<bar>"
  have t: "tdiv (sint a * sint b) (sint den) = (if signs_differ a b den then - n else n)"
    using signed_quotient [of a b den] assms
    by (cases "sint a * sint b = 0") (auto simp: tdiv_def n_def)
  show ?thesis
  proof (cases "div_256_rem hi lo (unsigned_abs den)")
    case None
    then have "2 ^ 128 \<le> n"
      using div_256_rem_None [OF den(1), of hi lo] unfolding m den n_def by blast
    then have "checked_i128 (if signs_differ a b den then - n else n) = None"
      using checked_big by simp
    with None p assms show ?thesis unfolding t by (simp add: mul_div_def div_256_by_128_def)
  next
    case (Some qr)
    obtain q r where qr: "qr = (q, r)" by (cases qr)
    note ex = div_256_rem_exact [OF Some [unfolded qr], unfolded m den]
    then have "n = uint q"
      using div_mult_self3 [of "\<bar>sint den\<bar>" "uint q" "uint r"] den(3)
      by (simp add: n_def div_pos_pos_trivial)
    with Some qr p assms show ?thesis
      unfolding t by (simp add: mul_div_def div_256_by_128_def with_sign_eq)
  qed
qed

lemma checked_add_one:
  fixes q :: u128
  shows "checked_add q 1 = None \<Longrightarrow> 2 ^ 128 \<le> uint q + 1"
    and "checked_add q 1 \<noteq> None \<Longrightarrow>
      checked_add q 1 = Some (q + 1) \<and> uint (q + 1) = uint q + 1"
proof -
  have u: "uint q = int (unat q)" by (rule uint_nat)
  have c: "unat q + unat (1 :: u128) < 2 ^ LENGTH(128) \<longleftrightarrow> uint q + 1 < 2 ^ 128"
  proof -
    have "uint q + 1 = int (unat q + 1)" "(2 :: int) ^ 128 = int (2 ^ 128)" by simp_all
    then show ?thesis by (simp only: of_nat_less_iff unsigned_1 len_num0 len_num1) simp
  qed
  show "checked_add q 1 = None \<Longrightarrow> 2 ^ 128 \<le> uint q + 1"
    unfolding checked_add_def c by (simp split: if_splits)
  show "checked_add q 1 \<noteq> None \<Longrightarrow>
      checked_add q 1 = Some (q + 1) \<and> uint (q + 1) = uint q + 1"
    unfolding checked_add_def c using uint_add_no_wrap [of q 1] by (simp split: if_splits)
qed

lemma mul_div_ceil_exact:
  assumes "den \<noteq> 0"
  shows "mul_div_ceil a b den = checked_i128 (up_div (sint a * sint b) (sint den))"
proof -
  obtain hi lo where p: "mul_full (unsigned_abs a) (unsigned_abs b) = (hi, lo)"
    by fastforce
  note m = magnitude_parts [OF p]
  have den: "unsigned_abs den \<noteq> 0" "uint (unsigned_abs den) = \<bar>sint den\<bar>" "\<bar>sint den\<bar> > 0"
    using assms by (simp_all add: unsigned_abs_eq_0 uint_unsigned_abs sint_eq_0)
  define n where "n = (\<bar>sint a * sint b\<bar> + \<bar>sint den\<bar> - 1) div \<bar>sint den\<bar>"
  have "n = 0" if "sint a * sint b = 0"
    using that den(3) unfolding n_def that by (simp add: div_pos_pos_trivial)
  then have t: "up_div (sint a * sint b) (sint den) = (if signs_differ a b den then - n else n)"
    using signed_quotient [of a b den] assms
    by (cases "sint a * sint b = 0") (auto simp: up_div_def n_def)
  show ?thesis
  proof (cases "div_256_rem hi lo (unsigned_abs den)")
    case None
    then have "2 ^ 128 \<le> \<bar>sint a * sint b\<bar> div \<bar>sint den\<bar>"
      using div_256_rem_None [OF den(1), of hi lo] unfolding m den by blast
    also have "\<dots> \<le> n" unfolding n_def using den(3) by (intro zdiv_mono1) auto
    finally have "checked_i128 (if signs_differ a b den then - n else n) = None"
      using checked_big by simp
    with None p assms show ?thesis unfolding t by (simp add: mul_div_ceil_def)
  next
    case (Some qr)
    obtain q r where qr: "qr = (q, r)" by (cases qr)
    note ex = div_256_rem_exact [OF Some [unfolded qr], unfolded m den]
    have r0: "0 \<le> uint r" by simp
    have n: "n = (if r \<noteq> 0 then uint q + 1 else uint q)"
    proof (cases "r = 0")
      case True
      then have "n = (uint q * \<bar>sint den\<bar> + (\<bar>sint den\<bar> - 1)) div \<bar>sint den\<bar>"
        unfolding n_def using ex by (simp add: algebra_simps)
      with True den(3) show ?thesis
        using div_mult_self3 [of "\<bar>sint den\<bar>" "uint q" "\<bar>sint den\<bar> - 1"]
        by (simp add: div_pos_pos_trivial)
    next
      case False
      then have "0 < uint r" using r0 by (simp add: uint_0_iff less_le)
      moreover have "n = ((uint q + 1) * \<bar>sint den\<bar> + (uint r - 1)) div \<bar>sint den\<bar>"
        unfolding n_def using ex by (simp add: algebra_simps)
      ultimately show ?thesis
        using ex den(3) False div_mult_self3 [of "\<bar>sint den\<bar>" "uint q + 1" "uint r - 1"]
        by (simp add: div_pos_pos_trivial)
    qed
    show ?thesis
    proof (cases "r \<noteq> 0 \<and> checked_add q 1 = None")
      case True
      then have "2 ^ 128 \<le> uint q + 1" using checked_add_one(1) [of q] by blast
      with True n have "2 ^ 128 \<le> n" by simp
      from checked_big [OF this]
      have "checked_i128 (if signs_differ a b den then - n else n) = None" by (simp split: if_splits)
      with Some qr p assms True show ?thesis unfolding t by (simp add: mul_div_ceil_def)
    next
      case False
      then have *: "r \<noteq> 0 \<Longrightarrow> checked_add q 1 = Some (q + 1) \<and> uint (q + 1) = uint q + 1"
        using checked_add_one(2) [of q] by blast
      define q' where "q' = (if r \<noteq> 0 then q + 1 else q)"
      have q': "(if r \<noteq> 0 then checked_add q 1 else Some q) = Some q'" "uint q' = n"
        unfolding q'_def n using * by (simp_all only: split: if_splits) auto
      have "mul_div_ceil a b den = with_sign (signs_differ a b den) q'"
        using Some qr p assms q'(1) by (simp only: mul_div_ceil_def if_False prod.case bind.bind_lunit)
      then show ?thesis unfolding t with_sign_eq q'(2) .
    qed
  qed
qed

section \<open>The operations of \<open>Fixed\<close> against exact integers\<close>

definition fits_i128 :: "int \<Rightarrow> int option" where
  "fits_i128 n = (if - (2 ^ 127) \<le> n \<and> n < 2 ^ 127 then Some n else None)"

definition raw_value :: "fixed \<Rightarrow> int" where
  "raw_value a = sint (fixed_raw a)"

lemma raw_value_checked: "map_option raw_value (map_option Fixed (checked_i128 n)) = fits_i128 n"
proof -
  have "checked_i128 n = Some (word_of_int n) \<Longrightarrow> sint (word_of_int n :: i128) = n"
    by (simp only: sint_checked)
  then show ?thesis by (simp add: checked_i128_def fits_i128_def raw_value_def)
qed

lemma sint_WAD: "sint WAD = 10 ^ 18" "WAD \<noteq> 0"
  by (simp_all add: WAD_def)

lemmas fixed_op_defs = fixed_add_def fixed_sub_def fixed_neg_def fixed_abs_def fixed_mul_def
  fixed_div_def fixed_mul_div_def fixed_mul_div_ceil_def

text \<open>The checked additive operations of \<open>Fixed\<close> are exact: the integer result when it fits in
  an \<open>i128\<close>, and \<open>None\<close> exactly when it does not. Nothing wraps.\<close>

theorem fixed_linear_exact:
  "map_option raw_value (fixed_add a b) = fits_i128 (raw_value a + raw_value b) \<and>
   map_option raw_value (fixed_sub a b) = fits_i128 (raw_value a - raw_value b) \<and>
   map_option raw_value (fixed_neg a) = fits_i128 (- raw_value a) \<and>
   map_option raw_value (fixed_abs a) = fits_i128 \<bar>raw_value a\<bar>"
  by (simp add: fixed_op_defs raw_value_checked raw_value_def [symmetric])

text \<open>C21: the 256-bit multiply-divide. Multiplication, division and the fused multiply-divide of
  \<open>Fixed\<close>, computed through four 64-bit partial products and a shift-and-subtract division on
  wrapping words, are the truncated quotient of the full-width product; the ceiling form
  rounds the magnitude up. The result is \<open>None\<close> only for a zero denominator or a quotient that
  does not fit, never because the intermediate product passes 128 bits.\<close>

theorem fixed_mul_div_family_exact:
  "map_option raw_value (fixed_mul a b) = fits_i128 (tdiv (raw_value a * raw_value b) (10 ^ 18)) \<and>
   map_option raw_value (fixed_div a b) =
     (if raw_value b = 0 then None
      else fits_i128 (tdiv (raw_value a * 10 ^ 18) (raw_value b))) \<and>
   map_option raw_value (fixed_mul_div a b d) =
     (if raw_value d = 0 then None
      else fits_i128 (tdiv (raw_value a * raw_value b) (raw_value d))) \<and>
   map_option raw_value (fixed_mul_div_ceil a b d) =
     (if raw_value d = 0 then None
      else fits_i128 (up_div (raw_value a * raw_value b) (raw_value d)))"
proof -
  have "fixed_mul a b = map_option Fixed (checked_i128 (tdiv (raw_value a * raw_value b) (10 ^ 18)))"
    unfolding fixed_mul_def mul_div_exact [OF sint_WAD(2)] sint_WAD(1) raw_value_def ..
  moreover have "raw_value b \<noteq> 0 \<Longrightarrow> fixed_div a b
      = map_option Fixed (checked_i128 (tdiv (raw_value a * 10 ^ 18) (raw_value b)))"
    using mul_div_exact [of "fixed_raw b" "fixed_raw a" WAD] unfolding sint_WAD(1)
    by (simp only: raw_value_def fixed_div_def sint_eq_0 if_False not_False_eq_True)
  moreover have "raw_value d \<noteq> 0 \<Longrightarrow> fixed_mul_div a b d
      = map_option Fixed (checked_i128 (tdiv (raw_value a * raw_value b) (raw_value d)))"
    using mul_div_exact [of "fixed_raw d" "fixed_raw a" "fixed_raw b"]
    by (simp only: raw_value_def fixed_mul_div_def sint_eq_0 if_False not_False_eq_True)
  moreover have "raw_value d \<noteq> 0 \<Longrightarrow> fixed_mul_div_ceil a b d
      = map_option Fixed (checked_i128 (up_div (raw_value a * raw_value b) (raw_value d)))"
    using mul_div_ceil_exact [of "fixed_raw d" "fixed_raw a" "fixed_raw b"]
    by (simp only: raw_value_def fixed_mul_div_ceil_def sint_eq_0 if_False not_False_eq_True)
  moreover have "raw_value b = 0 \<Longrightarrow> fixed_div a b = None"
    "raw_value d = 0 \<Longrightarrow> fixed_mul_div a b d = None"
    "raw_value d = 0 \<Longrightarrow> fixed_mul_div_ceil a b d = None"
    by (simp_all add: raw_value_def fixed_op_defs sint_eq_0)
  ultimately show ?thesis
    by (cases "raw_value b = 0"; cases "raw_value d = 0")
      (simp_all only: raw_value_checked if_True if_False simp_thms option.map)
qed

section \<open>The text of an amount\<close>

text \<open>The loop that pops trailing zeros, on the reversed digits.\<close>

fun pop_zeros :: "bytes \<Rightarrow> bytes" where
  "pop_zeros (d # e # ds) = (if d = 48 then pop_zeros (e # ds) else d # e # ds)"
| "pop_zeros ds = ds"

definition fixed_text :: "fixed \<Rightarrow> bytes" where
  "fixed_text a =
    (let neg = sint (fixed_raw a) < 0;
         v = unsigned_abs (fixed_raw a);
         whole = unat (v div WAD);
         frac = unat (v mod WAD);
         frac_s = rev (pop_zeros (rev (pad_zeros 18 (decimal frac))))
     in (if neg then ascii ''-'' else []) @ decimal whole @ ascii ''.'' @ frac_s)"

text \<open>What the text says: sign, whole part, and the fraction read to eighteen places.\<close>

definition fixed_read :: "bytes \<Rightarrow> int" where
  "fixed_read t =
    (let neg = t \<noteq> [] \<and> hd t = 45;
         u = (if neg then tl t else t);
         frac = tl (dropWhile (\<lambda>c. c \<noteq> 46) u);
         v = dec_value (takeWhile (\<lambda>c. c \<noteq> 46) u) * 10 ^ 18 + dec_value (frac @ replicate (18 - length frac) 48)
     in if neg then - int v else int v)"

lemma pop_zeros_pads: "\<exists>k. ds = replicate k 48 @ pop_zeros ds"
proof (induction ds rule: pop_zeros.induct)
  case (1 d e ds)
  show ?case
  proof (cases "d = 48")
    case True
    with 1 obtain k where "e # ds = replicate k 48 @ pop_zeros (e # ds)" by blast
    with True have "d # e # ds = replicate (Suc k) 48 @ pop_zeros (d # e # ds)" by simp
    then show ?thesis by blast
  qed (auto intro: exI [of _ 0])
qed (auto intro: exI [of _ 0])

lemma frac_pads:
  assumes "length ds = 18"
  shows "rev (pop_zeros (rev ds)) @ replicate (18 - length (rev (pop_zeros (rev ds)))) 48 = ds"
proof -
  obtain k where k: "rev ds = replicate k 48 @ pop_zeros (rev ds)" using pop_zeros_pads by blast
  then have "length (rev ds) = k + length (pop_zeros (rev ds))" by (metis length_append length_replicate)
  then have "k = 18 - length (pop_zeros (rev ds))" using assms by simp
  with arg_cong [OF k, of rev] show ?thesis by simp
qed

text \<open>An amount can be read off its text. Sign, whole part and fraction, the latter with the zeros that were
  trimmed put back, are the raw value to the last of its eighteen places; so no two amounts print alike.\<close>

theorem fixed_text_exact: "fixed_read (fixed_text a) = sint (fixed_raw a)"
proof -
  let ?v = "unsigned_abs (fixed_raw a)"
  let ?frac = "rev (pop_zeros (rev (pad_zeros 18 (decimal (unat (?v mod WAD))))))"
  have wad: "unat WAD = 10 ^ 18" by (simp add: WAD_def)
  have "unat (?v mod WAD) < 10 ^ 18" by (simp add: unat_mod wad)
  then have len: "length (pad_zeros 18 (decimal (unat (?v mod WAD)))) = 18" by (rule pad_zeros_facts(2)) simp
  have whole: "\<forall>c \<in> set (decimal n). c \<noteq> 46 \<and> c \<noteq> 45" for n
    using decimal_digits [of _ n] by (force simp: is_digit_def)
  have hd: "hd (decimal n @ r) \<noteq> 45" for n r using whole [of n] by (cases "decimal n") auto
  have body: "takeWhile (\<lambda>c. c \<noteq> 46) (decimal n @ 46 # r) = decimal n" "dropWhile (\<lambda>c. c \<noteq> 46) (decimal n @ 46 # r) = 46 # r" for n r
    using whole [of n] by (simp_all add: takeWhile_append2 dropWhile_append2)
  have v: "dec_value (decimal (unat (?v div WAD))) * 10 ^ 18 + dec_value (?frac @ replicate (18 - length ?frac) 48) = unat ?v"
    unfolding frac_pads [OF len] pad_zeros_facts(1) dec_value_decimal by (simp add: unat_div unat_mod wad)
  have "fixed_read (fixed_text a) = (if sint (fixed_raw a) < 0 then - int (unat ?v) else int (unat ?v))"
    using hd body v by (simp add: fixed_read_def fixed_text_def Let_def ascii_def)
  then show ?thesis by (simp add: uint_unsigned_abs)
qed

end
