(* ===== verification/Base58.thy ===== *)
theory Base58
  imports Prelude
begin

text \<open>
  base58.rs: base58 as transparent addresses use it. The accumulators are the source's
  little-endian digit vectors, updated in place digit by digit with a \<open>u32\<close> carry. The lemmas
  show that each inner loop is one step \<open>n \<mapsto> 58 n + d\<close> (or \<open>256 n + b\<close>) on the number the
  vector stands for, and that both functions are inverse to each other.
\<close>

definition B58 :: bytes where
  "B58 = ascii ''123456789ABCDEFGHJKLMNPQRSTUVWXYZabcdefghijkmnopqrstuvwxyz''"

fun position :: "'a \<Rightarrow> 'a list \<Rightarrow> nat option" where
  "position x [] = None"
| "position x (y # ys) = (if y = x then Some 0 else map_option Suc (position x ys))"

section \<open>Decoding\<close>

function push_carry_256 :: "u32 \<Rightarrow> bytes" where
  "push_carry_256 c = (if 0 < c then ucast (c AND 0xFF) # push_carry_256 (drop_bit 8 c) else [])"
  by pat_completeness auto
termination
proof (relation "measure unat")
  fix c :: u32
  assume "0 < c"
  then have "unat c div 256 < unat c" by (simp add: word_less_nat_alt)
  moreover have "unat (drop_bit 8 c) = unat c div 256"
    by (simp add: drop_bit_eq_div unat_div)
  ultimately show "(drop_bit 8 c, c) \<in> measure unat" by simp
qed simp

declare push_carry_256.simps [simp del]

text \<open>The inner loop of \<open>base58_decode\<close>: \<open>big = big * 58 + carry\<close>.\<close>

fun mul_58 :: "u32 \<Rightarrow> bytes \<Rightarrow> bytes" where
  "mul_58 carry [] = push_carry_256 carry"
| "mul_58 carry (b # big) =
    (let v = (ucast b :: u32) * 58 + carry
     in ucast (v AND 0xFF) # mul_58 (drop_bit 8 v) big)"

fun decode_chars :: "bytes \<Rightarrow> bytes \<Rightarrow> bytes option" where
  "decode_chars big [] = Some big"
| "decode_chars big (c # s) =
    (case position c B58 of
       None \<Rightarrow> None
     | Some d \<Rightarrow> decode_chars (mul_58 (of_nat d) big) s)"

definition base58_decode :: "bytes \<Rightarrow> bytes option" where
  "base58_decode s = do {
     big \<leftarrow> decode_chars [] s;
     Some (zeros (length (takeWhile (\<lambda>c. c = of_char CHR ''1'') s)) @ rev big)
   }"

section \<open>Encoding\<close>

function push_carry_58 :: "u32 \<Rightarrow> bytes" where
  "push_carry_58 c = (if 0 < c then ucast (c mod 58) # push_carry_58 (c div 58) else [])"
  by pat_completeness auto
termination
proof (relation "measure unat")
  fix c :: u32
  assume "0 < c"
  then show "(c div 58, c) \<in> measure unat" by (simp add: word_less_nat_alt unat_div)
qed simp

declare push_carry_58.simps [simp del]

fun mul_256 :: "u32 \<Rightarrow> bytes \<Rightarrow> bytes" where
  "mul_256 carry [] = push_carry_58 carry"
| "mul_256 carry (d # digits) =
    (let v = (ucast d :: u32) * 256 + carry
     in ucast (v mod 58) # mul_256 (v div 58) digits)"

definition encode_digits :: "bytes \<Rightarrow> bytes" where
  "encode_digits b = fold (\<lambda>x digits. mul_256 (ucast x) digits) b []"

definition base58_encode :: "bytes \<Rightarrow> bytes" where
  "base58_encode b =
    replicate (length (takeWhile (\<lambda>x. x = 0) b)) (of_char CHR ''1'')
    @ map (\<lambda>d. B58 ! unat d) (rev (encode_digits b))"

section \<open>The digits of a number\<close>

fun digits_of :: "nat \<Rightarrow> nat \<Rightarrow> nat list" where
  "digits_of B n = (if n = 0 \<or> B < 2 then [] else n mod B # digits_of B (n div B))"

declare digits_of.simps [simp del]

definition number :: "nat \<Rightarrow> nat list \<Rightarrow> nat" where
  "number B ds = fold (\<lambda>d n. B * n + d) ds 0"

lemma digits_of_0 [simp]: "digits_of B 0 = []"
  by (simp add: digits_of.simps)

lemma digits_of_step:
  "2 \<le> B \<Longrightarrow> d < B \<Longrightarrow> 0 < n \<or> 0 < d \<Longrightarrow> digits_of B (B * n + d) = d # digits_of B n"
  by (subst digits_of.simps) simp

lemma digits_of_less: "2 \<le> B \<Longrightarrow> d \<in> set (digits_of B n) \<Longrightarrow> d < B"
  by (induction B n rule: digits_of.induct)
    (subst (asm) (2) digits_of.simps, auto split: if_splits)

lemma number_snoc: "number B (ds @ [d]) = B * number B ds + d"
  by (simp add: number_def)

lemma number_digits: "2 \<le> B \<Longrightarrow> number B (rev (digits_of B n)) = n"
proof (induction B n rule: digits_of.induct)
  case (1 B n)
  then show ?case by (subst digits_of.simps) (auto simp: number_snoc number_def)
qed

lemma last_digit: "2 \<le> B \<Longrightarrow> n \<noteq> 0 \<Longrightarrow> digits_of B n \<noteq> [] \<and> last (digits_of B n) \<noteq> 0"
proof (induction B n rule: digits_of.induct)
  case (1 B n)
  then have n: "digits_of B n = n mod B # digits_of B (n div B)" by (subst digits_of.simps) simp
  show ?case
  proof (cases "n div B = 0")
    case True
    with 1 n show ?thesis by (auto simp: div_eq_0_iff)
  next
    case False
    with 1 n show ?thesis by simp
  qed
qed

lemma digits_of_number:
  "2 \<le> B \<Longrightarrow> \<forall>d \<in> set ds. d < B \<Longrightarrow> ds = [] \<or> hd ds \<noteq> 0 \<Longrightarrow>
    digits_of B (number B ds) = rev ds"
proof (induction ds rule: rev_induct)
  case (snoc d ds)
  show ?case
  proof (cases "ds = []")
    case True
    with snoc show ?thesis by (simp add: number_def) (subst digits_of.simps, simp)
  next
    case False
    with snoc have ih: "digits_of B (number B ds) = rev ds" by auto
    with False have "number B ds \<noteq> 0" by (auto intro: ccontr)
    with snoc ih show ?thesis by (simp add: number_snoc digits_of_step)
  qed
qed (simp add: number_def)

lemma number_zeros: "number B (replicate k 0 @ ds) = number B ds"
  by (induction k) (simp_all add: number_def)

section \<open>The loops compute digits\<close>

lemma word_byte: "ucast (v AND 0xFF :: u32) = (of_nat (unat v mod 256) :: byte)"
proof -
  have "v AND 0xFF = take_bit 8 v" by (simp add: take_bit_eq_mask mask_eq_exp_minus_1)
  moreover have "unat (take_bit 8 v) = unat v mod 2 ^ 8"
    using unsigned_take_bit_eq [of 8 v, where ?'a=nat] by (simp only: take_bit_eq_mod)
  ultimately show ?thesis by (simp only: ucast_of_nat_unat) simp
qed

lemma unat_shift_8: "unat (drop_bit 8 (v :: u32)) = unat v div 256"
  by (simp add: drop_bit_eq_div unat_div)

lemma push_carry_256_digits: "push_carry_256 c = map of_nat (digits_of 256 (unat c))"
proof (induction c rule: push_carry_256.induct)
  case (1 c)
  show ?case
  proof (cases "0 < c")
    case True
    then have "unat c \<noteq> 0" by (simp add: word_less_nat_alt)
    with True 1 show ?thesis
      by (subst push_carry_256.simps, subst digits_of.simps) (simp add: word_byte unat_shift_8)
  next
    case False
    then have "c = 0" by (simp add: word_less_nat_alt unat_eq_zero)
    then show ?thesis by (subst push_carry_256.simps) simp
  qed
qed

lemma carry_step:
  fixes q :: nat
  assumes "q * B + r = n" and "k * B + d = v" and "v = r * A + c"
  shows "A * n + c = B * (A * q + k) + d"
proof -
  have "A * n + c = A * (q * B) + (r * A + c)" by (simp add: assms(1) [symmetric] algebra_simps)
  also have "r * A + c = k * B + d" using assms(2, 3) by simp
  finally show ?thesis by (simp add: algebra_simps)
qed

lemma mul_58_digits:
  "unat carry < 58 \<Longrightarrow>
    mul_58 carry (map of_nat (digits_of 256 n)) = map of_nat (digits_of 256 (58 * n + unat carry))"
proof (induction n arbitrary: carry rule: less_induct)
  case (less n)
  show ?case
  proof (cases "n = 0")
    case True
    then show ?thesis by (simp add: push_carry_256_digits)
  next
    case False
    define v where "v = (ucast (of_nat (n mod 256) :: byte) :: u32) * 58 + carry"
    have m: "n mod 256 < 256" by simp
    then have "unat (ucast (of_nat (n mod 256) :: byte) :: u32) = n mod 256"
      by (simp add: unat_ucast_up unat_of_nat)
    moreover have "n mod 256 * 58 + unat carry < 2 ^ 32" using m less.prems by simp
    ultimately have v: "unat v = n mod 256 * 58 + unat carry"
      unfolding v_def by (simp add: unat_word_ariths)
    have "unat v div 256 < 58" using v m less.prems by simp
    then have ih: "mul_58 (drop_bit 8 v) (map of_nat (digits_of 256 (n div 256)))
        = map of_nat (digits_of 256 (58 * (n div 256) + unat v div 256))"
      using less.IH [of "n div 256" "drop_bit 8 v"] False by (simp add: unat_shift_8)
    have n: "digits_of 256 n = n mod 256 # digits_of 256 (n div 256)"
      using False by (subst digits_of.simps) simp
    have eq: "58 * n + unat carry = 256 * (58 * (n div 256) + unat v div 256) + unat v mod 256"
      by (rule carry_step [OF div_mult_mod_eq div_mult_mod_eq v])
    have "0 < 58 * (n div 256) + unat v div 256 \<or> 0 < unat v mod 256"
      using eq False by (metis add_is_0 less_not_refl mult_is_0 neq0_conv zero_neq_numeral)
    then have "digits_of 256 (58 * n + unat carry)
        = unat v mod 256 # digits_of 256 (58 * (n div 256) + unat v div 256)"
      unfolding eq by (intro digits_of_step) auto
    then show ?thesis
      by (simp add: n Let_def v_def [symmetric] word_byte ih)
  qed
qed

lemma unat_mod_58: "unat (c mod 58 :: u32) = unat c mod 58"
  by (simp add: unat_mod)

lemma push_carry_58_digits: "push_carry_58 c = map of_nat (digits_of 58 (unat c))"
proof (induction c rule: push_carry_58.induct)
  case (1 c)
  have w: "ucast (c mod 58) = (of_nat (unat c mod 58) :: byte)"
    by (simp only: ucast_of_nat_unat unat_mod_58)
  show ?case
  proof (cases "0 < c")
    case True
    then have "unat c \<noteq> 0" by (simp add: word_less_nat_alt)
    with True 1 show ?thesis
      by (subst push_carry_58.simps, subst digits_of.simps) (simp add: w unat_div)
  next
    case False
    then have "c = 0" by (simp add: word_less_nat_alt unat_eq_zero)
    then show ?thesis by (subst push_carry_58.simps) simp
  qed
qed

lemma mul_256_digits:
  "unat carry < 256 \<Longrightarrow>
    mul_256 carry (map of_nat (digits_of 58 n)) = map of_nat (digits_of 58 (256 * n + unat carry))"
proof (induction n arbitrary: carry rule: less_induct)
  case (less n)
  show ?case
  proof (cases "n = 0")
    case True
    then show ?thesis by (simp add: push_carry_58_digits)
  next
    case False
    define v where "v = (ucast (of_nat (n mod 58) :: byte) :: u32) * 256 + carry"
    have m: "n mod 58 < 58" by simp
    then have "unat (ucast (of_nat (n mod 58) :: byte) :: u32) = n mod 58"
      by (simp add: unat_ucast_up unat_of_nat)
    moreover have "n mod 58 * 256 + unat carry < 2 ^ 32" using m less.prems by simp
    ultimately have v: "unat v = n mod 58 * 256 + unat carry"
      unfolding v_def by (simp add: unat_word_ariths)
    have w: "ucast (v mod 58) = (of_nat (unat v mod 58) :: byte)"
      by (simp only: ucast_of_nat_unat unat_mod_58)
    have "unat v div 58 < 256" using v m less.prems by simp
    then have ih: "mul_256 (v div 58) (map of_nat (digits_of 58 (n div 58)))
        = map of_nat (digits_of 58 (256 * (n div 58) + unat v div 58))"
      using less.IH [of "n div 58" "v div 58"] False by (simp add: unat_div)
    have n: "digits_of 58 n = n mod 58 # digits_of 58 (n div 58)"
      using False by (subst digits_of.simps) simp
    have eq: "256 * n + unat carry = 58 * (256 * (n div 58) + unat v div 58) + unat v mod 58"
      by (rule carry_step [OF div_mult_mod_eq div_mult_mod_eq v])
    have "0 < 256 * (n div 58) + unat v div 58 \<or> 0 < unat v mod 58"
      using eq False by (metis add_is_0 less_not_refl mult_is_0 neq0_conv zero_neq_numeral)
    then have "digits_of 58 (256 * n + unat carry)
        = unat v mod 58 # digits_of 58 (256 * (n div 58) + unat v div 58)"
      unfolding eq by (intro digits_of_step) auto
    then show ?thesis
      by (simp add: n Let_def v_def [symmetric] w ih)
  qed
qed

section \<open>The two functions are inverse\<close>

lemma encode_digits_eq: "encode_digits b = map of_nat (digits_of 58 (number 256 (map unat b)))"
proof (induction b rule: rev_induct)
  case (snoc x b)
  then show ?case
    using mul_256_digits [of "ucast x" "number 256 (map unat b)"] unat_byte_less [of x]
    by (simp add: encode_digits_def number_snoc unat_ucast_up)
qed (simp add: encode_digits_def number_def)

lemma length_B58: "length B58 = 58"
  by (simp add: B58_def ascii_def)

lemma distinct_B58: "distinct B58"
  by (simp add: B58_def ascii_def)

lemma position_Some: "position x ys = Some i \<Longrightarrow> i < length ys \<and> ys ! i = x"
  by (induction ys arbitrary: i) (auto split: if_splits)

lemma position_nth: "distinct ys \<Longrightarrow> i < length ys \<Longrightarrow> position (ys ! i) ys = Some i"
proof (induction ys arbitrary: i)
  case (Cons y ys)
  then show ?case by (cases i) (auto simp: nth_mem)
qed simp

lemma decode_chars_digits:
  assumes "\<forall>d \<in> set ds. d < 58"
  shows "decode_chars (map of_nat (digits_of 256 n)) (map (\<lambda>d. B58 ! d) ds)
    = Some (map of_nat (digits_of 256 (fold (\<lambda>d n. 58 * n + d) ds n)))"
  using assms
proof (induction ds arbitrary: n)
  case (Cons d ds)
  then have "position (B58 ! d) B58 = Some d" and "unat (of_nat d :: u32) = d"
    by (simp_all add: position_nth distinct_B58 length_B58 unat_of_nat)
  with Cons mul_58_digits [of "of_nat d" n] show ?case by simp
qed simp

text \<open>Every accepted text is the spelling of a digit sequence.\<close>

lemma decode_chars_Some:
  "decode_chars big s = Some out \<Longrightarrow>
    \<exists>ds. (\<forall>d \<in> set ds. d < 58) \<and> s = map (\<lambda>d. B58 ! d) ds"
proof (induction s arbitrary: big)
  case (Cons c s)
  from Cons.prems obtain d where d: "position c B58 = Some d" by (auto split: option.splits)
  with Cons.prems have "decode_chars (mul_58 (of_nat d) big) s = Some out" by simp
  from Cons.IH [OF this] obtain ds where "\<forall>d \<in> set ds. d < 58" "s = map (\<lambda>d. B58 ! d) ds"
    by blast
  with position_Some [OF d] show ?case
    by (intro exI [of _ "d # ds"]) (auto simp: length_B58)
qed simp

lemma B58_one: "d < 58 \<Longrightarrow> B58 ! d = of_char CHR ''1'' \<longleftrightarrow> d = 0"
  using nth_eq_iff_index_eq [OF distinct_B58, of d 0] length_B58
  by (simp add: B58_def ascii_def)

lemma leading_zeros:
  fixes xs :: "'a::zero list"
  shows "\<exists>ys. xs = replicate (length (takeWhile (\<lambda>x. x = 0) xs)) 0 @ ys \<and> (ys = [] \<or> hd ys \<noteq> 0)"
  by (induction xs) auto

lemma rev_digits_hd: "2 \<le> B \<Longrightarrow> rev (digits_of B n) = [] \<or> hd (rev (digits_of B n)) \<noteq> 0"
  using last_digit [of B n] by (cases "n = 0") (auto simp: hd_rev)

lemma takeWhile_zeros:
  "ys = [] \<or> hd ys \<noteq> z \<Longrightarrow> takeWhile (\<lambda>x. x = z) (replicate k z @ ys) = replicate k z"
  by (induction k) (cases ys; auto)+

lemma of_nat_digits_byte: "(of_nat d :: byte) = 0 \<longleftrightarrow> d mod 256 = 0"
  by (simp add: word_unat_eq_iff unat_of_nat)

text \<open>The spelling of the number, with one leading \<open>1\<close> for each leading zero byte.\<close>

lemma base58_encode_eq:
  assumes "b = replicate k 0 @ ys" and "ys = [] \<or> hd ys \<noteq> 0"
  shows "base58_encode b
    = map (\<lambda>d. B58 ! d) (replicate k 0 @ rev (digits_of 58 (number 256 (map unat ys))))"
proof -
  let ?n = "number 256 (map unat ys)"
  have n: "number 256 (map unat b) = ?n" using assms(1) by (simp add: number_zeros)
  have "unat (of_nat d :: byte) = d" if "d \<in> set (digits_of 58 ?n)" for d
    using digits_of_less [of 58 d ?n] that by (simp add: unat_of_nat)
  then have "map (\<lambda>d. B58 ! unat d) (rev (encode_digits b))
      = map (\<lambda>d. B58 ! d) (rev (digits_of 58 ?n))"
    unfolding encode_digits_eq n by (simp add: rev_map cong: map_cong)
  moreover have "takeWhile (\<lambda>x. x = 0) b = replicate k 0"
    unfolding assms(1) using assms(2) by (rule takeWhile_zeros)
  moreover have "B58 ! 0 = of_char CHR ''1''" using B58_one [of 0] by simp
  ultimately show ?thesis by (simp add: base58_encode_def)
qed

lemma base58_decode_eq:
  assumes "\<forall>d \<in> set ds. d < 58" and "ds = [] \<or> hd ds \<noteq> 0"
  shows "base58_decode (map (\<lambda>d. B58 ! d) (replicate k 0 @ ds))
    = Some (zeros k @ map of_nat (rev (digits_of 256 (number 58 ds))))"
proof -
  let ?s = "map (\<lambda>d. B58 ! d) (replicate k 0 @ ds)"
  have "decode_chars [] ?s = Some (map of_nat (digits_of 256 (number 58 (replicate k 0 @ ds))))"
  proof -
    have "\<forall>d \<in> set (replicate k 0 @ ds). d < 58" using assms(1) by auto
    from decode_chars_digits [OF this, of 0] show ?thesis
      by (simp only: digits_of_0 list.map number_def)
  qed
  moreover have "takeWhile (\<lambda>c. c = of_char CHR ''1'') ?s = replicate k (of_char CHR ''1'')"
  proof -
    have "map (\<lambda>d. B58 ! d) ds = [] \<or> hd (map (\<lambda>d. B58 ! d) ds) \<noteq> of_char CHR ''1''"
      using assms B58_one by (cases ds) auto
    moreover have "B58 ! 0 = of_char CHR ''1''" using B58_one [of 0] by simp
    ultimately show ?thesis by (simp add: takeWhile_zeros)
  qed
  ultimately show ?thesis by (simp add: base58_decode_def number_zeros rev_map)
qed

lemma base58_bytes:
  assumes "ys = [] \<or> hd ys \<noteq> (0 :: byte)"
  shows "map of_nat (rev (digits_of 256 (number 256 (map unat ys)))) = ys"
proof -
  have "map unat ys = [] \<or> hd (map unat ys) \<noteq> 0"
    using assms by (cases ys) (auto simp: unsigned_eq_0_iff)
  then have "digits_of 256 (number 256 (map unat ys)) = rev (map unat ys)"
    using unat_byte_less by (intro digits_of_number) auto
  then show ?thesis by (simp add: comp_def)
qed

lemma decode_encode: "base58_decode (base58_encode b) = Some b"
proof -
  from leading_zeros [of b] obtain k ys where b: "b = replicate k 0 @ ys" "ys = [] \<or> hd ys \<noteq> 0"
    by blast
  let ?n = "number 256 (map unat ys)"
  have "\<forall>d \<in> set (rev (digits_of 58 ?n)). d < 58" using digits_of_less [of 58] by simp
  from base58_decode_eq [OF this rev_digits_hd] show ?thesis
    using base58_encode_eq [OF b] base58_bytes [OF b(2)] b(1)
    by (simp add: number_digits zeros_def)
qed

lemma encode_decode:
  assumes "base58_decode s = Some b"
  shows "base58_encode b = s"
proof -
  from assms obtain big where "decode_chars [] s = Some big"
    by (auto simp: base58_decode_def split: bind_splits)
  then obtain ds' where ds': "\<forall>d \<in> set ds'. d < 58" "s = map (\<lambda>d. B58 ! d) ds'"
    using decode_chars_Some by blast
  from leading_zeros [of ds'] obtain k ds where ds: "ds' = replicate k 0 @ ds" "ds = [] \<or> hd ds \<noteq> 0"
    by blast
  have lt: "\<forall>d \<in> set ds. d < 58" using ds' ds by auto
  let ?ys = "map of_nat (rev (digits_of 256 (number 58 ds))) :: bytes"
  have b: "b = replicate k 0 @ ?ys"
    using assms base58_decode_eq [OF lt ds(2), of k] ds'(2) ds(1) by (simp add: zeros_def)
  have small: "d < 256" if "d \<in> set (digits_of 256 (number 58 ds))" for d
    using digits_of_less [of 256 d] that by simp
  then have u: "map unat ?ys = rev (digits_of 256 (number 58 ds))"
    unfolding map_map by (intro map_idI) (auto simp: unat_of_nat)
  have "?ys = [] \<or> hd ?ys \<noteq> 0"
  proof (cases "rev (digits_of 256 (number 58 ds))")
    case (Cons d l)
    then have "d \<in> set (rev (digits_of 256 (number 58 ds)))" by simp
    then have "d < 256" using small by (simp only: set_rev)
    moreover have "d \<noteq> 0" using rev_digits_hd [of 256 "number 58 ds"] by (simp add: Cons)
    ultimately show ?thesis by (simp add: Cons of_nat_digits_byte)
  qed simp
  from base58_encode_eq [OF b this, unfolded u] show ?thesis
    using digits_of_number [OF _ lt ds(2)] ds(1) ds'(2) by (simp add: number_digits del: map_append)
qed

text \<open>C31: base58 is a bijection between byte strings and the texts it accepts: every byte string,
  leading zeros included, is read back from its spelling, and every accepted text is the one
  spelling of what it decodes to, so no address has two texts.\<close>

theorem base58_bijective:
  "base58_decode (base58_encode b) = Some b \<and>
   (base58_decode s = Some b \<longleftrightarrow> s = base58_encode b)"
  using decode_encode encode_decode by auto

end
