(* ===== verification/Text.thy ===== *)
theory Text
  imports Prelude
begin

text \<open>
  The part of Rust's \<open>str\<close> the crate uses. A string is its UTF-8 bytes: \<open>from_utf8\<close> is
  \<open>utf8_valid\<close>, \<open>trim\<close> strips the code points with the White_Space property, a slice whose end
  is not on a character boundary panics (\<open>None\<close> in a \<open>run\<close>), and \<open>from_str_radix(_, 16)\<close>
  accepts a leading plus sign, as the standard library documents. Hexadecimal is written the
  way \<open>{:02x}\<close> writes it.
\<close>

section \<open>UTF-8\<close>

definition is_cont :: "byte \<Rightarrow> bool" where
  "is_cont b \<longleftrightarrow> 0x80 \<le> b \<and> b \<le> 0xBF"

text \<open>The length of the well-formed character a byte string starts with; 0 when there is none.\<close>

definition second_ok :: "byte \<Rightarrow> byte \<Rightarrow> bool" where
  "second_ok a b \<longleftrightarrow>
    (if a = 0xE0 then 0xA0 \<le> b \<and> b \<le> 0xBF
     else if a = 0xED then 0x80 \<le> b \<and> b \<le> 0x9F
     else if a = 0xF0 then 0x90 \<le> b \<and> b \<le> 0xBF
     else if a = 0xF4 then 0x80 \<le> b \<and> b \<le> 0x8F
     else is_cont b)"

definition char_len :: "byte \<Rightarrow> nat" where
  "char_len a =
    (if a < 0x80 then 1
     else if 0xC2 \<le> a \<and> a \<le> 0xDF then 2
     else if 0xE0 \<le> a \<and> a \<le> 0xEF then 3
     else if 0xF0 \<le> a \<and> a \<le> 0xF4 then 4
     else 0)"

fun utf8_len :: "bytes \<Rightarrow> nat" where
  "utf8_len [] = 0"
| "utf8_len (a # r) =
    (let n = char_len a
     in if n \<le> 1 then n
        else if n \<le> length (a # r) \<and> second_ok a (hd r) \<and> list_all is_cont (take (n - 2) (tl r))
        then n else 0)"

fun chars_fuel :: "nat \<Rightarrow> bytes \<Rightarrow> bytes list option" where
  "chars_fuel k [] = Some []"
| "chars_fuel 0 (a # r) = None"
| "chars_fuel (Suc k) (a # r) =
    (let n = utf8_len (a # r)
     in if n = 0 then None
        else do { cs \<leftarrow> chars_fuel k (drop n (a # r)); Some (take n (a # r) # cs) })"

text \<open>Every character takes a byte at least, so the length is fuel enough.\<close>

definition chars_of :: "bytes \<Rightarrow> bytes list option" where
  "chars_of b = chars_fuel (length b) b"

definition utf8_valid :: "bytes \<Rightarrow> bool" where
  "utf8_valid b \<longleftrightarrow> chars_of b \<noteq> None"

section \<open>Trimming and slicing\<close>

text \<open>\<open>char::is_whitespace\<close>, on the encoded character.\<close>

definition is_space :: "bytes \<Rightarrow> bool" where
  "is_space c \<longleftrightarrow>
    c \<in> set ([[0x20], [0x09], [0x0A], [0x0B], [0x0C], [0x0D], [0xC2, 0x85], [0xC2, 0xA0],
      [0xE1, 0x9A, 0x80], [0xE2, 0x80, 0xA8], [0xE2, 0x80, 0xA9], [0xE2, 0x80, 0xAF],
      [0xE2, 0x81, 0x9F], [0xE3, 0x80, 0x80]]
      @ map (\<lambda>x. [0xE2, 0x80, x]) [0x80, 0x81, 0x82, 0x83, 0x84, 0x85, 0x86, 0x87, 0x88, 0x89, 0x8A])"

definition str_trim :: "bytes \<Rightarrow> bytes" where
  "str_trim s =
    (case chars_of s of
       None \<Rightarrow> s
     | Some cs \<Rightarrow> concat (rev (dropWhile is_space (rev (dropWhile is_space cs)))))"

definition is_char_boundary :: "nat \<Rightarrow> bytes \<Rightarrow> bool" where
  "is_char_boundary i s \<longleftrightarrow> i = 0 \<or> i = length s \<or> i < length s \<and> \<not> is_cont (s ! i)"

text \<open>\<open>&s[i..j]\<close> panics outside the string and off a boundary.\<close>

definition str_slice :: "nat \<Rightarrow> nat \<Rightarrow> bytes \<Rightarrow> bytes run" where
  "str_slice i j s =
    (if i \<le> j \<and> j \<le> length s \<and> is_char_boundary i s \<and> is_char_boundary j s
     then Some (subs i j s) else None)"

definition split_at_checked :: "nat \<Rightarrow> bytes \<Rightarrow> (bytes \<times> bytes) option" where
  "split_at_checked n s =
    (if n \<le> length s \<and> is_char_boundary n s then Some (take n s, drop n s) else None)"

definition strip_prefix :: "bytes \<Rightarrow> bytes \<Rightarrow> bytes option" where
  "strip_prefix p s = (if take (length p) s = p then Some (drop (length p) s) else None)"

section \<open>Hexadecimal\<close>

definition hex_digit :: "byte \<Rightarrow> nat option" where
  "hex_digit c =
    (if 0x30 \<le> c \<and> c \<le> 0x39 then Some (unat c - 48)
     else if 0x61 \<le> c \<and> c \<le> 0x66 then Some (unat c - 87)
     else if 0x41 \<le> c \<and> c \<le> 0x46 then Some (unat c - 55)
     else None)"

fun radix_digits :: "nat \<Rightarrow> nat \<Rightarrow> bytes \<Rightarrow> nat option" where
  "radix_digits limit n [] = Some n"
| "radix_digits limit n (c # s) =
    (case hex_digit c of
       None \<Rightarrow> None
     | Some d \<Rightarrow> if limit \<le> 16 * n + d then None else radix_digits limit (16 * n + d) s)"

text \<open>\<open>u8::from_str_radix(s, 16).ok()\<close>\<close>

definition hex_u8 :: "bytes \<Rightarrow> byte option" where
  "hex_u8 s =
    (if s = [] then None
     else if length s = 1 \<and> (hd s = 0x2B \<or> hd s = 0x2D) then None
     else map_option of_nat (radix_digits 256 0 (if hd s = 0x2B then tl s else s)))"

definition hex_char :: "nat \<Rightarrow> byte" where
  "hex_char n = (if n < 10 then of_nat (48 + n) else of_nat (87 + n))"

definition hex_byte :: "byte \<Rightarrow> bytes" where
  "hex_byte b = [hex_char (unat b div 16), hex_char (unat b mod 16)]"

definition hex_string :: "bytes \<Rightarrow> bytes" where
  "hex_string b = concat (map hex_byte b)"

section \<open>Lemmas\<close>

lemma char_len_ascii: "a < 0x80 \<Longrightarrow> char_len a = 1"
  by (simp add: char_len_def)

lemma utf8_len_ascii: "a < 0x80 \<Longrightarrow> utf8_len (a # r) = 1"
  by (simp add: char_len_ascii)

lemma chars_fuel_ascii:
  "length s \<le> k \<Longrightarrow> \<forall>a \<in> set s. a < 0x80 \<Longrightarrow> chars_fuel k s = Some (map (\<lambda>a. [a]) s)"
proof (induction s arbitrary: k)
  case (Cons a s)
  then obtain k' where "k = Suc k'" by (cases k) auto
  with Cons show ?case by (simp add: utf8_len_ascii del: utf8_len.simps)
qed simp

lemma chars_of_ascii: "\<forall>a \<in> set s. a < 0x80 \<Longrightarrow> chars_of s = Some (map (\<lambda>a. [a]) s)"
  by (simp add: chars_of_def chars_fuel_ascii)

lemma utf8_valid_ascii: "\<forall>a \<in> set s. a < 0x80 \<Longrightarrow> utf8_valid s"
  by (simp add: utf8_valid_def chars_of_ascii)

lemma str_trim_ascii:
  assumes "\<forall>a \<in> set s. a < 0x80" and "s = [] \<or> \<not> is_space [hd s] \<and> \<not> is_space [last s]"
  shows "str_trim s = s"
proof (cases s)
  case (Cons a r)
  have "dropWhile is_space (map (\<lambda>a. [a]) s) = map (\<lambda>a. [a]) s"
    using assms(2) Cons by simp
  moreover have "dropWhile is_space (rev (map (\<lambda>a. [a]) s)) = rev (map (\<lambda>a. [a]) s)"
  proof -
    have "s \<noteq> []" using Cons by simp
    then obtain ys y where s: "s = ys @ [y]" by (meson rev_exhaust)
    then show ?thesis using assms(2) by simp
  qed
  ultimately show ?thesis
    using assms(1) by (simp add: str_trim_def chars_of_ascii comp_def)
qed (simp add: str_trim_def chars_of_def)

lemma not_cont_ascii: "a < 0x80 \<Longrightarrow> \<not> is_cont a"
  by (meson is_cont_def not_le)

lemma boundary_ascii: "\<forall>a \<in> set s. a < 0x80 \<Longrightarrow> i \<le> length s \<Longrightarrow> is_char_boundary i s"
  by (auto simp: is_char_boundary_def intro!: not_cont_ascii nth_mem)

lemma str_slice_ascii:
  "\<forall>a \<in> set s. a < 0x80 \<Longrightarrow> i \<le> j \<Longrightarrow> j \<le> length s \<Longrightarrow> str_slice i j s = Some (subs i j s)"
  by (simp add: str_slice_def boundary_ascii)

lemma hex_nibbles: "n < 16 \<Longrightarrow> n \<in> set [0..<16]"
  by simp

lemma hex_char_digit: "n < 16 \<Longrightarrow> hex_digit (hex_char n) = Some n"
proof -
  have "\<forall>n \<in> set [0..<16]. hex_digit (hex_char n) = Some n"
    by (simp add: hex_digit_def hex_char_def upt_rec word_le_nat_alt)
  then show "n < 16 \<Longrightarrow> hex_digit (hex_char n) = Some n" by simp
qed

lemma hex_char_plain: "n < 16 \<Longrightarrow> hex_char n < 0x80 \<and> hex_char n \<noteq> 0 \<and> hex_char n \<noteq> 0x2B \<and> \<not> is_space [hex_char n]"
proof -
  have "\<forall>n \<in> set [0..<16]. hex_char n < 0x80 \<and> hex_char n \<noteq> 0 \<and> hex_char n \<noteq> 0x2B \<and> \<not> is_space [hex_char n]"
    by (simp add: hex_char_def upt_rec is_space_def)
  then show "n < 16 \<Longrightarrow> ?thesis" by simp
qed

lemma hex_u8_byte [simp]: "hex_u8 (hex_byte b) = Some b"
proof -
  have n: "unat b div 16 < 16" "unat b mod 16 < 16" using unat_byte_less [of b] by auto
  have "16 * (unat b div 16) + unat b mod 16 = unat b" by simp
  with n show ?thesis
    using hex_char_digit [OF n(1)] hex_char_digit [OF n(2)] hex_char_plain [OF n(1)] unat_byte_less [of b]
    by (simp add: hex_u8_def hex_byte_def)
qed

lemma length_hex_byte [simp]: "length (hex_byte b) = 2"
  by (simp add: hex_byte_def)

lemma length_hex_string [simp]: "length (hex_string b) = 2 * length b"
  by (induction b) (simp_all add: hex_string_def)

lemma hex_string_plain:
  "a \<in> set (hex_string b) \<Longrightarrow> a < 0x80 \<and> a \<noteq> 0 \<and> \<not> is_space [a]"
proof -
  assume "a \<in> set (hex_string b)"
  then obtain x where "a = hex_char (unat (x :: byte) div 16) \<or> a = hex_char (unat x mod 16)"
    by (auto simp: hex_string_def hex_byte_def)
  moreover have "unat x div 16 < 16" "unat x mod 16 < 16" using unat_byte_less [of x] by auto
  ultimately show ?thesis using hex_char_plain by auto
qed

lemma hex_string_append: "hex_string (a @ b) = hex_string a @ hex_string b"
  by (simp add: hex_string_def)

lemma subs_hex_string:
  "i < length b \<Longrightarrow> subs (2 * i) (2 * i + 2) (hex_string b) = hex_byte (b ! i)"
proof -
  assume i: "i < length b"
  then have "b = take i b @ b ! i # drop (Suc i) b" by (simp add: id_take_nth_drop)
  then have "hex_string b = hex_string (take i b) @ hex_byte (b ! i) @ hex_string (drop (Suc i) b)"
    by (metis append_Cons append_Nil concat.simps(2) hex_string_append hex_string_def list.map(2)
        append.assoc)
  moreover have "length (hex_string (take i b)) = 2 * i" using i by simp
  ultimately show ?thesis by (simp add: subs_def)
qed

end
