(* ===== verification/Wire.thy ===== *)
theory Wire
  imports Prelude
begin

text \<open>
  Reading and writing byte frames. Every parser of the crate is a cursor over a slice
  (\<open>Reader\<close> in custody_net.rs, \<open>R\<close> in dkg_net.rs and notes.rs, \<open>Rd\<close> in lightd.rs, the closure
  \<open>take\<close> in compact.rs): its state is what is left of the slice, and a read past the end is
  \<open>None\<close>. A reader is therefore a function from the rest of the input to a value and the new
  rest. The locale \<open>wire_codec\<close> is the contract between an encoder and its reader,
  \<open>canonical_codec\<close> adds that the reader accepts nothing else; both lift to lists.
\<close>

section \<open>Readers\<close>

type_synonym 'a reader = "bytes \<Rightarrow> ('a \<times> bytes) option"

definition rd_take :: "nat \<Rightarrow> bytes reader" where
  "rd_take n b = (if n \<le> length b then Some (take n b, drop n b) else None)"

definition rd_u8 :: "byte reader" where
  "rd_u8 b = (case b of [] \<Rightarrow> None | x # r \<Rightarrow> Some (x, r))"

definition rd_le :: "nat \<Rightarrow> 'a::len word reader" where
  "rd_le n b = do { (s, r) \<leftarrow> rd_take n b; Some (of_nat (le_val s), r) }"

definition rd_be :: "nat \<Rightarrow> 'a::len word reader" where
  "rd_be n b = do { (s, r) \<leftarrow> rd_take n b; Some (of_nat (be_val s), r) }"

text \<open>\<open>for _ in 0..n { out.push(read()?); }\<close>\<close>

fun rd_many :: "'a reader \<Rightarrow> nat \<Rightarrow> 'a list reader" where
  "rd_many get 0 b = Some ([], b)"
| "rd_many get (Suc n) b = do { (x, r) \<leftarrow> get b; (xs, r') \<leftarrow> rd_many get n r; Some (x # xs, r') }"

text \<open>A \<open>u32\<close> length (big-endian, or little-endian) and the bytes; a counted list.\<close>

definition put_bytes :: "bytes \<Rightarrow> bytes" where
  "put_bytes b = be_bytes 4 (length b) @ b"

definition rd_bytes :: "bytes reader" where
  "rd_bytes b = do { (n, r) \<leftarrow> (rd_be 4 :: u32 reader) b; rd_take (unat n) r }"

definition put_bytes_le :: "bytes \<Rightarrow> bytes" where
  "put_bytes_le b = le_bytes 4 (length b) @ b"

definition rd_bytes_le :: "bytes reader" where
  "rd_bytes_le b = do { (n, r) \<leftarrow> (rd_le 4 :: u32 reader) b; rd_take (unat n) r }"

definition put_list :: "('a \<Rightarrow> bytes) \<Rightarrow> 'a list \<Rightarrow> bytes" where
  "put_list put xs = le_bytes 4 (length xs) @ concat (map put xs)"

definition rd_list :: "'a reader \<Rightarrow> 'a list reader" where
  "rd_list get b = do { (n, r) \<leftarrow> (rd_le 4 :: u32 reader) b; rd_many get (unat n) r }"

definition put_list_be :: "('a \<Rightarrow> bytes) \<Rightarrow> 'a list \<Rightarrow> bytes" where
  "put_list_be put xs = be_bytes 4 (length xs) @ concat (map put xs)"

definition rd_list_be :: "'a reader \<Rightarrow> 'a list reader" where
  "rd_list_be get b = do { (n, r) \<leftarrow> (rd_be 4 :: u32 reader) b; rd_many get (unat n) r }"

section \<open>The contract of an encoder and its reader\<close>

locale wire_codec =
  fixes put :: "'a \<Rightarrow> bytes"
    and get :: "'a reader"
    and fits :: "'a \<Rightarrow> bool"
  assumes get_put: "fits x \<Longrightarrow> get (put x @ r) = Some (x, r)"
begin

lemma get_put_end: "fits x \<Longrightarrow> get (put x) = Some (x, [])"
  using get_put [of x "[]"] by simp

lemma put_inject: "fits x \<Longrightarrow> fits y \<Longrightarrow> put x @ r = put y @ s \<Longrightarrow> x = y \<and> r = s"
  by (metis get_put option.inject prod.inject)

lemma many_put:
  "list_all fits xs \<Longrightarrow> rd_many get (length xs) (concat (map put xs) @ r) = Some (xs, r)"
  by (induction xs) (simp_all add: get_put)

end

locale canonical_codec = wire_codec +
  assumes get_canonical: "get b = Some (x, r) \<Longrightarrow> fits x \<and> b = put x @ r"
begin

lemma get_iff: "get b = Some (x, r) \<longleftrightarrow> fits x \<and> b = put x @ r"
  using get_canonical get_put by blast

lemma many_canonical:
  "rd_many get n b = Some (xs, r) \<Longrightarrow>
    length xs = n \<and> list_all fits xs \<and> b = concat (map put xs) @ r"
proof (induction n arbitrary: b xs)
  case (Suc n)
  from Suc.prems obtain x r' xs' where "get b = Some (x, r')"
    and "rd_many get n r' = Some (xs', r)" and "xs = x # xs'"
    by (auto split: bind_splits)
  with Suc.IH [of r' xs'] get_canonical [of b x r'] show ?case by simp
qed simp

end

section \<open>The codecs of the primitive fields\<close>

lemma rd_take_append [simp]: "length a = n \<Longrightarrow> rd_take n (a @ r) = Some (a, r)"
  by (simp add: rd_take_def)

lemma rd_take_Some: "rd_take n b = Some (s, r) \<longleftrightarrow> length s = n \<and> b = s @ r"
  by (auto simp: rd_take_def)

lemma rd_u8_Cons [simp]: "rd_u8 (x # r) = Some (x, r)"
  by (simp add: rd_u8_def)

lemma rd_u8_Some: "rd_u8 b = Some (x, r) \<longleftrightarrow> b = x # r"
  by (auto simp: rd_u8_def split: list.splits)

lemma rd_le_append:
  fixes w :: "'a::len word"
  assumes "LENGTH('a) = 8 * n"
  shows "rd_le n (le_bytes n (unat w) @ r) = Some (w, r)"
  using of_nat_le_val [OF assms, of w] by (simp add: rd_le_def)

lemma rd_le_canonical:
  fixes w :: "'a::len word"
  assumes "LENGTH('a) = 8 * n" and "rd_le n b = Some (w, r)"
  shows "b = le_bytes n (unat w) @ r"
proof -
  from assms(2) obtain s where s: "length s = n" "b = s @ r" "w = of_nat (le_val s)"
    by (auto simp: rd_le_def rd_take_Some split: bind_splits)
  with le_bytes_unat_of_nat [where 'a='a and b=s] assms(1) show ?thesis by simp
qed

lemma rd_be_append:
  fixes w :: "'a::len word"
  assumes "LENGTH('a) = 8 * n"
  shows "rd_be n (be_bytes n (unat w) @ r) = Some (w, r)"
  using of_nat_be_val [OF assms, of w] by (simp add: rd_be_def)

lemma rd_be_canonical:
  fixes w :: "'a::len word"
  assumes "LENGTH('a) = 8 * n" and "rd_be n b = Some (w, r)"
  shows "b = be_bytes n (unat w) @ r"
proof -
  from assms(2) obtain s where s: "length s = n" "b = s @ r" "w = of_nat (be_val s)"
    by (auto simp: rd_be_def rd_take_Some split: bind_splits)
  with be_bytes_unat_of_nat [where 'a='a and b=s] assms(1) show ?thesis by simp
qed

interpretation array_codec: canonical_codec "\<lambda>b. b" "rd_take n" "is_array n"
  by unfold_locales (auto simp: is_array_def rd_take_Some)

interpretation u8_codec: canonical_codec "\<lambda>x. [x]" rd_u8 "\<lambda>_. True"
  by unfold_locales (auto simp: rd_u8_Some)

interpretation le16: canonical_codec "\<lambda>w :: u16. le_bytes 2 (unat w)" "rd_le 2" "\<lambda>_. True"
  by unfold_locales (auto intro: rd_le_append rd_le_canonical simp del: le_bytes_numeral)

interpretation le32: canonical_codec "\<lambda>w :: u32. le_bytes 4 (unat w)" "rd_le 4" "\<lambda>_. True"
  by unfold_locales (auto intro: rd_le_append rd_le_canonical simp del: le_bytes_numeral)

interpretation le64: canonical_codec "\<lambda>w :: u64. le_bytes 8 (unat w)" "rd_le 8" "\<lambda>_. True"
  by unfold_locales (auto intro: rd_le_append rd_le_canonical simp del: le_bytes_numeral)

interpretation be32: canonical_codec "\<lambda>w :: u32. be_bytes 4 (unat w)" "rd_be 4" "\<lambda>_. True"
  by unfold_locales (auto intro: rd_be_append rd_be_canonical)

interpretation be64: canonical_codec "\<lambda>w :: u64. be_bytes 8 (unat w)" "rd_be 8" "\<lambda>_. True"
  by unfold_locales (auto intro: rd_be_append rd_be_canonical)

text \<open>A length below \<open>2 ^ 32\<close> is the value of its own \<open>u32\<close>.\<close>

lemma rd_le32_length:
  assumes "n < 2 ^ 32"
  shows "(rd_le 4 :: u32 reader) (le_bytes 4 n @ r) = Some (of_nat n, r)"
  using le32.get_put [of "of_nat n" r] assms
  by (simp add: unat_of_nat del: le_bytes_numeral)

lemma rd_be32_length:
  assumes "n < 2 ^ 32"
  shows "(rd_be 4 :: u32 reader) (be_bytes 4 n @ r) = Some (of_nat n, r)"
  using be32.get_put [of "of_nat n" r] assms by (simp add: unat_of_nat)

lemma unat_of_nat_u32: "n < 2 ^ 32 \<Longrightarrow> unat (of_nat n :: u32) = n"
  by (simp add: unat_of_nat)

interpretation bytes_codec: canonical_codec put_bytes rd_bytes "\<lambda>b. length b < 2 ^ 32"
proof
  fix x r :: bytes
  assume "length x < 2 ^ 32"
  then show "rd_bytes (put_bytes x @ r) = Some (x, r)"
    by (simp add: rd_bytes_def put_bytes_def rd_be32_length unat_of_nat_u32
        del: One_nat_def)
next
  fix b x r :: bytes
  assume "rd_bytes b = Some (x, r)"
  then obtain n r' where n: "(rd_be 4 :: u32 reader) b = Some (n, r')"
    and x: "length x = unat n" "r' = x @ r"
    by (auto simp: rd_bytes_def rd_take_Some split: bind_splits)
  from n have "b = be_bytes 4 (unat n) @ r'" by (simp add: be32.get_iff)
  with x show "length x < 2 ^ 32 \<and> b = put_bytes x @ r"
    using unsigned_less [of n] by (simp add: put_bytes_def)
qed

interpretation bytes_le_codec: canonical_codec put_bytes_le rd_bytes_le "\<lambda>b. length b < 2 ^ 32"
proof
  fix x r :: bytes
  assume "length x < 2 ^ 32"
  then show "rd_bytes_le (put_bytes_le x @ r) = Some (x, r)"
    by (simp add: rd_bytes_le_def put_bytes_le_def rd_le32_length unat_of_nat_u32
        del: le_bytes_numeral)
next
  fix b x r :: bytes
  assume "rd_bytes_le b = Some (x, r)"
  then obtain n r' where n: "(rd_le 4 :: u32 reader) b = Some (n, r')"
    and x: "length x = unat n" "r' = x @ r"
    by (auto simp: rd_bytes_le_def rd_take_Some split: bind_splits)
  from n have "b = le_bytes 4 (unat n) @ r'" by (simp add: le32.get_iff del: le_bytes_numeral)
  with x show "length x < 2 ^ 32 \<and> b = put_bytes_le x @ r"
    using unsigned_less [of n] by (simp add: put_bytes_le_def del: le_bytes_numeral)
qed

section \<open>Counted lists\<close>

context wire_codec begin

lemma list_put:
  assumes "length xs < 2 ^ 32" and "list_all fits xs"
  shows "rd_list get (put_list put xs @ r) = Some (xs, r)"
  using assms many_put [of xs r]
  by (simp add: rd_list_def put_list_def rd_le32_length unat_of_nat_u32 del: le_bytes_numeral)

lemma list_be_put:
  assumes "length xs < 2 ^ 32" and "list_all fits xs"
  shows "rd_list_be get (put_list_be put xs @ r) = Some (xs, r)"
  using assms many_put [of xs r]
  by (simp add: rd_list_be_def put_list_be_def rd_be32_length unat_of_nat_u32)

lemma list_codec:
  "wire_codec (put_list put) (rd_list get) (\<lambda>xs. length xs < 2 ^ 32 \<and> list_all fits xs)"
  by unfold_locales (simp add: list_put)

lemma list_be_codec:
  "wire_codec (put_list_be put) (rd_list_be get) (\<lambda>xs. length xs < 2 ^ 32 \<and> list_all fits xs)"
  by unfold_locales (simp add: list_be_put)

end

context canonical_codec begin

lemma list_canonical_codec:
  "canonical_codec (put_list put) (rd_list get) (\<lambda>xs. length xs < 2 ^ 32 \<and> list_all fits xs)"
proof (intro canonical_codec.intro canonical_codec_axioms.intro list_codec)
  fix b xs r
  assume "rd_list get b = Some (xs, r)"
  then obtain n r' where n: "(rd_le 4 :: u32 reader) b = Some (n, r')"
    and m: "rd_many get (unat n) r' = Some (xs, r)"
    by (auto simp: rd_list_def split: bind_splits)
  from n have "b = le_bytes 4 (unat n) @ r'" by (simp add: le32.get_iff del: le_bytes_numeral)
  with many_canonical [OF m]
  show "(length xs < 2 ^ 32 \<and> list_all fits xs) \<and> b = put_list put xs @ r"
    using unsigned_less [of n] by (simp add: put_list_def del: le_bytes_numeral)
qed

end

end
