(* ===== verification/Memo.thy ===== *)
theory Memo
  imports Account Text Wire
begin

text \<open>
  memo.rs: the memo field and the five instructions it can carry: a deposit (\<open>ZEC\<close>, binary or
  text), an anchor (\<open>ZEA\<close>), a publication (\<open>ZEP\<close>), a forced intent (\<open>ZEF\<close>) and an application
  payment (\<open>ZEB\<close>). Parsers that can panic return in \<open>run\<close>. The lemmas characterise what each
  parser accepts to the byte, and the properties at the end are the round trips, the
  disjointness of the namespaces and the cost of slicing text by bytes.
\<close>

section \<open>Layout\<close>

definition MEMO_TAG :: bytes where "MEMO_TAG = ascii ''ZEC''"
definition MEMO_VERSION :: byte where "MEMO_VERSION = 1"
definition MEMO_LEN :: nat where "MEMO_LEN = 3 + 1 + 32"
definition MEMO_FIELD :: nat where "MEMO_FIELD = 512"
definition ANCHOR_TAG :: bytes where "ANCHOR_TAG = ascii ''ZEA''"
definition ANCHOR_LEN :: nat where "ANCHOR_LEN = 3 + 1 + 4 + 8 + 32"
definition PUBLISH_TAG :: bytes where "PUBLISH_TAG = ascii ''ZEP''"
definition PUBLISH_LEN :: nat where "PUBLISH_LEN = 3 + 1 + 32"
definition FORCED_TAG :: bytes where "FORCED_TAG = ascii ''ZEF''"
definition FORCED_HEADER :: nat where "FORCED_HEADER = 3 + 1 + 2"
definition FORCED_MAX :: nat where "FORCED_MAX = MEMO_FIELD - FORCED_HEADER"
definition APP_PAYMENT_TAG :: bytes where "APP_PAYMENT_TAG = ascii ''ZEB''"
definition APP_PAYMENT_VERSION :: byte where "APP_PAYMENT_VERSION = 1"
definition APP_PAYMENT_LEN :: nat where "APP_PAYMENT_LEN = 3 + 1 + 1 + 32 + 32"

lemmas memo_consts = MEMO_TAG_def MEMO_VERSION_def MEMO_LEN_def MEMO_FIELD_def ANCHOR_TAG_def
  ANCHOR_LEN_def PUBLISH_TAG_def PUBLISH_LEN_def FORCED_TAG_def FORCED_HEADER_def FORCED_MAX_def
  APP_PAYMENT_TAG_def APP_PAYMENT_VERSION_def APP_PAYMENT_LEN_def ascii_def

text \<open>A zeroed field \<open>[0u8; MEMO_FIELD]\<close> with an instruction copied to its front.\<close>

definition memo_field :: "bytes \<Rightarrow> bytes" where
  "memo_field b = b @ zeros (MEMO_FIELD - length b)"

section \<open>Application payments\<close>

datatype purpose = Purpose (purpose_code: byte)

definition purpose_from_code :: "byte \<Rightarrow> purpose option" where
  "purpose_from_code c = (if c \<noteq> 0 then Some (Purpose c) else None)"

record app_payment_memo =
  am_purpose :: purpose
  am_reference :: bytes
  am_recipient :: account_id

datatype app_payment_error =
  NotAppPayment | AppUnknownVersion byte | InvalidPurpose byte | AppMalformed | AppTrailingBytes

definition has_app_payment_tag :: "bytes \<Rightarrow> bool" where
  "has_app_payment_tag m \<longleftrightarrow> 3 \<le> length m \<and> take 3 m = APP_PAYMENT_TAG"

definition encode_app_payment :: "app_payment_memo \<Rightarrow> app_payment_error + bytes" where
  "encode_app_payment p =
    (if am_reference p = zeros 32 \<or> am_recipient p = zeros 32 then Err AppMalformed
     else Ok (memo_field (APP_PAYMENT_TAG @ [APP_PAYMENT_VERSION, purpose_code (am_purpose p)]
       @ am_reference p @ am_recipient p)))"

definition decode_app_payment :: "bytes \<Rightarrow> app_payment_error + app_payment_memo" where
  "decode_app_payment m =
    (if \<not> has_app_payment_tag m then Err NotAppPayment
     else if length m < APP_PAYMENT_LEN then Err AppMalformed
     else if m ! 3 \<noteq> APP_PAYMENT_VERSION then Err (AppUnknownVersion (m ! 3))
     else and_then (ok_or (purpose_from_code (m ! 4)) (InvalidPurpose (m ! 4))) (\<lambda>purpose.
       if \<not> all_zero (drop APP_PAYMENT_LEN m) then Err AppTrailingBytes
       else let reference = subs 5 37 m; recipient = subs 37 APP_PAYMENT_LEN m
         in if reference = zeros 32 \<or> recipient = zeros 32 then Err AppMalformed
            else Ok \<lparr> am_purpose = purpose, am_reference = reference, am_recipient = recipient \<rparr>))"

section \<open>Forced intents\<close>

definition encode_forced :: "bytes \<Rightarrow> bytes option" where
  "encode_forced frame =
    (if frame = [] \<or> FORCED_MAX < length frame then None
     else Some (memo_field (FORCED_TAG @ [MEMO_VERSION] @ be_bytes 2 (length frame) @ frame)))"

definition forced_frame :: "bytes \<Rightarrow> bytes option" where
  "forced_frame m =
    (if length m < FORCED_HEADER \<or> take 3 m \<noteq> FORCED_TAG \<or> m ! 3 \<noteq> MEMO_VERSION then None
     else let len = be_val (subs 4 6 m)
       in if len = 0 \<or> length m < FORCED_HEADER + len then None
          else if \<not> all_zero (drop (FORCED_HEADER + len) m) then None
          else Some (subs FORCED_HEADER (FORCED_HEADER + len) m))"

definition forced_account :: "(bytes \<Rightarrow> bytes) \<Rightarrow> bytes \<Rightarrow> account_id option" where
  "forced_account sha256 frame =
    (if length frame < 32 + 8 + 1 + 32 then None
     else case scheme_from_tag (frame ! 40) of
       None \<Rightarrow> None
     | Some s \<Rightarrow> if s = Ed25519 \<or> s = Ed25519Message
         then Some (account_of sha256 s (subs 41 73 frame)) else None)"

section \<open>Anchors and publications\<close>

definition is_anchor :: "bytes \<Rightarrow> bool" where
  "is_anchor m \<longleftrightarrow> ANCHOR_LEN \<le> length m \<and> take 3 m = ANCHOR_TAG \<and> m ! 3 = MEMO_VERSION
    \<and> all_zero (drop ANCHOR_LEN m)"

definition encode_publication :: "bytes \<Rightarrow> bytes" where
  "encode_publication digest = memo_field (PUBLISH_TAG @ [MEMO_VERSION] @ digest)"

definition publication :: "bytes \<Rightarrow> bytes option" where
  "publication m =
    (if length m < PUBLISH_LEN \<or> take 3 m \<noteq> PUBLISH_TAG \<or> m ! 3 \<noteq> MEMO_VERSION
        \<or> \<not> all_zero (drop PUBLISH_LEN m)
     then None else Some (subs 4 PUBLISH_LEN m))"

definition is_publication :: "bytes \<Rightarrow> bool" where
  "is_publication m \<longleftrightarrow> publication m \<noteq> None"

section \<open>Deposits\<close>

datatype memo_error = NotADeposit | UnknownVersion byte | Malformed | TrailingBytes

definition encode :: "account_id \<Rightarrow> bytes" where
  "encode account = memo_field (MEMO_TAG @ [MEMO_VERSION] @ account)"

definition encode_text :: "account_id \<Rightarrow> bytes" where
  "encode_text account = MEMO_TAG @ [0x30 + MEMO_VERSION] @ ascii '':'' @ hex_string account"

text \<open>The loop over \<open>out.iter_mut().enumerate()\<close>: slice two bytes of the text (which panics off a
  character boundary), parse them, go on.\<close>

fun decode_pairs :: "bytes \<Rightarrow> nat list \<Rightarrow> (memo_error + bytes) run" where
  "decode_pairs hex [] = Some (Ok [])"
| "decode_pairs hex (i # is) = do {
     pair \<leftarrow> str_slice (i * 2) (i * 2 + 2) hex;
     case hex_u8 pair of
       None \<Rightarrow> Some (Err Malformed)
     | Some b \<Rightarrow> do { r \<leftarrow> decode_pairs hex is; Some (and_then r (\<lambda>out. Ok (b # out))) }
   }"

definition decode_text :: "bytes \<Rightarrow> (memo_error + account_id) run" where
  "decode_text memo =
    (case strip_prefix MEMO_TAG (str_trim memo) of
       None \<Rightarrow> Some (Err NotADeposit)
     | Some rest \<Rightarrow>
       (case split_at_checked 1 rest of
          None \<Rightarrow> Some (Err NotADeposit)
        | Some (v, hex) \<Rightarrow>
          let d = hd v; version = d - 0x30
          in if \<not> (0x30 \<le> d \<and> d \<le> 0x39) then Some (Err NotADeposit)
             else if version \<noteq> MEMO_VERSION then Some (Err (UnknownVersion version))
             else case strip_prefix (ascii '':'') hex of
               None \<Rightarrow> Some (Err Malformed)
             | Some hex \<Rightarrow>
               if length hex \<noteq> 64 then Some (Err Malformed) else decode_pairs hex [0..<32]))"

definition decode :: "bytes \<Rightarrow> (memo_error + account_id) run" where
  "decode m =
    (if 5 \<le> length m \<and> take 5 m = ascii ''ZEC1:'' then
       let text = takeWhile (\<lambda>b. b \<noteq> 0) m; pad = drop (length text) m
       in if \<not> utf8_valid text then Some (Err Malformed)
          else if \<not> all_zero pad then Some (Err TrailingBytes)
          else decode_text text
     else if length m < MEMO_LEN \<or> take 3 m \<noteq> MEMO_TAG then Some (Err NotADeposit)
     else if m ! 3 \<noteq> MEMO_VERSION then Some (Err (UnknownVersion (m ! 3)))
     else if \<not> all_zero (drop MEMO_LEN m) then Some (Err TrailingBytes)
     else Some (Ok (subs 4 MEMO_LEN m)))"

definition TOPUP_ACCOUNT :: account_id where
  "TOPUP_ACCOUNT = zeros 32"

definition is_topup :: "bytes \<Rightarrow> bool run" where
  "is_topup m = do {
     r \<leftarrow> decode m;
     Some (case r of Inl _ \<Rightarrow> False | Inr a \<Rightarrow> a = TOPUP_ACCOUNT)
   }"

section \<open>What the parsers accept\<close>

lemma drop_zero_iff: "n \<le> length m \<Longrightarrow> all_zero (drop n m) \<longleftrightarrow> (\<exists>k. m = take n m @ zeros k)"
proof
  assume n: "n \<le> length m" and "all_zero (drop n m)"
  then have "m = take n m @ zeros (length m - n)"
    by (metis all_zero_eq append_take_drop_id length_drop)
  then show "\<exists>k. m = take n m @ zeros k" by blast
next
  assume n: "n \<le> length m" and "\<exists>k. m = take n m @ zeros k"
  then obtain k where "m = take n m @ zeros k" by blast
  then have "drop n m = zeros k" using n
    by (metis append_eq_conv_conj length_take min.absorb2)
  then show "all_zero (drop n m)" by simp
qed

text \<open>A tagged, versioned instruction of a fixed length, zero padded.\<close>

lemma tagged_iff:
  assumes "length tag = 3"
  shows "4 + n \<le> length m \<and> take 3 m = tag \<and> m ! 3 = v \<and> all_zero (drop (4 + n) m)
      \<longleftrightarrow> (\<exists>b k. length b = n \<and> m = tag @ [v] @ b @ zeros k)"
proof
  assume l: "4 + n \<le> length m \<and> take 3 m = tag \<and> m ! 3 = v \<and> all_zero (drop (4 + n) m)"
  then have "drop (4 + n) m = zeros (length m - (4 + n))" by (metis all_zero_eq length_drop)
  moreover have "drop 4 m = take n (drop 4 m) @ drop (4 + n) m"
    by (simp add: add.commute append_take_drop_id flip: drop_drop)
  moreover have "m = take 3 m @ m ! 3 # drop 4 m" using l id_take_nth_drop [of 3 m] by simp
  ultimately have "m = tag @ [v] @ take n (drop 4 m) @ zeros (length m - (4 + n))" using l by simp
  moreover have "length (take n (drop 4 m)) = n" using l by auto
  ultimately show "\<exists>b k. length b = n \<and> m = tag @ [v] @ b @ zeros k" by blast
next
  assume "\<exists>b k. length b = n \<and> m = tag @ [v] @ b @ zeros k"
  then show "4 + n \<le> length m \<and> take 3 m = tag \<and> m ! 3 = v \<and> all_zero (drop (4 + n) m)"
    using assms by (auto simp: nth_append)
qed

lemma length_tags [simp]: "length MEMO_TAG = 3" "length PUBLISH_TAG = 3" "length FORCED_TAG = 3"
  "length ANCHOR_TAG = 3" "length APP_PAYMENT_TAG = 3"
  by (simp_all add: memo_consts)

lemma tags_differ: "distinct [MEMO_TAG, ANCHOR_TAG, PUBLISH_TAG, FORCED_TAG, APP_PAYMENT_TAG]"
  by (simp add: memo_consts)

lemma subs_tagged:
  "length tag = 3 \<Longrightarrow> length b = n \<Longrightarrow> subs 4 (4 + n) (tag @ v # b @ r) = b"
  by (simp add: subs_def)

lemma publication_iff:
  "publication m = Some d \<longleftrightarrow>
    length d = 32 \<and> (\<exists>k. m = PUBLISH_TAG @ [MEMO_VERSION] @ d @ zeros k)"
proof -
  have L: "PUBLISH_LEN = 4 + 32" by (simp add: PUBLISH_LEN_def)
  have "publication m = Some d \<longleftrightarrow> (4 + 32 \<le> length m \<and> take 3 m = PUBLISH_TAG
      \<and> m ! 3 = MEMO_VERSION \<and> all_zero (drop (4 + 32) m)) \<and> d = subs 4 (4 + 32) m"
    unfolding publication_def L by auto
  also have "\<dots> \<longleftrightarrow> (\<exists>b k. length b = 32 \<and> m = PUBLISH_TAG @ [MEMO_VERSION] @ b @ zeros k)
      \<and> d = subs 4 (4 + 32) m"
    by (simp only: tagged_iff length_tags)
  also have "\<dots> \<longleftrightarrow> length d = 32 \<and> (\<exists>k. m = PUBLISH_TAG @ [MEMO_VERSION] @ d @ zeros k)"
    using subs_tagged [OF length_tags(2), where n = 32] by auto
  finally show ?thesis .
qed

lemma binary_deposit_iff:
  assumes "take 5 m \<noteq> ascii ''ZEC1:''"
  shows "decode m = Some (Ok a) \<longleftrightarrow>
    length a = 32 \<and> (\<exists>k. m = MEMO_TAG @ [MEMO_VERSION] @ a @ zeros k)"
proof -
  have L: "MEMO_LEN = 4 + 32" by (simp add: MEMO_LEN_def)
  have "decode m = Some (Ok a) \<longleftrightarrow> (4 + 32 \<le> length m \<and> take 3 m = MEMO_TAG
      \<and> m ! 3 = MEMO_VERSION \<and> all_zero (drop (4 + 32) m)) \<and> a = subs 4 (4 + 32) m"
    unfolding decode_def L using assms by auto
  also have "\<dots> \<longleftrightarrow> (\<exists>b k. length b = 32 \<and> m = MEMO_TAG @ [MEMO_VERSION] @ b @ zeros k)
      \<and> a = subs 4 (4 + 32) m"
    by (simp only: tagged_iff length_tags)
  also have "\<dots> \<longleftrightarrow> length a = 32 \<and> (\<exists>k. m = MEMO_TAG @ [MEMO_VERSION] @ a @ zeros k)"
    using subs_tagged [OF length_tags(1), where n = 32] by auto
  finally show ?thesis .
qed

lemma app_payment_iff:
  "decode_app_payment m = Ok p \<longleftrightarrow>
    purpose_code (am_purpose p) \<noteq> 0 \<and>
    length (am_reference p) = 32 \<and> am_reference p \<noteq> zeros 32 \<and>
    length (am_recipient p) = 32 \<and> am_recipient p \<noteq> zeros 32 \<and>
    (\<exists>k. m = APP_PAYMENT_TAG @ [APP_PAYMENT_VERSION, purpose_code (am_purpose p)]
      @ am_reference p @ am_recipient p @ zeros k)" (is "?l \<longleftrightarrow> ?r")
proof
  assume l: ?l
  then have c: "69 \<le> length m" "take 3 m = APP_PAYMENT_TAG" "m ! 3 = APP_PAYMENT_VERSION"
      "all_zero (drop 69 m)" "purpose_from_code (m ! 4) = Some (am_purpose p)"
    and r: "am_reference p = subs 5 37 m" "am_recipient p = subs 37 69 m"
      "am_reference p \<noteq> zeros 32" "am_recipient p \<noteq> zeros 32"
    by (auto simp: decode_app_payment_def has_app_payment_tag_def APP_PAYMENT_LEN_def Let_def
        result_simps split: if_splits)
  from c have "\<exists>b k. length b = 65 \<and> m = APP_PAYMENT_TAG @ [APP_PAYMENT_VERSION] @ b @ zeros k"
    using tagged_iff [of APP_PAYMENT_TAG 65 m APP_PAYMENT_VERSION] by simp
  then obtain b k where b: "length b = 65" "m = APP_PAYMENT_TAG @ [APP_PAYMENT_VERSION] @ b @ zeros k"
    by blast
  from b have "b = b ! 0 # take 32 (drop 1 b) @ drop 33 b"
    by (metis append_take_drop_id drop_drop Cons_nth_drop_Suc One_nat_def drop0 length_greater_0_conv
        list.size(3) numeral_plus_one semiring_norm(5) add.commute zero_neq_numeral)
  moreover have "b ! 0 = m ! 4" "take 32 (drop 1 b) = am_reference p" "drop 33 b = am_recipient p"
    using b r by (simp_all add: nth_append subs_def)
  moreover have "m ! 4 = purpose_code (am_purpose p)" "m ! 4 \<noteq> 0"
    using c(5) by (auto simp: purpose_from_code_def split: if_splits) (metis purpose.sel)
  ultimately have "b = purpose_code (am_purpose p) # am_reference p @ am_recipient p"
    and "purpose_code (am_purpose p) \<noteq> 0" by simp_all
  moreover have "length (am_reference p) = 32" "length (am_recipient p) = 32"
    using r(1,2) c(1) by simp_all
  ultimately show ?r using b(2) r(3,4) by auto
next
  assume ?r
  then show ?l
    by (auto simp: decode_app_payment_def has_app_payment_tag_def APP_PAYMENT_LEN_def Let_def
        purpose_from_code_def subs_def nth_append)
qed

lemma forced_frame_iff:
  "forced_frame m = Some f \<longleftrightarrow> f \<noteq> [] \<and> length f < 2 ^ 16 \<and>
    (\<exists>k. m = FORCED_TAG @ [MEMO_VERSION] @ be_bytes 2 (length f) @ f @ zeros k)" (is "?l \<longleftrightarrow> ?r")
proof
  assume l: ?l
  define n where "n = be_val (subs 4 6 m)"
  from l have c: "6 \<le> length m" "take 3 m = FORCED_TAG" "m ! 3 = MEMO_VERSION" "n \<noteq> 0"
      "6 + n \<le> length m" "all_zero (drop (6 + n) m)" "f = subs 6 (6 + n) m"
    by (auto simp: forced_frame_def FORCED_HEADER_def Let_def n_def not_less split: if_splits)
  have len: "length f = n" using c by simp
  have "length (subs 4 6 m) = 2" using c(1) by simp
  then have n: "be_bytes 2 n = subs 4 6 m" and "n < 256 ^ 2"
    using be_bytes_be_val [of "subs 4 6 m"] be_val_less [of "subs 4 6 m"] by (simp_all add: n_def)
  have "m = take 3 m @ m ! 3 # drop 4 m" using c(1) id_take_nth_drop [of 3 m] by simp
  moreover have "drop 4 m = subs 4 6 m @ drop 6 m"
    using append_take_drop_id [of 2 "drop 4 m"] by (simp add: subs_def)
  moreover have "drop 6 m = f @ drop (6 + n) m"
    using append_take_drop_id [of n "drop 6 m"] c(7) by (simp add: subs_def add.commute)
  moreover have "drop (6 + n) m = zeros (length m - (6 + n))"
    using c(6) all_zero_eq by (metis length_drop)
  ultimately have "m = FORCED_TAG @ [MEMO_VERSION] @ be_bytes 2 (length f) @ f @ zeros (length m - (6 + n))"
    unfolding len n using c(2,3) by simp
  moreover have "f \<noteq> []" using len c(4) by auto
  ultimately show ?r using len \<open>n < 256 ^ 2\<close> by auto
next
  assume ?r
  then obtain k where f: "f \<noteq> []" "length f < 65536"
    and m: "m = FORCED_TAG @ [MEMO_VERSION] @ be_bytes 2 (length f) @ f @ zeros k" by auto
  have "subs 4 6 m = be_bytes 2 (length f)" using m by (simp add: subs_def)
  then have "be_val (subs 4 6 m) = length f" using f by (simp add: be_val_be_bytes)
  moreover have "drop (6 + length f) m = zeros k"
  proof -
    have "m = (FORCED_TAG @ [MEMO_VERSION] @ be_bytes 2 (length f) @ f) @ zeros k" using m by simp
    moreover have "6 + length f = length (FORCED_TAG @ [MEMO_VERSION] @ be_bytes 2 (length f) @ f)"
      by simp
    ultimately show ?thesis by (metis append_eq_conv_conj)
  qed
  ultimately show ?l
    using f m by (simp add: forced_frame_def FORCED_HEADER_def Let_def nth_append subs_def)
qed

section \<open>The text form\<close>

lemma decode_pairs_hex:
  assumes "\<forall>i \<in> set is. i < length a"
  shows "decode_pairs (hex_string a) is = Some (Ok (map (\<lambda>i. a ! i) is))"
  using assms
proof (induction "is")
  case (Cons i "is")
  have "\<forall>c \<in> set (hex_string a). c < 0x80" using hex_string_plain by blast
  then have "str_slice (i * 2) (i * 2 + 2) (hex_string a) = Some (hex_byte (a ! i))"
    using Cons.prems subs_hex_string [of i a] by (simp add: str_slice_ascii mult.commute)
  with Cons show ?case by simp
qed simp

lemma text_plain: "c \<in> set (encode_text a) \<Longrightarrow> c < 0x80 \<and> c \<noteq> 0 \<and> \<not> is_space [c]"
proof -
  assume "c \<in> set (encode_text a)"
  then have "c \<in> {0x5A, 0x45, 0x43, 0x31, 0x3A} \<or> c \<in> set (hex_string a)"
    by (auto simp: encode_text_def memo_consts)
  then show ?thesis using hex_string_plain [of c a] by (auto simp: is_space_def)
qed

lemma decode_text_encode:
  assumes "length a = 32"
  shows "decode_text (encode_text a) = Some (Ok a)"
proof -
  let ?t = "encode_text a"
  have t: "?t = MEMO_TAG @ 0x31 # 0x3A # hex_string a"
    by (simp add: encode_text_def memo_consts)
  then have "?t \<noteq> []" by (simp add: memo_consts)
  then have "\<not> is_space [hd ?t] \<and> \<not> is_space [last ?t]"
    using text_plain [of "hd ?t" a] text_plain [of "last ?t" a] by auto
  then have trim: "str_trim ?t = ?t"
    using text_plain [of _ a] by (intro str_trim_ascii) blast+
  have strip: "strip_prefix MEMO_TAG ?t = Some (0x31 # 0x3A # hex_string a)"
    by (simp add: t strip_prefix_def)
  have split: "split_at_checked 1 (0x31 # 0x3A # hex_string a) = Some ([0x31], 0x3A # hex_string a)"
    by (simp add: split_at_checked_def is_char_boundary_def is_cont_def)
  have "decode_pairs (hex_string a) [0..<32] = Some (Ok (map (\<lambda>i. a ! i) [0..<32]))"
    using assms by (intro decode_pairs_hex) auto
  also have "map (\<lambda>i. a ! i) [0..<32] = a" using assms by (metis map_nth)
  finally show ?thesis
    using assms unfolding decode_text_def trim strip
    by (simp add: split[simplified] MEMO_VERSION_def strip_prefix_def ascii_def)
qed

section \<open>Properties\<close>

lemma memo_field_zeros: "\<exists>k. memo_field b = b @ zeros k"
  by (auto simp: memo_field_def)

lemma decode_encode_memo: "length a = 32 \<Longrightarrow> decode (MEMO_TAG @ [MEMO_VERSION] @ a @ zeros k) = Some (Ok a)"
  by (subst binary_deposit_iff) (auto simp: memo_consts)

lemma takeWhile_text: "takeWhile (\<lambda>b. b \<noteq> 0) (encode_text a @ zeros k) = encode_text a"
proof -
  have "takeWhile (\<lambda>b. b \<noteq> 0) (zeros k) = []" by (cases k) (simp_all add: zeros_def)
  then show ?thesis using text_plain [of _ a] by (subst takeWhile_append2) auto
qed

lemma decode_encode_text:
  assumes "length a = 32"
  shows "decode (encode_text a @ zeros k) = Some (Ok a)"
proof -
  have "utf8_valid (encode_text a)" using text_plain [of _ a] by (intro utf8_valid_ascii) blast
  moreover have "take 5 (encode_text a @ zeros k) = ascii ''ZEC1:''" "5 \<le> length (encode_text a)"
    by (simp_all add: encode_text_def memo_consts)
  ultimately show ?thesis
    using decode_text_encode [OF assms] by (simp add: decode_def takeWhile_text Let_def)
qed





lemma take_3_of_5: "take 5 m = ascii ''ZEC1:'' \<Longrightarrow> take 3 m = MEMO_TAG"
proof -
  assume "take 5 m = ascii ''ZEC1:''"
  then have "take 3 (take 5 m) = MEMO_TAG" by (simp add: memo_consts)
  then show ?thesis by simp
qed

text \<open>Whether a memo is read as a deposit.\<close>

definition reads_deposit :: "bytes \<Rightarrow> bool" where
  "reads_deposit m \<longleftrightarrow> (case decode m of None \<Rightarrow> False | Some r \<Rightarrow> is_ok r)"

lemma deposit_tag: "reads_deposit m \<Longrightarrow> take 3 m = MEMO_TAG"
  using take_3_of_5 [of m]
  by (auto simp: reads_deposit_def decode_def split: if_splits)

lemma forced_tag: "forced_frame m \<noteq> None \<Longrightarrow> take 3 m = FORCED_TAG"
  by (auto simp: forced_frame_def split: if_splits)

lemma publication_tag: "is_publication m \<Longrightarrow> take 3 m = PUBLISH_TAG"
  by (auto simp: is_publication_def publication_def split: if_splits)

text \<open>The namespaces are disjoint. A memo is read by at most one of the five parsers, so no note
  is both credited to an account and spent against an application obligation, an anchor or a
  publication.\<close>

theorem memo_namespaces_disjoint:
  "length (filter (\<lambda>b. b) [reads_deposit m, is_anchor m, is_publication m,
     forced_frame m \<noteq> None, has_app_payment_tag m]) \<le> 1"
proof -
  have "is_anchor m \<Longrightarrow> take 3 m = ANCHOR_TAG" "has_app_payment_tag m \<Longrightarrow> take 3 m = APP_PAYMENT_TAG"
    by (simp_all add: is_anchor_def has_app_payment_tag_def)
  with deposit_tag [of m] forced_tag [of m] publication_tag [of m] tags_differ show ?thesis
    by (cases "reads_deposit m"; cases "is_anchor m"; cases "is_publication m";
        cases "forced_frame m = None"; cases "has_app_payment_tag m") simp_all
qed

text \<open>No prefix of text that is all ASCII makes the parser panic.\<close>

lemma decode_pairs_ascii:
  "\<forall>a \<in> set hex. a < 0x80 \<Longrightarrow> \<forall>i \<in> set is. i * 2 + 2 \<le> length hex \<Longrightarrow>
    \<exists>r. decode_pairs hex is = Some r"
  by (induction "is") (auto simp: str_slice_ascii split: option.splits)

lemma ascii_trim:
  assumes "\<forall>a \<in> set s. a < 0x80"
  shows "\<forall>a \<in> set (str_trim s). a < 0x80"
proof -
  have "set (str_trim s) \<subseteq> set s"
    using assms by (auto simp: str_trim_def chars_of_ascii dest!: set_dropWhileD)
  with assms show ?thesis by blast
qed

lemma decode_text_ascii:
  assumes "\<forall>a \<in> set s. a < 0x80"
  shows "\<exists>r. decode_text s = Some r"
proof -
  have "\<exists>r. decode_pairs hex' [0..<32] = Some r"
    if "strip_prefix MEMO_TAG (str_trim s) = Some rest" "split_at_checked 1 rest = Some (v, hex)"
      "strip_prefix (ascii '':'') hex = Some hex'" "length hex' = 64" for rest v hex hex'
  proof -
    have "set hex' \<subseteq> set (str_trim s)"
      using that by (auto simp: strip_prefix_def split_at_checked_def split: if_splits
          dest!: in_set_dropD)
    then have "\<forall>a \<in> set hex'. a < 0x80" using ascii_trim [OF assms] by blast
    with that(4) show ?thesis by (intro decode_pairs_ascii) auto
  qed
  then show ?thesis
    by (auto simp: decode_text_def Let_def split: option.splits)
qed

text \<open>Where reading a memo can stop the program. A memo of ASCII bytes is always answered, an
  account or an error; but the text form slices its 64 hex bytes two at a time without looking
  for character boundaries, so one valid UTF-8 memo whose 64 bytes hold a two-byte character at
  an odd offset panics the parser instead of being refused.\<close>

theorem memo_text_panics_off_boundary:
  "((\<forall>a \<in> set m. a < 0x80) \<longrightarrow> decode m \<noteq> None) \<and>
   decode (memo_field (ascii ''ZEC1:0'' @ [0xC3, 0xA9] @ replicate 61 0x30)) = None"
proof
  show "(\<forall>a \<in> set m. a < 0x80) \<longrightarrow> decode m \<noteq> None"
    using decode_text_ascii [of "takeWhile (\<lambda>b. b \<noteq> 0) m"]
    by (auto simp: decode_def Let_def dest!: set_takeWhileD)
next
  show "decode (memo_field (ascii ''ZEC1:0'' @ [0xC3, 0xA9] @ replicate 61 0x30)) = None"
    by code_simp
qed

theorem memo_text_panics_off_boundary_witness:
  "decode (ascii ''ZEC1:00'') \<noteq> None"
  using memo_text_panics_off_boundary [of "ascii ''ZEC1:00''", THEN conjunct1]
  by (simp add: ascii_def)

text \<open>The text form is laxer than its contract of 64 hex digits: a pair is read by an integer
  parser that takes a leading plus sign, so a memo with 32 signs and 32 digits names an account
  and is credited.\<close>

theorem memo_text_accepts_signs:
  "decode (ascii ''ZEC1:'' @ concat (replicate 32 (ascii ''+7''))) = Some (Ok (replicate 32 7))"
  by code_simp

end
