(* ===== verification/Ordered_Map.thy ===== *)
theory Ordered_Map
  imports Prelude
begin

text \<open>
  Rust's \<open>BTreeMap\<close> and \<open>BTreeSet\<close>: iteration goes in key order, an insert replaces the value
  of a key that is there. A map is its list of entries in increasing key order, a set the
  increasing list of its elements. The interface the components use is the locale
  \<open>ordered_map\<close>; it is interpreted here on the entry lists.
\<close>

section \<open>Maps\<close>

type_synonym ('k, 'v) bmap = "('k \<times> 'v) list"

definition bm_empty :: "('k, 'v) bmap" where
  "bm_empty = []"

fun bm_insert :: "'k::linorder \<Rightarrow> 'v \<Rightarrow> ('k, 'v) bmap \<Rightarrow> ('k, 'v) bmap" where
  "bm_insert k v [] = [(k, v)]"
| "bm_insert k v ((k', v') # m) =
     (if k < k' then (k, v) # (k', v') # m
      else if k = k' then (k, v) # m
      else (k', v') # bm_insert k v m)"

definition bm_get :: "('k, 'v) bmap \<Rightarrow> 'k \<Rightarrow> 'v option" where
  "bm_get m k = map_of m k"

definition bm_remove :: "'k \<Rightarrow> ('k, 'v) bmap \<Rightarrow> ('k, 'v) bmap" where
  "bm_remove k m = filter (\<lambda>e. fst e \<noteq> k) m"

definition bm_retain :: "('k \<Rightarrow> 'v \<Rightarrow> bool) \<Rightarrow> ('k, 'v) bmap \<Rightarrow> ('k, 'v) bmap" where
  "bm_retain P m = filter (\<lambda>e. P (fst e) (snd e)) m"

definition bm_keys :: "('k, 'v) bmap \<Rightarrow> 'k list" where
  "bm_keys m = map fst m"

definition bm_values :: "('k, 'v) bmap \<Rightarrow> 'v list" where
  "bm_values m = map snd m"

definition bm_contains :: "('k, 'v) bmap \<Rightarrow> 'k \<Rightarrow> bool" where
  "bm_contains m k \<longleftrightarrow> bm_get m k \<noteq> None"

definition bm_ok :: "('k::linorder, 'v) bmap \<Rightarrow> bool" where
  "bm_ok m \<longleftrightarrow> sorted_wrt (<) (map fst m)"

definition bm_of :: "('k::linorder \<times> 'v) list \<Rightarrow> ('k, 'v) bmap" where
  "bm_of es = fold (\<lambda>e m. bm_insert (fst e) (snd e) m) es bm_empty"

named_theorems bmap_simps \<open>lookups in and entries of updated maps\<close>

lemma set_bm_insert_subset: "set (map fst (bm_insert k v m)) = insert k (set (map fst m))"
  by (induction m rule: bm_insert.induct [where ?a0.0 = k and ?a1.0 = v, simplified]) auto

lemma bm_ok_empty [simp]: "bm_ok bm_empty"
  by (simp add: bm_ok_def bm_empty_def)

lemma bm_ok_Nil [simp]: "bm_ok []"
  by (simp add: bm_ok_def)

lemma bm_ok_Cons:
  "bm_ok ((k, v) # m) \<longleftrightarrow> (\<forall>k' \<in> fst ` set m. k < k') \<and> bm_ok m"
  by (auto simp: bm_ok_def)

lemma bm_ok_insert [simp]: "bm_ok m \<Longrightarrow> bm_ok (bm_insert k v m)"
proof (induction m)
  case (Cons e m)
  obtain k' v' where e: "e = (k', v')" by (cases e)
  have "fst ` set (bm_insert k v m) = insert k (fst ` set m)"
    using set_bm_insert_subset [of k v m] by simp
  with Cons e show ?case
    by (auto simp: bm_ok_Cons)
qed (simp add: bm_ok_Cons)

lemma bm_get_insert [simp, bmap_simps]:
  "bm_get (bm_insert k v m) k' = (if k' = k then Some v else bm_get m k')"
  by (induction m) (auto simp: bm_get_def)

lemma bm_get_empty [simp, bmap_simps]: "bm_get bm_empty k = None" "bm_get [] k = None"
  by (simp_all add: bm_get_def bm_empty_def)

lemma bm_get_remove [simp, bmap_simps]:
  "bm_get (bm_remove k m) k' = (if k' = k then None else bm_get m k')"
  by (induction m) (auto simp: bm_get_def bm_remove_def)

lemma sorted_wrt_filter_map: "sorted_wrt P (map f m) \<Longrightarrow> sorted_wrt P (map f (filter Q m))"
  by (induction m) auto

lemma bm_ok_remove [simp]: "bm_ok m \<Longrightarrow> bm_ok (bm_remove k m)"
  by (simp add: bm_ok_def bm_remove_def sorted_wrt_filter_map)

lemma bm_ok_retain [simp]: "bm_ok m \<Longrightarrow> bm_ok (bm_retain P m)"
  by (simp add: bm_ok_def bm_retain_def sorted_wrt_filter_map)

lemma bm_ok_distinct: "bm_ok m \<Longrightarrow> distinct (map fst m)"
  by (simp add: bm_ok_def strict_sorted_iff)

lemma bm_get_Some_iff: "bm_ok m \<Longrightarrow> bm_get m k = Some v \<longleftrightarrow> (k, v) \<in> set m"
  by (simp add: bm_get_def bm_ok_distinct)

lemma bm_get_SomeD: "bm_get m k = Some v \<Longrightarrow> (k, v) \<in> set m"
  by (simp add: bm_get_def map_of_SomeD)

lemma bm_get_retain [bmap_simps]:
  assumes "bm_ok m"
  shows "bm_get (bm_retain P m) k =
    (case bm_get m k of None \<Rightarrow> None | Some v \<Rightarrow> if P k v then Some v else None)"
proof -
  have "bm_get (bm_retain P m) k = Some v \<longleftrightarrow> (k, v) \<in> set m \<and> P k v" for v
    using assms by (simp add: bm_get_Some_iff) (simp add: bm_retain_def)
  moreover have "bm_get m k = Some v \<longleftrightarrow> (k, v) \<in> set m" for v
    using assms by (simp add: bm_get_Some_iff)
  ultimately show ?thesis
    by (auto split: option.splits) (metis not_None_eq)+
qed

lemma bm_contains_iff: "bm_contains m k \<longleftrightarrow> k \<in> set (bm_keys m)"
  by (auto simp: bm_contains_def bm_get_def bm_keys_def map_of_eq_None_iff)

lemma set_bm_insert: 
  assumes "bm_ok m"
  shows "set (bm_insert k v m) = insert (k, v) {e \<in> set m. fst e \<noteq> k}"
proof -
  have "(k', v') \<in> set (bm_insert k v m) \<longleftrightarrow> (k', v') = (k, v) \<or> (k', v') \<in> set m \<and> k' \<noteq> k"
    for k' v'
    using assms bm_get_Some_iff [of "bm_insert k v m" k' v'] bm_get_Some_iff [of m k' v']
    by (auto split: if_splits)
  then show ?thesis by auto
qed

lemma set_bm_remove: "set (bm_remove k m) = {e \<in> set m. fst e \<noteq> k}"
  by (auto simp: bm_remove_def)

lemma length_bm_insert_new: "k \<notin> fst ` set m \<Longrightarrow> length (bm_insert k v m) = Suc (length m)"
  by (induction m) auto

lemma bm_ok_of [simp]: "bm_ok (bm_of es)"
proof -
  have "bm_ok m \<Longrightarrow> bm_ok (fold (\<lambda>e m. bm_insert (fst e) (snd e) m) es m)" for m
    by (induction es arbitrary: m) auto
  then show ?thesis by (simp add: bm_of_def)
qed

text \<open>Inserting an already sorted list of entries rebuilds it.\<close>

lemma bm_insert_last:
  "(\<forall>k' \<in> fst ` set m. k' < k) \<Longrightarrow> bm_insert k v m = m @ [(k, v)]"
  by (induction m) (auto dest: less_asym)

lemma bm_of_sorted: "bm_ok es \<Longrightarrow> bm_of es = es"
proof -
  have "bm_ok (m @ es) \<Longrightarrow> fold (\<lambda>e m. bm_insert (fst e) (snd e) m) es m = m @ es" for m
  proof (induction es arbitrary: m)
    case (Cons e es)
    then have "bm_insert (fst e) (snd e) m = m @ [e]"
      by (subst bm_insert_last) (auto simp: bm_ok_def sorted_wrt_append)
    with Cons show ?case by simp
  qed simp
  then show "bm_ok es \<Longrightarrow> bm_of es = es" by (simp add: bm_of_def bm_empty_def)
qed

lemma bm_get_Cons: "bm_get ((k', v) # m) k = (if k = k' then Some v else bm_get m k)"
  by (simp add: bm_get_def)

text \<open>Two maps that answer every lookup alike are the same map.\<close>

lemma bm_ext:
  assumes "bm_ok m" and "bm_ok m'" and "\<And>k. bm_get m k = bm_get m' k"
  shows "m = m'"
proof -
  have "(k, v) \<in> set m \<longleftrightarrow> (k, v) \<in> set m'" for k v
    using assms bm_get_Some_iff by metis
  then have "set m = set m'" by auto
  moreover have "inj_on fst (set m)"
    using bm_ok_distinct [OF assms(1)] by (simp add: distinct_map)
  ultimately show ?thesis
    using assms(1,2) by (intro map_sorted_distinct_set_unique [where f = fst])
      (auto simp: bm_ok_def strict_sorted_iff)
qed

lemma bm_get_dom: "bm_get m k \<noteq> None \<longleftrightarrow> k \<in> fst ` set m"
  by (simp add: bm_get_def map_of_eq_None_iff)

lemma length_bm: "bm_ok m \<Longrightarrow> length m = card (fst ` set m)"
  using bm_ok_distinct [of m] distinct_card [of "map fst m"] by simp

text \<open>One value for each key of a list.\<close>

definition bm_fill :: "('k::linorder \<Rightarrow> 'v) \<Rightarrow> 'k list \<Rightarrow> ('k, 'v) bmap \<Rightarrow> ('k, 'v) bmap" where
  "bm_fill f ks m = fold (\<lambda>k. bm_insert k (f k)) ks m"

lemma bm_fill_simps [simp]:
  "bm_fill f [] m = m" "bm_fill f (k # ks) m = bm_fill f ks (bm_insert k (f k) m)"
  by (simp_all add: bm_fill_def)

lemma bm_get_fill [simp, bmap_simps]:
  "bm_get (bm_fill f ks m) k = (if k \<in> set ks then Some (f k) else bm_get m k)"
  by (induction ks arbitrary: m) auto

lemma bm_ok_fill [simp]: "bm_ok m \<Longrightarrow> bm_ok (bm_fill f ks m)"
  by (induction ks arbitrary: m) auto

lemma bm_fill_cong: "(\<And>k. k \<in> set ks \<Longrightarrow> f k = g k) \<Longrightarrow> bm_fill f ks m = bm_fill g ks m"
  by (induction ks arbitrary: m) auto

lemma length_bm_fill: "distinct ks \<Longrightarrow> length (bm_fill f ks bm_empty) = length ks"
proof -
  assume "distinct ks"
  have "k \<in> fst ` set (bm_fill f ks bm_empty) \<longleftrightarrow> k \<in> set ks" for k
    unfolding bm_get_dom [symmetric] by simp
  then have "fst ` set (bm_fill f ks bm_empty) = set ks" by blast
  then show ?thesis
    using length_bm [of "bm_fill f ks bm_empty"] distinct_card [OF \<open>distinct ks\<close>] by simp
qed

section \<open>The interface\<close>

locale ordered_map =
  fixes empty :: "'m"
    and insert :: "'k \<Rightarrow> 'v \<Rightarrow> 'm \<Rightarrow> 'm"
    and get :: "'m \<Rightarrow> 'k \<Rightarrow> 'v option"
    and remove :: "'k \<Rightarrow> 'm \<Rightarrow> 'm"
    and invar :: "'m \<Rightarrow> bool"
  assumes get_empty: "get empty k = None"
    and get_insert: "get (insert k v m) k' = (if k' = k then Some v else get m k')"
    and get_remove: "get (remove k m) k' = (if k' = k then None else get m k')"
    and invar_empty: "invar empty"
    and invar_insert: "invar m \<Longrightarrow> invar (insert k v m)"
    and invar_remove: "invar m \<Longrightarrow> invar (remove k m)"
begin

definition insert_all :: "('k \<times> 'v) list \<Rightarrow> 'm \<Rightarrow> 'm" where
  "insert_all es m = fold (\<lambda>e m. insert (fst e) (snd e) m) es m"

lemma invar_insert_all: "invar m \<Longrightarrow> invar (insert_all es m)"
  by (induction es arbitrary: m) (auto simp: insert_all_def invar_insert)

lemma get_insert_all:
  "get (insert_all es m) k = (case map_of (rev es) k of None \<Rightarrow> get m k | Some v \<Rightarrow> Some v)"
  by (induction es arbitrary: m)
    (auto simp: insert_all_def get_insert map_add_def split: option.splits)

lemma get_remove_insert: "get m k = None \<Longrightarrow> get (remove k (insert k v m)) k' = get m k'"
  by (auto simp: get_insert get_remove)

end

interpretation bm: ordered_map bm_empty bm_insert bm_get bm_remove bm_ok
  by unfold_locales auto

lemma bm_get_of: "bm_get (bm_of es) k = map_of (rev es) k"
  using bm.get_insert_all [of es bm_empty k]
  by (simp add: bm_of_def bm.insert_all_def split: option.splits)

text \<open>Collecting entries with distinct keys sorts them.\<close>

lemma bm_of_map:
  assumes "distinct (map k xs)"
  shows "bm_of (map (\<lambda>x. (k x, f x)) xs) = map (\<lambda>x. (k x, f x)) (sort_key k xs)"
proof (rule bm_ext)
  have d: "map fst (map (\<lambda>x. (k x, f x)) ys) = map k ys" for ys
    by (simp add: comp_def)
  have "distinct (map k (sort_key k xs))" using assms by (simp add: distinct_map)
  then show ok: "bm_ok (map (\<lambda>x. (k x, f x)) (sort_key k xs))"
    unfolding bm_ok_def d by (simp add: strict_sorted_iff)
  show "bm_ok (bm_of (map (\<lambda>x. (k x, f x)) xs))" by simp
  fix i
  have "distinct (map fst (rev (map (\<lambda>x. (k x, f x)) xs)))"
    using assms by (simp add: rev_map [symmetric] comp_def)
  then have "bm_get (bm_of (map (\<lambda>x. (k x, f x)) xs)) i = Some v \<longleftrightarrow> (i, v) \<in> set (map (\<lambda>x. (k x, f x)) xs)" for v
    by (simp add: bm_get_of)
  moreover have "bm_get (map (\<lambda>x. (k x, f x)) (sort_key k xs)) i = Some v
      \<longleftrightarrow> (i, v) \<in> set (map (\<lambda>x. (k x, f x)) xs)" for v
    using bm_get_Some_iff [OF ok] by simp
  ultimately show "bm_get (bm_of (map (\<lambda>x. (k x, f x)) xs)) i
      = bm_get (map (\<lambda>x. (k x, f x)) (sort_key k xs)) i"
    by (metis not_None_eq)
qed

section \<open>Sets\<close>

definition bs_insert :: "'a::linorder \<Rightarrow> 'a list \<Rightarrow> 'a list" where
  "bs_insert x s = insort_insert x s"

definition bs_ok :: "'a::linorder list \<Rightarrow> bool" where
  "bs_ok s \<longleftrightarrow> sorted_wrt (<) s"

lemma bs_ok_Nil [simp]: "bs_ok []"
  by (simp add: bs_ok_def)

lemma set_bs_insert [simp]: "set (bs_insert x s) = insert x (set s)"
  by (simp add: bs_insert_def set_insort_insert)

lemma bs_ok_insert [simp]: "bs_ok s \<Longrightarrow> bs_ok (bs_insert x s)"
  by (simp add: bs_ok_def bs_insert_def strict_sorted_iff sorted_insort_insert
      distinct_insort_insert)

lemma length_bs: "bs_ok s \<Longrightarrow> length s = card (set s)"
  by (simp add: bs_ok_def strict_sorted_iff distinct_card)

end
