(* ===== verification/Watcher.thy ===== *)
theory Watcher
  imports Account Amount Ordered_Map "HOL-Library.Multiset"
begin

text \<open>
  watcher.rs: following a chain and reporting confirmed deposits as intents. A \<open>ChainView\<close> is
  the record of what it answers; the watcher's \<open>poll\<close> and \<open>audit\<close> are functions of its state
  and of a view. The locale \<open>chain_view\<close> states what a view promises and proves what a batch
  of intents then satisfies; the node snapshot of zebra.rs interprets it.
\<close>

type_synonym txid = bytes
type_synonym asset_id = bytes

record observed_deposit =
  od_txid :: txid
  od_account :: account_id
  od_amount :: fixed
  od_height :: u64
  od_asset :: "asset_id option"

record chain =
  cv_tip :: u64
  cv_deposits_at :: "u64 \<Rightarrow> observed_deposit list"
  cv_balance_at :: "u64 \<Rightarrow> fixed option"
  cv_failed :: bool
  cv_balance_of :: "asset_id \<Rightarrow> u64 \<Rightarrow> fixed option"

datatype watcher_action =
    Attest fixed
  | Credit account_id fixed (credit_index: u64) (credit_ref: txid) "asset_id option"
  | AttestAsset asset_id fixed

datatype watcher_error = Unavailable | CreditedDepositReorgedOut txid

record watcher =
  w_confirmations :: u64
  w_scanned_to :: u64
  w_credited :: "txid list"
  w_next_index :: u64

definition watcher_new :: "u64 \<Rightarrow> u64 \<Rightarrow> watcher" where
  "watcher_new confirmations next_index =
    \<lparr> w_confirmations = confirmations, w_scanned_to = 0, w_credited = [], w_next_index = next_index \<rparr>"

definition watcher_resume :: "u64 \<Rightarrow> u64 \<Rightarrow> u64 \<Rightarrow> watcher" where
  "watcher_resume confirmations next_index scanned_to =
    \<lparr> w_confirmations = confirmations, w_scanned_to = scanned_to, w_credited = [],
      w_next_index = next_index \<rparr>"

definition rewind_to :: "u64 \<Rightarrow> watcher \<Rightarrow> watcher" where
  "rewind_to height w = (if height < w_scanned_to w then w \<lparr> w_scanned_to := height \<rparr> else w)"

definition safe_height :: "watcher \<Rightarrow> u64 \<Rightarrow> u64 option" where
  "safe_height w tip = do {
     h \<leftarrow> checked_sub tip (saturating_sub (w_confirmations w) 1);
     h' \<leftarrow> checked_sub h 1;
     Some (h' + 1)
   }"

text \<open>The range \<open>a..=b\<close>.\<close>

definition heights :: "u64 \<Rightarrow> u64 \<Rightarrow> u64 list" where
  "heights a b = map of_nat [unat a..<Suc (unat b)]"

text \<open>The guards of the scan loop: not credited before, positive, and not the top-up account.\<close>

definition reportable :: "watcher \<Rightarrow> observed_deposit \<Rightarrow> bool" where
  "reportable w d \<longleftrightarrow> od_txid d \<notin> set (w_credited w) \<and> is_positive (od_amount d)
    \<and> od_account d \<noteq> zeros 32"

definition scan_range :: "watcher \<Rightarrow> chain \<Rightarrow> u64 \<Rightarrow> observed_deposit list" where
  "scan_range w chain safe =
    concat (map (\<lambda>h. filter (reportable w) (cv_deposits_at chain h))
      (heights (w_scanned_to w + 1) safe))"

fun attest_assets :: "chain \<Rightarrow> u64 \<Rightarrow> asset_id list \<Rightarrow> watcher_error + watcher_action list" where
  "attest_assets chain safe [] = Ok []"
| "attest_assets chain safe (a # as) =
    and_then (ok_or (cv_balance_of chain a safe) Unavailable) (\<lambda>observed.
      and_then (attest_assets chain safe as) (\<lambda>acts. Ok (AttestAsset a observed # acts)))"

text \<open>The emitting loop: one credit per deposit, the next index, the transaction marked.\<close>

fun emit_credits :: "watcher \<Rightarrow> observed_deposit list \<Rightarrow> watcher_action list \<times> watcher" where
  "emit_credits w [] = ([], w)"
| "emit_credits w (d # ds) =
    (case emit_credits (w \<lparr> w_next_index := w_next_index w + 1,
                            w_credited := bs_insert (od_txid d) (w_credited w) \<rparr>) ds of
       (acts, w') \<Rightarrow>
         (Credit (od_account d) (od_amount d) (w_next_index w) (od_txid d) (od_asset d) # acts, w'))"

definition fresh_deposits :: "watcher \<Rightarrow> chain \<Rightarrow> u64 \<Rightarrow> observed_deposit list" where
  "fresh_deposits w chain safe = sort_key (\<lambda>d. (od_height d, od_txid d)) (scan_range w chain safe)"

definition poll :: "watcher \<Rightarrow> chain \<Rightarrow> watcher \<times> (watcher_error + watcher_action list)" where
  "poll w chain =
    (case safe_height w (cv_tip chain) of
       None \<Rightarrow> (w, Ok [])
     | Some safe \<Rightarrow>
       if safe \<le> w_scanned_to w then (w, Ok [])
       else let fresh = fresh_deposits w chain safe
         in if fresh = [] then (w \<lparr> w_scanned_to := safe \<rparr>, Ok [])
            else case ok_or (cv_balance_at chain safe) Unavailable of
              Inl e \<Rightarrow> (w, Err e)
            | Inr observed \<Rightarrow>
              (case attest_assets chain safe (remdups_adj (sort (List.map_filter od_asset fresh))) of
                 Inl e \<Rightarrow> (w, Err e)
               | Inr assets \<Rightarrow>
                 (case emit_credits w fresh of
                    (credits, w') \<Rightarrow>
                      (w' \<lparr> w_scanned_to := safe \<rparr>, Ok (Attest observed # assets @ credits)))))"

definition audit :: "watcher \<Rightarrow> chain \<Rightarrow> u64 \<Rightarrow> u64 \<Rightarrow> watcher_error + unit" where
  "audit w chain from_h to_h =
    (let seen = concat (map (\<lambda>h. map od_txid (cv_deposits_at chain h)) (heights from_h to_h))
     in case List.find (\<lambda>t. t \<notin> set seen) (w_credited w) of
          None \<Rightarrow> Ok ()
        | Some t \<Rightarrow> Err (CreditedDepositReorgedOut t))"

section \<open>Lemmas\<close>

lemma set_heights: "h \<in> set (heights a b) \<longleftrightarrow> a \<le> h \<and> h \<le> b"
proof
  assume "h \<in> set (heights a b)"
  then obtain n where n: "h = of_nat n" "unat a \<le> n" "n \<le> unat b" by (auto simp: heights_def)
  then have "n < 2 ^ 64" using unat_less_64 [of b] by simp
  with n have "unat h = n" by (simp add: unat_of_nat)
  with n show "a \<le> h \<and> h \<le> b" by (simp add: word_le_nat_alt)
next
  assume "a \<le> h \<and> h \<le> b"
  then have "unat h \<in> set [unat a..<Suc (unat b)]" by (auto simp: word_le_nat_alt)
  then have "(of_nat (unat h) :: u64) \<in> of_nat ` set [unat a..<Suc (unat b)]" by (rule imageI)
  then show "h \<in> set (heights a b)" by (simp only: heights_def set_map of_nat_unat ucast_id)
qed

lemma distinct_heights: "distinct (heights a b)"
proof -
  have "inj_on (of_nat :: nat \<Rightarrow> u64) {unat a..<Suc (unat b)}"
  proof (rule inj_onI)
    fix x y
    assume "x \<in> {unat a..<Suc (unat b)}" "y \<in> {unat a..<Suc (unat b)}" "(of_nat x :: u64) = of_nat y"
    then have "x < 2 ^ 64" "y < 2 ^ 64" "unat (of_nat x :: u64) = unat (of_nat y :: u64)"
      using unat_less_64 [of b] by auto
    then show "x = y" by (simp add: unat_of_nat)
  qed
  then show ?thesis unfolding heights_def by (simp only: distinct_map distinct_upt set_upt simp_thms)
qed

lemma safe_height_Some:
  "safe_height w tip = Some safe \<Longrightarrow> unat safe + (unat (w_confirmations w) - 1) = unat tip \<and> 0 < unat safe"
proof -
  assume "safe_height w tip = Some safe"
  then obtain h h' where c: "checked_sub tip (saturating_sub (w_confirmations w) 1) = Some h"
    "checked_sub h 1 = Some h'" and safe: "safe = h' + 1"
    by (auto simp: safe_height_def split: bind_splits)
  then have *: "unat h + (unat (w_confirmations w) - 1) = unat tip" "1 \<le> unat h"
    "unat h' = unat h - 1"
    by (auto simp: checked_sub_Some unat_saturating_sub)
  then have "unat h' + unat (1 :: u64) < 2 ^ LENGTH(64)" using unat_less_64 [of h] by simp
  then have "unat safe = unat h" using * safe by (simp add: unat_add_no_wrap)
  with * show ?thesis by simp
qed

lemma emit_credits_eq:
  assumes "emit_credits w ds = (acts, w')"
  shows "acts = map (\<lambda>(i, d). Credit (od_account d) (od_amount d) (w_next_index w + of_nat i)
      (od_txid d) (od_asset d)) (enumerate 0 ds)
    \<and> w_next_index w' = w_next_index w + of_nat (length ds)
    \<and> set (w_credited w') = set (w_credited w) \<union> od_txid ` set ds
    \<and> w_confirmations w' = w_confirmations w \<and> w_scanned_to w' = w_scanned_to w
    \<and> (bs_ok (w_credited w) \<longrightarrow> bs_ok (w_credited w'))"
  using assms
proof (induction ds arbitrary: w acts)
  case (Cons d ds)
  let ?w = "w \<lparr> w_next_index := w_next_index w + 1,
    w_credited := bs_insert (od_txid d) (w_credited w) \<rparr>"
  from Cons.prems obtain acts' where e: "emit_credits ?w ds = (acts', w')"
    and acts: "acts = Credit (od_account d) (od_amount d) (w_next_index w) (od_txid d) (od_asset d) # acts'"
    by (auto split: prod.splits)
  have "map (\<lambda>(i, d). Credit (od_account d) (od_amount d) (w_next_index w + 1 + of_nat i)
      (od_txid d) (od_asset d)) (enumerate 0 ds)
    = map (\<lambda>(i, d). Credit (od_account d) (od_amount d) (w_next_index w + of_nat i)
      (od_txid d) (od_asset d)) (enumerate (Suc 0) ds)"
    by (rule nth_equalityI) (simp_all add: nth_enumerate_eq algebra_simps)
  with Cons.IH [OF e] acts show ?case by (auto simp: algebra_simps)
qed simp

lemma attest_assets_kind:
  "attest_assets chain safe as = Ok acts \<Longrightarrow> a \<in> set acts \<Longrightarrow> \<exists>x v. a = AttestAsset x v"
  by (induction "as" arbitrary: acts) (auto simp: result_simps)

text \<open>The transactions a batch credits, and the deposits its credits stand for.\<close>

definition credited_refs :: "watcher_action list \<Rightarrow> txid list" where
  "credited_refs acts = List.map_filter (\<lambda>a. case a of Credit _ _ _ r _ \<Rightarrow> Some r | _ \<Rightarrow> None) acts"

definition credited_total :: "watcher_action list \<Rightarrow> int" where
  "credited_total acts =
    sum_list (map (\<lambda>a. case a of Credit _ v _ _ None \<Rightarrow> raw_value v | _ \<Rightarrow> 0) acts)"

lemma poll_cases:
  assumes "poll w c = (w', Ok acts)"
  obtains (quiet) "acts = []" "w' = w"
    | (empty) safe where "acts = []" "w' = w \<lparr> w_scanned_to := safe \<rparr>"
        "safe_height w (cv_tip c) = Some safe" "w_scanned_to w < safe" "fresh_deposits w c safe = []"
    | (batch) safe observed assets credits w1 where
        "safe_height w (cv_tip c) = Some safe" "w_scanned_to w < safe"
        "fresh_deposits w c safe \<noteq> []" "cv_balance_at c safe = Some observed"
        "attest_assets c safe (remdups_adj (sort (List.map_filter od_asset (fresh_deposits w c safe))))
          = Ok assets"
        "emit_credits w (fresh_deposits w c safe) = (credits, w1)"
        "w' = w1 \<lparr> w_scanned_to := safe \<rparr>" "acts = Attest observed # assets @ credits"
proof (cases "safe_height w (cv_tip c)")
  case None
  with assms show ?thesis by (intro quiet) (auto simp: poll_def)
next
  case (Some safe)
  show ?thesis
  proof (cases "safe \<le> w_scanned_to w")
    case True
    with assms Some show ?thesis by (intro quiet) (auto simp: poll_def)
  next
    case False
    then have lt: "w_scanned_to w < safe" by simp
    show ?thesis
    proof (cases "fresh_deposits w c safe = []")
      case True
      with assms Some False show ?thesis by (intro empty [OF _ _ Some lt]) (auto simp: poll_def)
    next
      case fresh: False
      obtain credits w1 where e: "emit_credits w (fresh_deposits w c safe) = (credits, w1)"
        by fastforce
      with assms Some False fresh show ?thesis
        by (auto simp: poll_def Let_def result_simps split: sum.splits intro!: batch [OF Some lt fresh _ _ e])
    qed
  qed
qed

lemma credited_refs_simps [simp]:
  "credited_refs [] = []" "credited_refs (Attest v # acts) = credited_refs acts"
  "credited_refs (AttestAsset a v # acts) = credited_refs acts"
  "credited_refs (Credit a v i r s # acts) = r # credited_refs acts"
  "credited_refs (acts @ acts') = credited_refs acts @ credited_refs acts'"
  by (simp_all add: credited_refs_def map_filter_def)

lemma credited_refs_assets:
  "attest_assets chain safe as = Ok acts \<Longrightarrow> credited_refs acts = []"
  by (induction "as" arbitrary: acts) (auto simp: result_simps)

lemma credited_refs_emit:
  "emit_credits w ds = (acts, w') \<Longrightarrow> credited_refs acts = map od_txid ds"
  by (induction ds arbitrary: w acts) (auto split: prod.splits)

lemma scan_range_filter:
  "scan_range w c safe = filter (reportable w)
    (concat (map (cv_deposits_at c) (heights (w_scanned_to w + 1) safe)))"
  by (simp add: scan_range_def filter_concat comp_def)

lemma set_fresh: "set (fresh_deposits w c safe) = set (scan_range w c safe)"
  by (simp add: fresh_deposits_def)

lemma fresh_reportable: "d \<in> set (fresh_deposits w c safe) \<Longrightarrow> reportable w d"
  by (auto simp: set_fresh scan_range_def)

text \<open>What a poll does to the set of credited transactions, in either outcome.\<close>

lemma poll_credited:
  assumes "poll w c = (w', r)"
  shows "set (w_credited w') = set (w_credited w) \<union> (case r of Inl _ \<Rightarrow> {} | Inr acts \<Rightarrow> set (credited_refs acts))
    \<and> (case r of Inl _ \<Rightarrow> {} | Inr acts \<Rightarrow> set (credited_refs acts)) \<inter> set (w_credited w) = {}"
proof (cases r)
  case (Inl e)
  with assms have "w' = w"
    by (auto simp: poll_def Let_def split: option.splits if_splits sum.splits prod.splits)
  with Inl show ?thesis by simp
next
  case (Inr acts)
  with assms have "poll w c = (w', Ok acts)" by simp
  then show ?thesis
  proof (cases rule: poll_cases)
    case (batch safe observed assets credits w1)
    have "credited_refs acts = map od_txid (fresh_deposits w c safe)"
      using batch credited_refs_assets credited_refs_emit by simp
    moreover have "od_txid ` set (fresh_deposits w c safe) \<inter> set (w_credited w) = {}"
      using fresh_reportable [of _ w c safe] by (auto simp: reportable_def)
    ultimately show ?thesis using Inr emit_credits_eq [OF batch(6)] batch(7) by auto
  qed (simp_all add: Inr)
qed

section \<open>What a view promises\<close>

locale chain_view =
  fixes view :: "'v \<Rightarrow> chain"
    and valid :: "'v \<Rightarrow> bool"
  assumes at_height: "valid v \<Longrightarrow> d \<in> set (cv_deposits_at (view v) h) \<Longrightarrow> od_height d = h"
    and covered: "valid v \<Longrightarrow> cv_balance_at (view v) h = Some b \<Longrightarrow> distinct hs \<Longrightarrow>
      \<forall>h' \<in> set hs. h' \<le> h \<Longrightarrow>
      sum_list (map (\<lambda>d. raw_value (od_amount d))
        (filter (\<lambda>d. is_positive (od_amount d)) (concat (map (cv_deposits_at (view v)) hs))))
      \<le> raw_value b"
begin

lemma fresh_range:
  assumes "valid v" and "d \<in> set (fresh_deposits w (view v) safe)" and "w_scanned_to w < safe"
  shows "w_scanned_to w < od_height d \<and> od_height d \<le> safe \<and>
    d \<in> set (cv_deposits_at (view v) (od_height d))"
proof -
  from assms(2) obtain h where h: "h \<in> set (heights (w_scanned_to w + 1) safe)"
    "d \<in> set (cv_deposits_at (view v) h)" by (auto simp: set_fresh scan_range_def)
  moreover have "w_scanned_to w < w_scanned_to w + 1"
    using unat_plus_one [OF assms(3)] by (simp add: word_less_nat_alt)
  ultimately show ?thesis using at_height [OF assms(1) h(2)] by (auto simp: set_heights)
qed

text \<open>The credits of a batch in the bridge's own asset add up to the eligible deposits.\<close>

lemma total_emit:
  "emit_credits u ds = (acts, u') \<Longrightarrow> credited_total acts
    = sum_list (map (\<lambda>d. if od_asset d = None then raw_value (od_amount d) else 0) ds)"
  by (induction ds arbitrary: u acts)
    (auto simp: credited_total_def split: prod.splits option.splits)

lemma attested_covers:
  assumes "valid v" and "poll w (view v) = (w', Ok (Attest b # acts))"
  shows "credited_total acts \<le> raw_value b"
  using assms(2)
proof (cases rule: poll_cases)
  case (batch safe observed assets credits w1)
  let ?P = "\<lambda>d. is_positive (od_amount d)" and ?v = "\<lambda>d. raw_value (od_amount d)"
  let ?hs = "heights (w_scanned_to w + 1) safe"
  let ?all = "filter ?P (concat (map (cv_deposits_at (view v)) ?hs))"
  have assets: "credited_total assets = 0"
  proof -
    have "attest_assets (view v) safe as = Ok xs \<Longrightarrow> credited_total xs = 0" for "as" xs
      by (induction "as" arbitrary: xs) (auto simp: result_simps credited_total_def)
    then show ?thesis using batch(5) .
  qed
  have app: "credited_total (xs @ ys) = credited_total xs + credited_total ys" for xs ys
    by (simp add: credited_total_def)
  have "credited_total acts
      = sum_list (map (\<lambda>d. if od_asset d = None then ?v d else 0) (fresh_deposits w (view v) safe))"
    using batch(8) total_emit [OF batch(6)] assets by (simp add: app)
  also have "\<dots> = sum_list (map (\<lambda>d. if od_asset d = None then ?v d else 0) (scan_range w (view v) safe))"
    unfolding fresh_deposits_def sum_mset_sum_list [symmetric] mset_map mset_sort ..
  also have "\<dots> = sum_list (map (\<lambda>d. if reportable w d \<and> od_asset d = None then ?v d else 0) ?all)"
  proof -
    have "sum_list (map (\<lambda>d. if od_asset d = None then ?v d else 0) (filter (reportable w) xs))
        = sum_list (map (\<lambda>d. if reportable w d \<and> od_asset d = None then ?v d else 0) (filter ?P xs))" for xs
      by (induction xs) (auto simp: reportable_def)
    then show ?thesis unfolding scan_range_filter .
  qed
  also have "\<dots> \<le> sum_list (map ?v ?all)"
    by (rule sum_list_mono) (auto simp: is_positive_def raw_value_def)
  also have "\<dots> \<le> raw_value b"
    using batch(4, 8) by (intro covered [OF assms(1) _ distinct_heights]) (auto simp: set_heights)
  finally show ?thesis .
qed simp_all

text \<open>A credited deposit was seen on the chain, above what was scanned, and buried deep enough.\<close>

lemma credited_buried:
  assumes "valid v" and "poll w (view v) = (w', Ok acts)" and "r \<in> set (credited_refs acts)"
  shows "\<exists>d. d \<in> set (cv_deposits_at (view v) (od_height d)) \<and> od_txid d = r \<and> reportable w d \<and>
    w_scanned_to w < od_height d \<and>
    unat (od_height d) + (unat (w_confirmations w) - 1) \<le> unat (cv_tip (view v))"
  using assms(2)
proof (cases rule: poll_cases)
  case (batch safe observed assets credits w1)
  have "credited_refs acts = map od_txid (fresh_deposits w (view v) safe)"
    using batch credited_refs_assets credited_refs_emit by simp
  with assms(3) obtain d where d: "d \<in> set (fresh_deposits w (view v) safe)" "od_txid d = r" by auto
  have "unat (od_height d) \<le> unat safe"
    using fresh_range [OF assms(1) d(1) batch(2)] by (simp add: word_le_nat_alt)
  with safe_height_Some [OF batch(1)] fresh_range [OF assms(1) d(1) batch(2)]
    fresh_reportable [OF d(1)] d(2)
  show ?thesis by (intro exI [of _ d]) auto
qed (use assms(3) in simp_all)

end

section \<open>Properties\<close>


text \<open>A concrete chain of one deposit, for the witnesses.\<close>

definition one_deposit :: observed_deposit where
  "one_deposit = \<lparr> od_txid = replicate 32 9, od_account = replicate 32 1, od_amount = fixed_one,
    od_height = 1, od_asset = None \<rparr>"

definition one_deposit_chain :: chain where
  "one_deposit_chain = \<lparr> cv_tip = 1, cv_deposits_at = (\<lambda>h. if h = 1 then [one_deposit] else []),
    cv_balance_at = (\<lambda>h. Some fixed_one), cv_failed = False, cv_balance_of = (\<lambda>_ _. None) \<rparr>"

lemma one_deposit_poll:
  "\<exists>w'. poll (watcher_new 1 0) one_deposit_chain = (w', Ok [Attest fixed_one,
    Credit (replicate 32 1) fixed_one 0 (replicate 32 9) None]) \<and> w_next_index w' = 1"
  by (simp add: poll_def one_deposit_chain_def one_deposit_def watcher_new_def safe_height_def
      checked_sub_def saturating_sub_def fresh_deposits_def scan_range_def heights_def reportable_def
      is_positive_def fixed_one_def WAD_def map_filter_def Let_def zeros_def)


text \<open>A poll that cannot be answered makes no progress: the watcher is the one it was, so no
  height is skipped and no index is spent.\<close>

theorem poll_error_changes_nothing:
  assumes "poll w c = (w', Err e)"
  shows "w' = w \<and> e = Unavailable \<and> (\<exists>safe. safe_height w (cv_tip c) = Some safe \<and>
    w_scanned_to w < safe \<and> fresh_deposits w c safe \<noteq> [] \<and>
    (cv_balance_at c safe = None \<or>
     (\<exists>d \<in> set (fresh_deposits w c safe). \<exists>x. od_asset d = Some x \<and> cv_balance_of c x safe = None)))"
proof -
  have assets: "e' = Unavailable \<and> (\<exists>x \<in> set as. cv_balance_of c x safe = None)"
    if "attest_assets c safe as = Inl e'" for "as" e' safe
    using that by (induction "as") (auto simp: result_simps)
  have in_assets: "x \<in> set (List.map_filter od_asset ds) \<Longrightarrow> \<exists>d \<in> set ds. od_asset d = Some x" for x ds
    by (auto simp: map_filter_def)
  from assms obtain safe where "safe_height w (cv_tip c) = Some safe" "\<not> safe \<le> w_scanned_to w"
    "fresh_deposits w c safe \<noteq> []"
    by (auto simp: poll_def Let_def split: option.splits if_splits)
  with assms show ?thesis
    by (auto simp: poll_def Let_def result_simps split: sum.splits prod.splits
        dest!: assets in_assets) blast+
qed

theorem poll_error_changes_nothing_witness:
  "poll (watcher_new 1 0) (one_deposit_chain \<lparr> cv_balance_at := \<lambda>_. None \<rparr>)
    = (watcher_new 1 0, Err Unavailable)"
proof -
  have e: "\<exists>e w'. poll (watcher_new 1 0) (one_deposit_chain \<lparr> cv_balance_at := \<lambda>_. None \<rparr>) = (w', Err e)"
    by (simp add: poll_def one_deposit_chain_def one_deposit_def watcher_new_def safe_height_def
        checked_sub_def saturating_sub_def fresh_deposits_def scan_range_def heights_def reportable_def
        is_positive_def fixed_one_def WAD_def map_filter_def Let_def zeros_def)
  then show ?thesis using poll_error_changes_nothing by blast
qed

text \<open>A watcher over time: polls of whatever the chain looks like then, and rewinds.\<close>

datatype watcher_step = Poll chain | Rewind u64

fun watch :: "watcher \<Rightarrow> watcher_step list \<Rightarrow> watcher_action list list" where
  "watch w [] = []"
| "watch w (Rewind h # steps) = watch (rewind_to h w) steps"
| "watch w (Poll c # steps) =
    (case poll w c of
       (w', Inl e) \<Rightarrow> watch w' steps
     | (w', Inr acts) \<Rightarrow> acts # watch w' steps)"

lemma watch_fresh:
  "acts \<in> set (watch w steps) \<Longrightarrow> set (credited_refs acts) \<inter> set (w_credited w) = {}"
proof (induction w steps arbitrary: acts rule: watch.induct)
  case (2 w h steps)
  then show ?case by (auto simp: rewind_to_def split: if_splits)
next
  case (3 w c steps)
  obtain w' r where p: "poll w c = (w', r)" by fastforce
  note pc = poll_credited [OF p]
  show ?case
  proof (cases r)
    case (Inl e)
    with 3 p pc show ?thesis by auto
  next
    case (Inr acts')
    with 3(2)[OF p [symmetric] Inr] 3(3) p pc show ?thesis by fastforce
  qed
qed simp

text \<open>C19: no transaction is credited by two polls. Whatever sequence of chains a watcher is shown,
  reorganised or reshuffled, with failed polls and rewinds in between, the batches it returns
  credit disjoint sets of transactions.\<close>

theorem no_transaction_credited_twice:
  "sorted_wrt (\<lambda>a b. set (credited_refs a) \<inter> set (credited_refs b) = {}) (watch w steps)"
proof (induction w steps rule: watch.induct)
  case (3 w c steps)
  obtain w' r where p: "poll w c = (w', r)" by fastforce
  note pc = poll_credited [OF p]
  show ?case
  proof (cases r)
    case (Inl e)
    with 3 p show ?thesis by simp
  next
    case (Inr acts)
    have "set (credited_refs acts) \<inter> set (credited_refs b) = {}" if "b \<in> set (watch w' steps)" for b
      using watch_fresh [OF that] pc Inr by auto
    with 3(2)[OF p [symmetric] Inr] p Inr show ?thesis by simp
  qed
qed simp_all

lemma sort_key_unique:
  assumes "mset xs = mset ys" and "inj_on f (set xs)"
  shows "sort_key f xs = sort_key f ys"
proof (rule properties_for_sort_key)
  show "mset (sort_key f ys) = mset xs" using assms(1) by simp
  show "sorted (map f (sort_key f ys))" by simp
  fix k
  assume "k \<in> set (sort_key f ys)"
  have s: "set ys = set xs" using assms(1) by (metis set_mset_mset)
  then have "filter (\<lambda>x. f k = f x) zs = replicate (count (mset zs) k) k"
    if "set zs \<subseteq> set xs" "k \<in> set xs" for zs
    using that assms(2) by (induction zs) (auto dest: inj_onD)
  with s \<open>k \<in> set (sort_key f ys)\<close> assms(1)
  show "filter (\<lambda>x. f k = f x) (sort_key f ys) = filter (\<lambda>x. f k = f x) xs"
    by simp
qed

lemma scan_range_mset:
  assumes "\<And>h. mset (cv_deposits_at c h) = mset (cv_deposits_at c' h)"
  shows "mset (scan_range w c safe) = mset (scan_range w c' safe)"
proof -
  have "mset (concat (map (cv_deposits_at c) hs)) = mset (concat (map (cv_deposits_at c') hs))" for hs
    using assms by (induction hs) simp_all
  then show ?thesis by (simp add: scan_range_filter mset_filter)
qed

text \<open>Two watchers scanning the same range agree. The order in which a node lists the deposits
  of a block is irrelevant: when no two deposits of the range share a height and a transaction,
  the two polls return the same intents with the same indices and end in the same state.\<close>

theorem poll_independent_of_node_order:
  assumes "cv_tip c' = cv_tip c" and "cv_balance_at c' = cv_balance_at c"
    and "cv_balance_of c' = cv_balance_of c"
    and "\<And>h. mset (cv_deposits_at c' h) = mset (cv_deposits_at c h)"
    and "\<And>safe. inj_on (\<lambda>d. (od_height d, od_txid d)) (set (scan_range w c safe))"
  shows "poll w c' = poll w c"
proof -
  have "fresh_deposits w c' safe = fresh_deposits w c safe" for safe
    unfolding fresh_deposits_def
    using sort_key_unique [OF scan_range_mset [of c c' w safe] assms(5)] assms(4) by simp
  then have f: "fresh_deposits w c' = fresh_deposits w c" by (rule ext)
  have "attest_assets c' safe as = attest_assets c safe as" for safe "as"
    using assms(3) by (induction "as") simp_all
  then have a: "attest_assets c' = attest_assets c" by (intro ext)
  show ?thesis unfolding poll_def f a assms(1, 2) ..
qed

theorem poll_independent_of_node_order_witness:
  "poll (watcher_new 1 0) (one_deposit_chain \<lparr> cv_failed := True \<rparr>)
    = poll (watcher_new 1 0) one_deposit_chain"
  by (rule poll_independent_of_node_order)
    (auto simp: one_deposit_chain_def scan_range_def inj_on_def split: if_splits)

text \<open>An audit raises its alarm exactly when some credited transaction is not among the deposits
  of the heights it reads, and names one that is missing.\<close>

theorem audit_finds_missing:
  "(audit w c a b = Ok () \<longleftrightarrow>
     set (w_credited w) \<subseteq> {od_txid d | d h. a \<le> h \<and> h \<le> b \<and> d \<in> set (cv_deposits_at c h)}) \<and>
   (\<forall>e. audit w c a b = Err e \<longrightarrow> (\<exists>t \<in> set (w_credited w). e = CreditedDepositReorgedOut t \<and>
     (\<forall>h d. a \<le> h \<longrightarrow> h \<le> b \<longrightarrow> d \<in> set (cv_deposits_at c h) \<longrightarrow> od_txid d \<noteq> t)))"
proof -
  define seen where "seen = concat (map (\<lambda>h. map od_txid (cv_deposits_at c h)) (heights a b))"
  have m: "set seen = {od_txid d | d h. a \<le> h \<and> h \<le> b \<and> d \<in> set (cv_deposits_at c h)}"
  proof (intro set_eqI iffI)
    fix t
    assume "t \<in> set seen"
    then obtain h d where "h \<in> set (heights a b)" "d \<in> set (cv_deposits_at c h)" "t = od_txid d"
      unfolding seen_def by auto
    then show "t \<in> {od_txid d | d h. a \<le> h \<and> h \<le> b \<and> d \<in> set (cv_deposits_at c h)}"
      unfolding set_heights by blast
  next
    fix t
    assume "t \<in> {od_txid d | d h. a \<le> h \<and> h \<le> b \<and> d \<in> set (cv_deposits_at c h)}"
    then obtain h d where "h \<in> set (heights a b)" "d \<in> set (cv_deposits_at c h)" "t = od_txid d"
      unfolding set_heights by blast
    then show "t \<in> set seen" unfolding seen_def by auto
  qed
  have audit: "audit w c a b = (case List.find (\<lambda>t. t \<notin> set seen) (w_credited w) of
      None \<Rightarrow> Ok () | Some t \<Rightarrow> Err (CreditedDepositReorgedOut t))"
    by (simp add: audit_def seen_def)
  show ?thesis
  proof (cases "List.find (\<lambda>t. t \<notin> set seen) (w_credited w)")
    case None
    then have "audit w c a b = Ok ()" by (simp only: audit option.case)
    moreover have "set (w_credited w) \<subseteq> set seen" using None by (auto simp only: find_None_iff)
    ultimately show ?thesis unfolding m by simp
  next
    case (Some t)
    then have e: "audit w c a b = Err (CreditedDepositReorgedOut t)" by (simp only: audit option.case)
    have t: "t \<in> set (w_credited w)" "t \<notin> set seen"
      using Some by (auto simp only: find_Some_iff nth_mem)
    then have "\<not> set (w_credited w) \<subseteq> set seen" by blast
    moreover have "\<forall>h d. a \<le> h \<longrightarrow> h \<le> b \<longrightarrow> d \<in> set (cv_deposits_at c h) \<longrightarrow> od_txid d \<noteq> t"
      using t(2) unfolding m by blast
    ultimately show ?thesis using e t(1) unfolding m by simp
  qed
qed

theorem audit_finds_missing_witness:
  "audit (watcher_new 1 0) one_deposit_chain 0 5 = Ok ()"
  using audit_finds_missing [of "watcher_new 1 0" one_deposit_chain 0 5, THEN conjunct1]
  by (simp add: watcher_new_def)

end
