(* ===== verification/Zebra.thy ===== *)
theory Zebra
  imports Watcher Text
begin

text \<open>
  zebra.rs: the node client and the snapshot the watcher polls. JSON and the transport are
  parameters: \<open>json_ops\<close> is what the code asks of \<open>serde_json\<close>'s \<open>Value\<close>, \<open>rpc\<close> answers one
  call. Everything the client does with an answer is modelled, errors and panics included.
  \<open>Observed\<close>, the snapshot, interprets the watcher's interface \<open>chain_view\<close>.
\<close>

definition ZAT :: i128 where
  "ZAT = 10000000000"

datatype network = Testnet | Regtest | Mainnet

datatype rpc_error =
  RpcIo | RpcMalformed string | RpcNode bytes | RefusingMainnet
  | WrongChain bytes bytes | NonIntegerAmount

record node_tree_state =
  ts_height :: u64
  ts_final_root :: bytes
  ts_final_state :: bytes

record chain_info =
  ci_blocks :: u64
  ci_estimated :: u64
  ci_chain :: bytes

record utxo =
  ut_txid :: bytes
  ut_index :: u32
  ut_value :: u64
  ut_height :: u64
  ut_script :: bytes

record forced_sighting =
  fs_txid :: txid
  fs_height :: u64
  fs_amount :: fixed
  fs_frame :: bytes

record observed =
  ob_tip :: u64
  ob_deposits :: "(u64, observed_deposit list) bmap"
  ob_forced :: "forced_sighting list"

section \<open>Helpers\<close>

text \<open>\<open>str::get(i..j)\<close>, which is \<open>None\<close> where the slice would panic.\<close>

definition str_get :: "nat \<Rightarrow> nat \<Rightarrow> bytes \<Rightarrow> bytes option" where
  "str_get i j s = str_slice i j s"

fun collect_options :: "'a option list \<Rightarrow> 'a list option" where
  "collect_options [] = Some []"
| "collect_options (x # xs) = do { y \<leftarrow> x; ys \<leftarrow> collect_options xs; Some (y # ys) }"

definition unhex :: "bytes \<Rightarrow> bytes option" where
  "unhex s =
    (if length s mod 2 \<noteq> 0 then None
     else collect_options (map (\<lambda>i. do { p \<leftarrow> str_get (i * 2) (i * 2 + 2) s; hex_u8 p })
       [0..<length s div 2]))"

definition hex32 :: "bytes \<Rightarrow> bytes option" where
  "hex32 s =
    (if length s \<noteq> 64 then None
     else collect_options (map (\<lambda>i. do { p \<leftarrow> str_get (i * 2) (i * 2 + 2) s; hex_u8 p }) [0..<32]))"

text \<open>\<open>haystack.windows(needle.len()).position(|w| w == needle)\<close>\<close>

definition find_bytes :: "bytes \<Rightarrow> bytes \<Rightarrow> nat option" where
  "find_bytes haystack needle =
    List.find (\<lambda>i. subs i (i + length needle) haystack = needle)
      [0..<length haystack + 1 - length needle]"

definition BASE64_T :: bytes where
  "BASE64_T = ascii ''ABCDEFGHIJKLMNOPQRSTUVWXYZabcdefghijklmnopqrstuvwxyz0123456789+/''"

definition base64_chunk :: "bytes \<Rightarrow> bytes" where
  "base64_chunk chunk =
    (let at = (\<lambda>i. if i < length chunk then chunk ! i else 0);
         n = push_bit 16 (ucast (chunk ! 0) :: u32) OR push_bit 8 (ucast (at 1)) OR ucast (at 2);
         char = (\<lambda>k. BASE64_T ! unat (drop_bit k n AND 63))
     in [char 18, char 12,
         if 1 < length chunk then char 6 else of_char CHR ''='',
         if 2 < length chunk then char 0 else of_char CHR ''=''])"

fun base64 :: "bytes \<Rightarrow> bytes" where
  "base64 [] = []"
| "base64 (a # r) = base64_chunk (take 3 (a # r)) @ base64 (drop 2 r)"

section \<open>The client\<close>

record 'j json_ops =
  js_get :: "'j \<Rightarrow> bytes \<Rightarrow> 'j option"
  js_pointer :: "'j \<Rightarrow> bytes \<Rightarrow> 'j option"
  js_u64 :: "'j \<Rightarrow> u64 option"
  js_i64 :: "'j \<Rightarrow> 64 word option"
  js_str :: "'j \<Rightarrow> bytes option"
  js_array :: "'j \<Rightarrow> 'j list option"
  js_is_null :: "'j \<Rightarrow> bool"
  js_text :: "'j \<Rightarrow> bytes"

datatype rpc_param = PStr bytes | PNum u64 | PAddresses "bytes list" | PRange "bytes list" u64 u64

type_synonym 'j rpc = "string \<Rightarrow> rpc_param list \<Rightarrow> rpc_error + 'j"

record zebra =
  zb_host :: bytes
  zb_port :: u16
  zb_auth :: "bytes option"
  zb_network :: network

definition zebra_connect :: "bytes \<Rightarrow> u16 \<Rightarrow> (bytes \<times> bytes) option \<Rightarrow> network \<Rightarrow> zebra" where
  "zebra_connect host port auth net =
    \<lparr> zb_host = host, zb_port = port,
      zb_auth = map_option (\<lambda>(u, p). base64 (u @ ascii '':'' @ p)) auth, zb_network = net \<rparr>"

definition zebra_connect_reader :: "bytes \<Rightarrow> u16 \<Rightarrow> (bytes \<times> bytes) option \<Rightarrow> network \<Rightarrow> zebra" where
  "zebra_connect_reader host port auth net =
    \<lparr> zb_host = host, zb_port = port,
      zb_auth = map_option (\<lambda>(u, p). base64 (u @ ascii '':'' @ p)) auth, zb_network = net \<rparr>"

text \<open>The request \<open>call\<close> writes around a JSON body.\<close>

definition http_lines :: "zebra \<Rightarrow> bytes \<Rightarrow> bytes list" where
  "http_lines z body =
    [ascii ''POST / HTTP/1.1'', ascii ''Host: '' @ zb_host z @ ascii '':'' @ decimal (unat (zb_port z)),
     ascii ''Content-Type: application/json'', ascii ''Content-Length: '' @ decimal (length body),
     ascii ''Connection: close'']
    @ (case zb_auth z of Some a \<Rightarrow> [ascii ''Authorization: Basic '' @ a] | None \<Rightarrow> [])"

definition http_request :: "zebra \<Rightarrow> bytes \<Rightarrow> bytes" where
  "http_request z body = concat (map (\<lambda>line. line @ [13, 10]) (http_lines z body)) @ [13, 10] @ body"

text \<open>What \<open>call\<close> makes of the bytes it read back; \<open>parse\<close> is the JSON parser.\<close>

definition call_reply :: "'j json_ops \<Rightarrow> (bytes \<Rightarrow> 'j option) \<Rightarrow> bytes \<Rightarrow> rpc_error + 'j" where
  "call_reply J parse raw =
    and_then (ok_or (find_bytes raw [13, 10, 13, 10]) (RpcMalformed ''no header terminator'')) (\<lambda>split.
    and_then (ok_or (parse (drop (split + 4) raw)) (RpcMalformed ''not json'')) (\<lambda>v.
      case js_get J v (ascii ''error'') of
        Some e \<Rightarrow> if \<not> js_is_null J e then Err (RpcNode (js_text J e))
          else ok_or (js_get J v (ascii ''result'')) (RpcMalformed ''no result'')
      | None \<Rightarrow> ok_or (js_get J v (ascii ''result'')) (RpcMalformed ''no result'')))"

text \<open>The whole call: \<open>render\<close> writes the JSON-RPC object of a method and its parameters, \<open>socket\<close> connects,
  sends, and brings back what is read to the end, or fails.\<close>

definition zebra_call ::
  "'j json_ops \<Rightarrow> (string \<Rightarrow> rpc_param list \<Rightarrow> bytes) \<Rightarrow> (bytes \<Rightarrow> 'j option) \<Rightarrow> (bytes \<Rightarrow> u16 \<Rightarrow> bytes \<Rightarrow> bytes option)
    \<Rightarrow> zebra \<Rightarrow> 'j rpc" where
  "zebra_call J render parse socket z method params =
    and_then (ok_or (socket (zb_host z) (zb_port z) (http_request z (render method params))) RpcIo) (call_reply J parse)"

definition chain_info_of :: "'j json_ops \<Rightarrow> 'j rpc \<Rightarrow> rpc_error + chain_info" where
  "chain_info_of J rpc =
    and_then (rpc ''getblockchaininfo'' []) (\<lambda>v.
    and_then (ok_or (Option.bind (js_get J v (ascii ''blocks'')) (js_u64 J)) (RpcMalformed ''blocks'')) (\<lambda>blocks.
      let est = (case Option.bind (js_get J v (ascii ''estimatedheight'')) (js_u64 J) of
            None \<Rightarrow> blocks | Some e \<Rightarrow> e);
          ch = (case Option.bind (js_get J v (ascii ''chain'')) (js_str J) of None \<Rightarrow> [] | Some s \<Rightarrow> s)
      in Ok \<lparr> ci_blocks = blocks, ci_estimated = max est blocks, ci_chain = ch \<rparr>))"

definition verify_network :: "'j json_ops \<Rightarrow> 'j rpc \<Rightarrow> zebra \<Rightarrow> rpc_error + unit" where
  "verify_network J rpc z =
    and_then (chain_info_of J rpc) (\<lambda>info.
      let want = (case zb_network z of
            Mainnet \<Rightarrow> ascii ''main'' | Testnet \<Rightarrow> ascii ''test'' | Regtest \<Rightarrow> ascii ''regtest'')
      in if ci_chain info \<noteq> want then Err (WrongChain want (ci_chain info)) else Ok ())"

definition block_count :: "'j json_ops \<Rightarrow> 'j rpc \<Rightarrow> rpc_error + u64" where
  "block_count J rpc =
    and_then (rpc ''getblockcount'' []) (\<lambda>v. ok_or (js_u64 J v) (RpcMalformed ''block count''))"

definition address_txids ::
  "'j json_ops \<Rightarrow> 'j rpc \<Rightarrow> bytes list \<Rightarrow> u64 \<Rightarrow> u64 \<Rightarrow> rpc_error + bytes list" where
  "address_txids J rpc addresses start end' =
    and_then (rpc ''getaddresstxids'' [PRange addresses start end']) (\<lambda>v.
    and_then (ok_or (js_array J v) (RpcMalformed ''txid list'')) (\<lambda>arr.
      Ok (List.map_filter (js_str J) arr)))"

definition raw_transaction :: "'j rpc \<Rightarrow> bytes \<Rightarrow> rpc_error + 'j" where
  "raw_transaction rpc txid = rpc ''getrawtransaction'' [PStr txid, PNum 1]"

definition raw_block :: "'j json_ops \<Rightarrow> 'j rpc \<Rightarrow> bytes \<Rightarrow> rpc_error + bytes" where
  "raw_block J rpc height_text =
    and_then (rpc ''getblock'' [PStr height_text, PNum 0]) (\<lambda>v.
    and_then (ok_or (js_str J v) (RpcMalformed ''raw block'')) (\<lambda>hex.
      ok_or (unhex hex) (RpcMalformed ''raw block is not hex'')))"

definition block_hash :: "'j json_ops \<Rightarrow> 'j rpc \<Rightarrow> u64 \<Rightarrow> rpc_error + bytes" where
  "block_hash J rpc height =
    and_then (rpc ''getblockhash'' [PNum height]) (\<lambda>v.
    and_then (ok_or (js_str J v) (RpcMalformed ''block hash'')) (\<lambda>hex.
    and_then (ok_or (unhex hex) (RpcMalformed ''block hash is not hex'')) (\<lambda>raw.
      if is_array 32 raw then Ok raw else Err (RpcMalformed ''block hash is not 32 bytes''))))"

definition block_txids :: "'j json_ops \<Rightarrow> 'j rpc \<Rightarrow> bytes \<Rightarrow> rpc_error + bytes list" where
  "block_txids J rpc height_text =
    and_then (rpc ''getblock'' [PStr height_text, PNum 1]) (\<lambda>v.
    and_then (ok_or (Option.bind (js_get J v (ascii ''tx'')) (js_array J))
        (RpcMalformed ''block has no tx list'')) (\<lambda>txs.
      Ok (List.map_filter (js_str J) txs)))"

definition raw_transaction_bytes :: "'j json_ops \<Rightarrow> 'j rpc \<Rightarrow> bytes \<Rightarrow> rpc_error + bytes" where
  "raw_transaction_bytes J rpc txid =
    and_then (rpc ''getrawtransaction'' [PStr txid, PNum 0]) (\<lambda>v.
    and_then (ok_or (js_str J v) (RpcMalformed ''raw transaction'')) (\<lambda>hex.
      ok_or (unhex hex) (RpcMalformed ''raw transaction is not hex'')))"

datatype value_pool = Orchard | Ironwood

definition tree_state_of ::
  "'j json_ops \<Rightarrow> 'j rpc \<Rightarrow> u64 \<Rightarrow> bytes \<Rightarrow> value_pool \<Rightarrow> rpc_error + node_tree_state" where
  "tree_state_of J rpc height height_text pool =
    and_then (rpc ''z_gettreestate'' [PStr height_text]) (\<lambda>v.
    let key = (case pool of Orchard \<Rightarrow> ascii ''orchard'' | Ironwood \<Rightarrow> ascii ''ironwood'')
    in and_then (ok_or (Option.bind (js_get J v key) (\<lambda>p. js_get J p (ascii ''commitments'')))
        (RpcMalformed ''pool commitments'')) (\<lambda>c.
    and_then (ok_or (Option.bind (js_get J c (ascii ''finalRoot'')) (js_str J))
        (RpcMalformed ''finalRoot'')) (\<lambda>root_hex.
    and_then (ok_or (Option.bind (unhex root_hex) (\<lambda>b. if is_array 32 b then Some b else None))
        (RpcMalformed ''finalRoot width'')) (\<lambda>final_root.
    and_then (ok_or (Option.bind (Option.bind (js_get J c (ascii ''finalState'')) (js_str J)) unhex)
        (RpcMalformed ''finalState'')) (\<lambda>final_state.
      Ok \<lparr> ts_height = height, ts_final_root = final_root, ts_final_state = final_state \<rparr>)))))"

definition tree_state :: "'j json_ops \<Rightarrow> 'j rpc \<Rightarrow> u64 \<Rightarrow> bytes \<Rightarrow> rpc_error + node_tree_state" where
  "tree_state J rpc height height_text = tree_state_of J rpc height height_text Orchard"

text \<open>\<open>str::contains\<close>; lower-casing matters only for the ASCII letters of the needle.\<close>

definition contains_bytes :: "bytes \<Rightarrow> bytes \<Rightarrow> bool" where
  "contains_bytes s needle \<longleftrightarrow> find_bytes s needle \<noteq> None"

definition lower :: "bytes \<Rightarrow> bytes" where
  "lower s = map (\<lambda>c. if 0x41 \<le> c \<and> c \<le> 0x5A then c + 0x20 else c) s"

definition confirmations :: "'j json_ops \<Rightarrow> 'j rpc \<Rightarrow> bytes \<Rightarrow> rpc_error + u64 option" where
  "confirmations J rpc txid =
    (let found = (\<lambda>v. case Option.bind (js_get J v (ascii ''confirmations'')) (js_u64 J) of
            Some c \<Rightarrow> Ok (Some c)
          | None \<Rightarrow>
            (case Option.bind (js_get J v (ascii ''height'')) (js_i64 J) of
               Some h \<Rightarrow> if 0 < sint h
                 then and_then (block_count J rpc) (\<lambda>tip. Ok (Some (saturating_sub tip h + 1)))
                 else Ok (Some 0)
             | None \<Rightarrow> Ok (Some 0)))
     in case rpc ''getrawtransaction'' [PStr txid, PNum 1] of
          Inr v \<Rightarrow> found v
        | Inl (RpcNode e) \<Rightarrow>
            if contains_bytes e (ascii ''-5'') \<or> contains_bytes (lower e) (ascii ''not found'')
            then Ok None else Err (RpcNode e)
        | Inl e \<Rightarrow> Err e)"

definition send_raw_transaction :: "'j json_ops \<Rightarrow> 'j rpc \<Rightarrow> bytes \<Rightarrow> rpc_error + bytes" where
  "send_raw_transaction J rpc hex =
    and_then (rpc ''sendrawtransaction'' [PStr hex]) (\<lambda>v. ok_or (js_str J v) (RpcMalformed ''txid''))"

text \<open>One unspent output. The script is sliced two bytes at a time, which panics on an odd length
  or off a boundary; the transaction id is read back to front.\<close>

fun script_bytes :: "bytes \<Rightarrow> nat list \<Rightarrow> (rpc_error + bytes) run" where
  "script_bytes hex [] = Some (Ok [])"
| "script_bytes hex (i # is) = do {
     pair \<leftarrow> str_slice i (i + 2) hex;
     case hex_u8 pair of
       None \<Rightarrow> Some (Err (RpcMalformed ''utxo script''))
     | Some b \<Rightarrow> do { r \<leftarrow> script_bytes hex is; Some (and_then r (\<lambda>out. Ok (b # out))) }
   }"

definition utxo_txid :: "bytes \<Rightarrow> bytes option" where
  "utxo_txid hex =
    collect_options (map (\<lambda>i. do { p \<leftarrow> str_get (62 - i * 2) (62 - i * 2 + 2) hex; hex_u8 p }) [0..<32])"

definition utxo_of :: "'j json_ops \<Rightarrow> 'j \<Rightarrow> (rpc_error + utxo) run" where
  "utxo_of J u =
    (case and_then (ok_or (Option.bind (js_get J u (ascii ''txid'')) (js_str J)) (RpcMalformed ''utxo txid''))
        (\<lambda>hex. ok_or (utxo_txid hex) (RpcMalformed ''utxo txid'')) of
       Inl e \<Rightarrow> Some (Err e)
     | Inr txid \<Rightarrow>
       let script_hex = (case Option.bind (js_get J u (ascii ''script'')) (js_str J) of
             None \<Rightarrow> [] | Some s \<Rightarrow> s)
       in do {
         script \<leftarrow> script_bytes script_hex (map (\<lambda>k. 2 * k) [0..<(length script_hex + 1) div 2]);
         Some (and_then script (\<lambda>script.
           and_then (ok_or (Option.bind (js_get J u (ascii ''outputIndex'')) (js_u64 J))
             (RpcMalformed ''utxo index'')) (\<lambda>index.
           and_then (ok_or (Option.bind (js_get J u (ascii ''satoshis'')) (js_u64 J))
             (RpcMalformed ''utxo value'')) (\<lambda>value.
             Ok \<lparr> ut_txid = txid, ut_index = ucast index, ut_value = value,
               ut_height = (case Option.bind (js_get J u (ascii ''height'')) (js_u64 J) of
                 None \<Rightarrow> 0 | Some h \<Rightarrow> h),
               ut_script = script \<rparr>))))
       })"

fun utxos_of :: "'j json_ops \<Rightarrow> 'j list \<Rightarrow> (rpc_error + utxo list) run" where
  "utxos_of J [] = Some (Ok [])"
| "utxos_of J (u # us) = do {
     r \<leftarrow> utxo_of J u;
     case r of
       Inl e \<Rightarrow> Some (Err e)
     | Inr x \<Rightarrow> do { rs \<leftarrow> utxos_of J us; Some (and_then rs (\<lambda>xs. Ok (x # xs))) }
   }"

definition address_utxos :: "'j json_ops \<Rightarrow> 'j rpc \<Rightarrow> bytes \<Rightarrow> (rpc_error + utxo list) run" where
  "address_utxos J rpc address =
    (case and_then (rpc ''getaddressutxos'' [PAddresses [address]])
        (\<lambda>v. ok_or (js_array J v) (RpcMalformed ''utxo list'')) of
       Inl e \<Rightarrow> Some (Err e)
     | Inr arr \<Rightarrow> utxos_of J arr)"

section \<open>The snapshot\<close>

definition push_deposit ::
  "observed_deposit \<Rightarrow> (u64, observed_deposit list) bmap \<Rightarrow> (u64, observed_deposit list) bmap" where
  "push_deposit d m =
    bm_insert (od_height d) ((case bm_get m (od_height d) of None \<Rightarrow> [] | Some ds \<Rightarrow> ds) @ [d]) m"

definition observed_new :: "u64 \<Rightarrow> observed_deposit list \<Rightarrow> observed" where
  "observed_new tip deposits =
    \<lparr> ob_tip = tip, ob_deposits = fold push_deposit deposits bm_empty, ob_forced = [] \<rparr>"

definition set_forced :: "forced_sighting list \<Rightarrow> observed \<Rightarrow> observed" where
  "set_forced forced ob = ob \<lparr> ob_forced := forced \<rparr>"

definition observed_deposits_at :: "observed \<Rightarrow> u64 \<Rightarrow> observed_deposit list" where
  "observed_deposits_at ob h = (case bm_get (ob_deposits ob) h of None \<Rightarrow> [] | Some ds \<Rightarrow> ds)"

fun add_amounts :: "fixed \<Rightarrow> observed_deposit list \<Rightarrow> fixed option" where
  "add_amounts acc [] = Some acc"
| "add_amounts acc (d # ds) = do { t \<leftarrow> fixed_add acc (od_amount d); add_amounts t ds }"

fun total_to :: "u64 \<Rightarrow> (u64, observed_deposit list) bmap \<Rightarrow> fixed \<Rightarrow> fixed option" where
  "total_to height [] acc = Some acc"
| "total_to height ((h, ds) # m) acc =
    (if height < h then Some acc
     else do { t \<leftarrow> add_amounts acc ds; total_to height m t })"

definition observed_balance_at :: "observed \<Rightarrow> u64 \<Rightarrow> fixed option" where
  "observed_balance_at ob height =
    (if ob_tip ob < height then None else total_to height (ob_deposits ob) fixed_zero)"

definition observed_view :: "observed \<Rightarrow> chain" where
  "observed_view ob = \<lparr> cv_tip = ob_tip ob, cv_deposits_at = observed_deposits_at ob,
    cv_balance_at = observed_balance_at ob, cv_failed = False, cv_balance_of = (\<lambda>_ _. None) \<rparr>"

section \<open>Observing\<close>

fun credit_addresses ::
  "'j json_ops \<Rightarrow> (bytes, account_id) bmap \<Rightarrow> (account_id \<Rightarrow> observed_deposit) \<Rightarrow> 'j list
    \<Rightarrow> (u64, observed_deposit list) bmap \<Rightarrow> (u64, observed_deposit list) bmap" where
  "credit_addresses J addresses deposit [] m = m"
| "credit_addresses J addresses deposit (a # as) m =
    credit_addresses J addresses deposit as
      (case Option.bind (js_str J a) (bm_get addresses) of
         None \<Rightarrow> m
       | Some account \<Rightarrow> push_deposit (deposit account) m)"

fun observe_outputs ::
  "'j json_ops \<Rightarrow> (bytes, account_id) bmap \<Rightarrow> txid \<Rightarrow> u64 \<Rightarrow> 'j list
    \<Rightarrow> (u64, observed_deposit list) bmap \<Rightarrow> rpc_error + (u64, observed_deposit list) bmap" where
  "observe_outputs J addresses txid height [] m = Ok m"
| "observe_outputs J addresses txid height (out # outs) m =
    and_then (ok_or (Option.bind
        (case js_get J out (ascii ''valueZat'') of
           Some v \<Rightarrow> Some v | None \<Rightarrow> js_get J out (ascii ''valueSat'')) (js_i64 J))
      NonIntegerAmount) (\<lambda>zat.
    case Option.bind (js_pointer J out (ascii ''/scriptPubKey/addresses'')) (js_array J) of
      None \<Rightarrow> observe_outputs J addresses txid height outs m
    | Some addrs \<Rightarrow>
        observe_outputs J addresses txid height outs
          (credit_addresses J addresses
            (\<lambda>account. \<lparr> od_txid = txid, od_account = account, od_amount = Fixed (signed zat * ZAT),
               od_height = height, od_asset = None \<rparr>) addrs m))"

fun observe_txids ::
  "'j json_ops \<Rightarrow> 'j rpc \<Rightarrow> (bytes, account_id) bmap \<Rightarrow> bytes list
    \<Rightarrow> (u64, observed_deposit list) bmap \<Rightarrow> rpc_error + (u64, observed_deposit list) bmap" where
  "observe_txids J rpc addresses [] m = Ok m"
| "observe_txids J rpc addresses (txid # txids) m =
    and_then (raw_transaction rpc txid) (\<lambda>tx.
      let height = (case Option.bind (js_get J tx (ascii ''height'')) (js_u64 J) of
            None \<Rightarrow> 0 | Some h \<Rightarrow> h)
      in case Option.bind (js_get J tx (ascii ''vout'')) (js_array J) of
           None \<Rightarrow> observe_txids J rpc addresses txids m
         | Some vout \<Rightarrow>
           and_then (ok_or (hex32 txid) (RpcMalformed ''txid is not 32 bytes'')) (\<lambda>id.
           and_then (observe_outputs J addresses id height vout m) (\<lambda>m'.
             observe_txids J rpc addresses txids m')))"

definition observe ::
  "'j json_ops \<Rightarrow> 'j rpc \<Rightarrow> zebra \<Rightarrow> (bytes, account_id) bmap \<Rightarrow> u64 \<Rightarrow> rpc_error + observed" where
  "observe J rpc z addresses from_h =
    (if zb_network z = Mainnet then Err RefusingMainnet
     else and_then (block_count J rpc) (\<lambda>tip.
       let keys = bm_keys addresses
       in and_then
            (if keys \<noteq> [] \<and> from_h \<le> tip
             then and_then (address_txids J rpc keys from_h tip) (\<lambda>txids.
               observe_txids J rpc addresses txids bm_empty)
             else Ok bm_empty) (\<lambda>deposits.
          Ok \<lparr> ob_tip = tip, ob_deposits = deposits, ob_forced = [] \<rparr>)))"

section \<open>The snapshot keeps the watcher's contract\<close>

text \<open>Entries in order, each deposit under its own height, nothing negative.\<close>

definition deposits_ok :: "(u64, observed_deposit list) bmap \<Rightarrow> bool" where
  "deposits_ok m \<longleftrightarrow> bm_ok m \<and>
    (\<forall>e \<in> set m. \<forall>d \<in> set (snd e). od_height d = fst e \<and> 0 \<le> raw_value (od_amount d))"

definition observed_ok :: "observed \<Rightarrow> bool" where
  "observed_ok ob \<longleftrightarrow> deposits_ok (ob_deposits ob)"

lemma deposits_ok_get:
  "deposits_ok m \<Longrightarrow> bm_get m h = Some ds \<Longrightarrow> d \<in> set ds \<Longrightarrow>
    od_height d = h \<and> 0 \<le> raw_value (od_amount d)"
  using bm_get_SomeD [of m h ds] by (auto simp: deposits_ok_def)

definition amounts :: "observed_deposit list \<Rightarrow> int" where
  "amounts ds = sum_list (map (\<lambda>d. raw_value (od_amount d)) ds)"

lemma fixed_add_Some: "fixed_add a b = Some c \<Longrightarrow> raw_value c = raw_value a + raw_value b"
  using sint_checked by (auto simp: fixed_add_def raw_value_def)

lemma add_amounts_Some: "add_amounts acc ds = Some t \<Longrightarrow> raw_value t = raw_value acc + amounts ds"
  by (induction ds arbitrary: acc)
    (auto simp: amounts_def dest!: fixed_add_Some split: bind_splits)

lemma total_to_Some:
  "bm_ok m \<Longrightarrow> total_to height m acc = Some t \<Longrightarrow>
    raw_value t = raw_value acc + sum_list (map (\<lambda>e. amounts (snd e)) (filter (\<lambda>e. fst e \<le> height) m))"
proof (induction m arbitrary: acc)
  case (Cons e m)
  obtain h ds where e: "e = (h, ds)" by (cases e)
  show ?case
  proof (cases "height < h")
    case True
    with Cons.prems(1) e have "filter (\<lambda>e. fst e \<le> height) (e # m) = []"
      by (auto simp: filter_empty_conv bm_ok_Cons dest: less_trans)
    with Cons.prems(2) e True show ?thesis by simp
  next
    case False
    with Cons.prems e obtain acc' where "add_amounts acc ds = Some acc'" "total_to height m acc' = Some t"
      by (auto split: bind_splits)
    with Cons.IH [of acc'] Cons.prems(1) e False show ?thesis
      by (auto simp: bm_ok_Cons dest!: add_amounts_Some)
  qed
qed simp

lemma amounts_nonneg: "\<forall>d \<in> set ds. 0 \<le> raw_value (od_amount d) \<Longrightarrow> 0 \<le> amounts ds"
  unfolding amounts_def by (rule sum_list_nonneg) auto

lemma lookup_entry:
  "bm_ok m \<Longrightarrow> (h, ds) \<in> set m \<Longrightarrow> (case bm_get m h of None \<Rightarrow> [] | Some ds \<Rightarrow> ds) = ds"
  by (simp add: bm_get_Some_iff [symmetric])

lemma sum_entries:
  assumes "bm_ok m"
  shows "sum_list (map (\<lambda>e. amounts (snd e)) (filter (\<lambda>e. fst e \<le> height) m))
    = (\<Sum>h \<in> {h \<in> fst ` set m. h \<le> height}.
        amounts (case bm_get m h of None \<Rightarrow> [] | Some ds \<Rightarrow> ds))" (is "_ = sum ?f ?K")
proof -
  let ?L = "filter (\<lambda>e. fst e \<le> height) m"
  have d: "distinct m" "inj_on fst (set m)"
    using bm_ok_distinct [OF assms] by (simp_all add: distinct_map)
  have "sum_list (map (\<lambda>e. amounts (snd e)) ?L) = (\<Sum>e \<in> set ?L. amounts (snd e))"
    using d(1) by (intro sum_list_distinct_conv_sum_set) simp
  also have "\<dots> = (\<Sum>e \<in> set ?L. ?f (fst e))"
    using lookup_entry [OF assms] by (intro sum.cong) (auto split: prod.splits)
  also have "\<dots> = sum ?f (fst ` set ?L)"
    using d(2) by (intro sum.reindex_cong [symmetric, of fst]) (auto intro: inj_on_subset)
  also have "fst ` set ?L = ?K" by auto
  finally show ?thesis .
qed

lemma positive_le_amounts:
  "\<forall>d \<in> set ds. 0 \<le> raw_value (od_amount d) \<Longrightarrow>
    sum_list (map (\<lambda>d. raw_value (od_amount d)) (filter (\<lambda>d. is_positive (od_amount d)) ds)) = amounts ds"
  by (induction ds) (auto simp: amounts_def is_positive_def raw_value_def)

lemma observed_nonneg:
  "observed_ok ob \<Longrightarrow> d \<in> set (observed_deposits_at ob h) \<Longrightarrow>
    od_height d = h \<and> 0 \<le> raw_value (od_amount d)"
  using deposits_ok_get [of "ob_deposits ob" h]
  by (cases "bm_get (ob_deposits ob) h") (auto simp: observed_ok_def observed_deposits_at_def)

lemma no_entry: "h \<notin> fst ` set (ob_deposits ob) \<Longrightarrow> observed_deposits_at ob h = []"
proof -
  assume "h \<notin> fst ` set (ob_deposits ob)"
  then have "bm_get (ob_deposits ob) h = None" by (simp add: bm_get_def map_of_eq_None_iff)
  then show ?thesis by (simp add: observed_deposits_at_def)
qed

lemma observed_covered:
  assumes ok: "observed_ok ob" and b: "observed_balance_at ob height = Some b"
    and hs: "distinct hs" "\<forall>h \<in> set hs. h \<le> height"
  shows "sum_list (map (\<lambda>d. raw_value (od_amount d))
      (filter (\<lambda>d. is_positive (od_amount d)) (concat (map (observed_deposits_at ob) hs))))
    \<le> raw_value b"
proof -
  let ?m = "ob_deposits ob"
  let ?f = "\<lambda>h. amounts (observed_deposits_at ob h)"
  have m: "bm_ok ?m" using ok by (simp add: observed_ok_def deposits_ok_def)
  have "sum_list (map (\<lambda>d. raw_value (od_amount d))
      (filter (\<lambda>d. is_positive (od_amount d)) (concat (map (observed_deposits_at ob) hs))))
    = amounts (concat (map (observed_deposits_at ob) hs))"
    using observed_nonneg [OF ok] by (intro positive_le_amounts) auto
  also have "\<dots> = sum_list (map ?f hs)"
    by (induction hs) (simp_all add: amounts_def)
  also have "\<dots> = sum ?f (set hs)" using hs(1) by (rule sum_list_distinct_conv_sum_set)
  also have "\<dots> = sum ?f (set hs \<inter> fst ` set ?m)"
    by (intro sum.mono_neutral_right)
      (auto simp: no_entry amounts_def)
  also have "\<dots> \<le> sum ?f {h \<in> fst ` set ?m. h \<le> height}"
    using hs(2) observed_nonneg [OF ok] by (intro sum_mono2 amounts_nonneg) auto
  also have "\<dots> = raw_value b"
  proof -
    have "total_to height ?m fixed_zero = Some b"
      using b by (simp add: observed_balance_at_def split: if_splits)
    from total_to_Some [OF m this] sum_entries [OF m, of height] show ?thesis
      by (simp add: observed_deposits_at_def fixed_zero_def raw_value_def)
  qed
  finally show ?thesis .
qed

interpretation node: chain_view observed_view observed_ok
  by unfold_locales (simp_all add: observed_view_def observed_nonneg observed_covered)

lemma deposits_ok_push:
  assumes "deposits_ok m" and "0 \<le> raw_value (od_amount d)"
  shows "deposits_ok (push_deposit d m)"
proof (cases "bm_get m (od_height d)")
  case None
  with assms show ?thesis by (auto simp: push_deposit_def deposits_ok_def set_bm_insert)
next
  case (Some ds)
  with assms deposits_ok_get [OF assms(1) Some] show ?thesis
    by (auto simp: push_deposit_def deposits_ok_def set_bm_insert)
qed

lemma deposits_ok_empty [simp]: "deposits_ok bm_empty"
  by (simp add: deposits_ok_def bm_empty_def)

lemma observed_ok_new:
  "\<forall>d \<in> set ds. 0 \<le> raw_value (od_amount d) \<Longrightarrow> observed_ok (observed_new tip ds)"
proof -
  have "deposits_ok m \<Longrightarrow> \<forall>d \<in> set ds. 0 \<le> raw_value (od_amount d) \<Longrightarrow>
      deposits_ok (fold push_deposit ds m)" for m
    by (induction ds arbitrary: m) (simp_all add: deposits_ok_push)
  then show "\<forall>d \<in> set ds. 0 \<le> raw_value (od_amount d) \<Longrightarrow> ?thesis"
    by (simp add: observed_ok_def observed_new_def)
qed

section \<open>Properties\<close>

text \<open>Over a node snapshot the watcher never credits more than it attests: the credits of a
  batch add up to at most the balance attested in front of them, and every credited transaction
  is one of the snapshot's deposits, above the heights scanned before, for a named account and a
  positive amount, and buried under the confirmations the watcher demands.\<close>

theorem batch_backed_and_confirmed:
  assumes "observed_ok ob" and "poll w (observed_view ob) = (w', Ok (Attest b # acts))"
  shows "credited_total acts \<le> raw_value b \<and>
    (\<forall>r \<in> set (credited_refs acts). \<exists>d.
       d \<in> set (observed_deposits_at ob (od_height d)) \<and> od_txid d = r \<and> reportable w d \<and> w_scanned_to w < od_height d \<and>
       unat (od_height d) + (unat (w_confirmations w) - 1) \<le> unat (ob_tip ob))"
proof -
  have "credited_refs (Attest b # acts) = credited_refs acts" by simp
  then show ?thesis
    using node.attested_covers [OF assms] node.credited_buried [OF assms]
    by (auto simp: observed_view_def)
qed

text \<open>A snapshot of one deposit.\<close>

definition one_observed :: observed where
  "one_observed = observed_new 3 [one_deposit]"

lemma one_observed_at:
  "observed_deposits_at one_observed h = (if h = 1 then [one_deposit] else [])"
  "observed_balance_at one_observed 3 = Some fixed_one"
  by (simp_all add: one_observed_def observed_new_def push_deposit_def one_deposit_def
      observed_deposits_at_def observed_balance_at_def bm_empty_def bm_get_def fixed_add_def
      fixed_zero_def fixed_one_def WAD_def checked_i128_def)

lemma one_observed_poll:
  "\<exists>w'. poll (watcher_new 1 0) (observed_view one_observed) = (w', Ok [Attest fixed_one,
    Credit (replicate 32 1) fixed_one 0 (replicate 32 9) None])"
proof -
  have "ob_tip one_observed = 3" by (simp add: one_observed_def observed_new_def)
  then show ?thesis
    by (simp add: poll_def observed_view_def one_observed_at safe_height_def watcher_new_def
        checked_sub_def saturating_sub_def fresh_deposits_def scan_range_def heights_def
        reportable_def one_deposit_def is_positive_def fixed_one_def WAD_def map_filter_def
        Let_def zeros_def upt_rec)
qed

theorem batch_backed_and_confirmed_witness:
  "credited_total [Credit (replicate 32 1) fixed_one 0 (replicate 32 9) None] \<le> raw_value fixed_one"
proof -
  have "observed_ok one_observed"
    unfolding one_observed_def
    by (rule observed_ok_new) (simp add: one_deposit_def raw_value_def fixed_one_def WAD_def)
  moreover obtain w' where "poll (watcher_new 1 0) (observed_view one_observed) = (w', Ok
      (Attest fixed_one # [Credit (replicate 32 1) fixed_one 0 (replicate 32 9) None]))"
    using one_observed_poll by blast
  ultimately show ?thesis by (rule batch_backed_and_confirmed [THEN conjunct1])
qed

text \<open>What \<open>observe\<close> returns keeps the snapshot's contract. Mainnet is refused before any
  call; otherwise, as long as the node reports no negative amount, every deposit lies under its
  own height, so the watcher's guarantees hold of the snapshot.\<close>

theorem observe_keeps_contract:
  assumes "\<And>out v z. js_i64 J v = Some z \<Longrightarrow> 0 \<le> sint z"
  shows "(zb_network z = Mainnet \<longrightarrow> observe J rpc z addresses from_h = Err RefusingMainnet) \<and>
    (\<forall>ob. observe J rpc z addresses from_h = Ok ob \<longrightarrow> observed_ok ob \<and> block_count J rpc = Ok (ob_tip ob))"
proof -
  have raw: "0 \<le> raw_value (Fixed (signed (zat :: 64 word) * ZAT))" if "0 \<le> sint zat" for zat
  proof -
    have "sint zat < 2 ^ 63" using sint_lt [of zat] by simp
    then have "sint zat * 10 ^ 10 < 2 ^ 127" "- (2 ^ 127) \<le> sint zat * 10 ^ 10" using that by simp_all
    then have "checked_i128 (sint zat * 10 ^ 10) = Some (word_of_int (sint zat * 10 ^ 10))"
      unfolding checked_i128_def by simp
    then have "sint (word_of_int (sint zat * 10 ^ 10) :: i128) = sint zat * 10 ^ 10"
      by (simp only: sint_checked)
    moreover have "signed zat * ZAT = word_of_int (sint zat * 10 ^ 10)"
      by (simp add: ZAT_def)
    ultimately show ?thesis using that by (simp add: raw_value_def)
  qed
  have addrs: "deposits_ok m \<Longrightarrow> (\<And>account. 0 \<le> raw_value (od_amount (deposit account))) \<Longrightarrow>
      deposits_ok (credit_addresses J addresses deposit as m)" for deposit "as" m
    by (induction "as" arbitrary: m) (auto simp: deposits_ok_push split: option.splits)
  have outs: "deposits_ok m \<Longrightarrow> observe_outputs J addresses txid height outs m = Ok m' \<Longrightarrow> deposits_ok m'"
    for txid height outs m m'
  proof (induction outs arbitrary: m)
    case (Cons out outs)
    have step: "deposits_ok (credit_addresses J addresses
        (\<lambda>account. \<lparr> od_txid = txid, od_account = account, od_amount = Fixed (signed zat * ZAT),
           od_height = height, od_asset = None \<rparr>) addrs m)"
      if "js_i64 J v = Some zat" for v zat addrs
      using Cons.prems(1) raw [OF assms [OF that]] by (intro addrs) simp_all
    from Cons.prems(2) obtain zat v m1 where v: "js_i64 J v = Some zat"
      and m1: "observe_outputs J addresses txid height outs m1 = Ok m'"
      and "m1 = m \<or> (\<exists>addrs. m1 = credit_addresses J addresses
        (\<lambda>account. \<lparr> od_txid = txid, od_account = account, od_amount = Fixed (signed zat * ZAT),
           od_height = height, od_asset = None \<rparr>) addrs m)"
      by (auto simp: result_simps bind_eq_Some_conv split: option.splits) blast+
    with step [OF v] Cons.prems(1) have "deposits_ok m1" by auto
    with m1 show ?case by (intro Cons.IH)
  qed simp
  have txids: "deposits_ok m \<Longrightarrow> observe_txids J rpc addresses txids m = Ok m' \<Longrightarrow> deposits_ok m'"
    for txids m m'
  proof (induction txids arbitrary: m)
    case (Cons txid txids)
    from Cons.prems(2) obtain m1 where "observe_txids J rpc addresses txids m1 = Ok m'"
      and "m1 = m \<or> (\<exists>id h vout. observe_outputs J addresses id h vout m = Ok m1)"
      by (auto simp: result_simps Let_def split: option.splits) blast+
    with outs [OF Cons.prems(1)] Cons.prems(1) have "deposits_ok m1" by blast
    with \<open>observe_txids J rpc addresses txids m1 = Ok m'\<close> show ?case by (intro Cons.IH)
  qed simp
  have "observed_ok ob \<and> block_count J rpc = Ok (ob_tip ob)"
    if "observe J rpc z addresses from_h = Ok ob" for ob
    using that txids [OF deposits_ok_empty]
    by (auto simp: observe_def result_simps Let_def observed_ok_def split: if_splits)
  then show ?thesis by (simp add: observe_def)
qed

text \<open>A JSON in which every value is the number 5.\<close>

definition five_json :: "unit json_ops" where
  "five_json = \<lparr> js_get = (\<lambda>_ _. None), js_pointer = (\<lambda>_ _. None), js_u64 = (\<lambda>_. Some 5),
    js_i64 = (\<lambda>_. Some 5), js_str = (\<lambda>_. None), js_array = (\<lambda>_. None),
    js_is_null = (\<lambda>_. False), js_text = (\<lambda>_. []) \<rparr>"

theorem observe_keeps_contract_witness:
  "\<exists>ob. observe five_json (\<lambda>_ _. Ok ()) (zebra_connect [] 0 None Testnet) [] 0 = Ok ob \<and>
    observed_ok ob \<and> ob_tip ob = 5"
proof -
  have "\<exists>ob. observe five_json (\<lambda>_ _. Ok ()) (zebra_connect [] 0 None Testnet) [] 0 = Ok ob \<and> ob_tip ob = 5"
    by (simp add: observe_def zebra_connect_def block_count_def five_json_def bm_keys_def)
  moreover have "0 \<le> sint z" if "js_i64 five_json v = Some z" for v z
    using that by (auto simp: five_json_def)
  ultimately show ?thesis
    using observe_keeps_contract [of five_json "zebra_connect [] 0 None Testnet" "\<lambda>_ _. Ok ()" "[]" 0,
      THEN conjunct2] by fastforce
qed

section \<open>The request on the wire\<close>

text \<open>A reader is connected like a custodian: neither refuses a network.\<close>

lemma reader_connects_alike: "zebra_connect_reader = zebra_connect"
  by (intro ext) (simp add: zebra_connect_reader_def zebra_connect_def)

lemma find_bytes_Cons:
  "length n \<le> length h \<Longrightarrow> find_bytes (x # h) n = (if take (length n) (x # h) = n then Some 0 else map_option Suc (find_bytes h n))"
proof -
  assume l: "length n \<le> length h"
  have "[0..<length (x # h) + 1 - length n] = 0 # map Suc [0..<length h + 1 - length n]"
    using l by (simp add: map_Suc_upt upt_conv_Cons Suc_diff_le del: upt_Suc)
  moreover have "List.find P (map Suc xs) = map_option Suc (List.find (P \<circ> Suc) xs)" for P xs
    by (induction xs) auto
  ultimately show ?thesis by (simp add: find_bytes_def subs_def comp_def)
qed

abbreviation blank_line :: bytes where
  "blank_line \<equiv> [13, 10, 13, 10]"

lemma find_past:
  "13 \<notin> set l \<Longrightarrow> 4 \<le> length r \<Longrightarrow> find_bytes (l @ r) blank_line = map_option (\<lambda>i. length l + i) (find_bytes r blank_line)"
proof (induction l)
  case (Cons x l)
  then show ?case by (simp add: find_bytes_Cons) (cases "find_bytes r blank_line"; simp)
next
  case Nil
  then show ?case by (cases "find_bytes r blank_line") simp_all
qed

text \<open>In a head of non-empty lines without carriage returns, the first blank line is the one that ends it.\<close>

lemma head_ends:
  "lines \<noteq> [] \<Longrightarrow> \<forall>l \<in> set lines. l \<noteq> [] \<and> 13 \<notin> set l \<Longrightarrow>
    find_bytes (concat (map (\<lambda>line. line @ [13, 10]) lines) @ [13, 10] @ body) blank_line
      = Some (length (concat (map (\<lambda>line. line @ [13, 10]) lines)) - 2)"
proof (induction lines)
  case (Cons l ls)
  let ?rest = "concat (map (\<lambda>line. line @ [13, 10]) ls) @ [13, 10] @ body"
  have split: "concat (map (\<lambda>line. line @ [13, 10]) (l # ls)) @ [13, 10] @ body = l @ (13 # 10 # ?rest)" by simp
  have len: "4 \<le> length (13 # 10 # ?rest)" by simp
  have find: "find_bytes (13 # 10 # ?rest) blank_line = Some (length (concat (map (\<lambda>line. line @ [13, 10]) ls)))"
  proof (cases ls)
    case Nil
    have "[0..<length body + 1] = 0 # [1..<length body + 1]" by (simp add: upt_conv_Cons del: upt_Suc)
    then show ?thesis using Nil by (simp add: find_bytes_def subs_def del: upt_Suc)
  next
    case (Cons m ms)
    then obtain y m' where m: "m = y # m'" "y \<noteq> 13" using Cons.prems(2) by (cases m) auto
    let ?t = "m' @ [13, 10] @ concat (map (\<lambda>line. line @ [13, 10]) ms) @ [13, 10] @ body"
    have rest: "?rest = y # ?t" using Cons m(1) by simp
    have "4 \<le> length ?t" by simp
    then have "find_bytes (13 # 10 # ?rest) blank_line = map_option (Suc \<circ> Suc) (find_bytes ?rest blank_line)"
      unfolding rest using m(2) by (simp add: find_bytes_Cons option.map_comp comp_assoc)
    also have "find_bytes ?rest blank_line = Some (length (concat (map (\<lambda>line. line @ [13, 10]) ls)) - 2)"
      using Cons.IH Cons.prems(2) Cons by simp
    finally show ?thesis using Cons by simp
  qed
  show ?case unfolding split
    using find_past [OF _ len, of l] find Cons.prems(2) by simp
qed simp

lemma base64_char: "BASE64_T ! unat (v AND 63 :: u32) \<noteq> 13"
proof -
  have "unat (v AND 63) \<le> unat (63 :: u32)"
    using word_and_le1 [of v 63] by (simp only: word_le_nat_alt)
  then have "unat (v AND 63) < 64" by simp
  moreover have "\<forall>c \<in> set BASE64_T. c \<noteq> 13" "length BASE64_T = 64" by code_simp+
  ultimately show ?thesis by (metis nth_mem)
qed

lemma base64_no_cr: "13 \<notin> set (base64 b)"
proof (induction b rule: base64.induct)
  case (2 a r)
  have "13 \<notin> set (base64_chunk c)" for c
    using base64_char by (auto simp: base64_chunk_def Let_def dest: sym)
  with 2 show ?case by simp
qed simp

text \<open>
  A request carries its body exactly. For a client made by \<open>connect\<close> with a host name without line
  breaks, the head ends at the first blank line, what follows it is the body, whole and alone, and the
  head's length field says how long it is, whatever the credentials and the body hold.
\<close>

theorem request_carries_its_body:
  assumes "13 \<notin> set host"
  shows "\<exists>k. let z = zebra_connect host port auth net; req = http_request z body
    in find_bytes req blank_line = Some k \<and> drop (k + 4) req = body \<and>
      ascii ''Content-Length: '' @ decimal (length body) \<in> set (http_lines z body) \<and>
      dec_value (decimal (length body)) = length body"
proof -
  let ?z = "zebra_connect host port auth net"
  let ?head = "concat (map (\<lambda>line. line @ [13, 10]) (http_lines ?z body))"
  have digits: "13 \<notin> set (decimal n)" for n using decimal_digits [of 13 n] by (auto simp: is_digit_def)
  have "\<forall>l \<in> set (http_lines ?z body). l \<noteq> [] \<and> 13 \<notin> set l"
    using assms digits base64_no_cr
    by (cases auth) (auto simp: http_lines_def zebra_connect_def ascii_def)
  with head_ends [of "http_lines ?z body" body] have
    f: "find_bytes (http_request ?z body) blank_line = Some (length ?head - 2)"
    by (simp add: http_request_def http_lines_def)
  have "2 \<le> length ?head" by (simp add: http_lines_def)
  then have "drop (length ?head - 2 + 4) (http_request ?z body) = body" by (simp add: http_request_def)
  with f show ?thesis
    by (intro exI [of _ "length ?head - 2"]) (simp add: Let_def http_lines_def dec_value_decimal)
qed

lemma request_carries_its_body_witness:
  "\<exists>k. find_bytes (http_request (zebra_connect (ascii ''localhost'') 8232 (Some (ascii ''u'', ascii ''p'')) Testnet) [123, 125]) blank_line = Some k \<and>
    drop (k + 4) (http_request (zebra_connect (ascii ''localhost'') 8232 (Some (ascii ''u'', ascii ''p'')) Testnet) [123, 125]) = [123, 125]"
proof -
  have "13 \<notin> set (ascii ''localhost'')" by code_simp
  from request_carries_its_body [OF this, of 8232 "Some (ascii ''u'', ascii ''p'')" Testnet "[123, 125]"] show ?thesis
    by (auto simp: Let_def)
qed

end
