(* ===== verification/Ceremony.thy ===== *)
theory Ceremony
  imports Ordered_Map
begin

text \<open>
  ceremony.rs: the distributed key generation driver, and the interface to the FROST library it
  drives. The library is the record \<open>suite\<close>: identifiers are an ordered type \<open>'id\<close>, every other
  object of it (secrets, packages, nonces, commitments, shares, keys, signatures) is a value
  of one opaque type \<open>'x\<close>, and a random source is a state \<open>'r\<close> that calls consume.
\<close>

section \<open>The library\<close>

record ('id, 'x, 'r) suite =
  fr_identifier :: "u16 \<Rightarrow> 'id option"
  fr_id_ser :: "'id \<Rightarrow> bytes"
  fr_id_de :: "bytes \<Rightarrow> 'id option"
  fr_part1 :: "'id \<Rightarrow> u16 \<Rightarrow> u16 \<Rightarrow> 'r \<Rightarrow> ('x \<times> 'x) option \<times> 'r"
  fr_part2 :: "'x \<Rightarrow> ('id, 'x) bmap \<Rightarrow> ('x \<times> ('id, 'x) bmap) option"
  fr_part3 :: "'x \<Rightarrow> ('id, 'x) bmap \<Rightarrow> ('id, 'x) bmap \<Rightarrow> ('x \<times> 'x) option"
  fr_key_id :: "'x \<Rightarrow> 'id"
  fr_group_key :: "'x \<Rightarrow> 'x"
  fr_commit :: "'x \<Rightarrow> 'r \<Rightarrow> ('x \<times> 'x) \<times> 'r"
  fr_package :: "('id, 'x) bmap \<Rightarrow> bytes \<Rightarrow> 'x"
  fr_message :: "'x \<Rightarrow> bytes"
  fr_sign :: "'x \<Rightarrow> 'x \<Rightarrow> 'x \<Rightarrow> 'x option"
  fr_sign_rand :: "'x \<Rightarrow> 'x \<Rightarrow> 'x \<Rightarrow> 'x \<Rightarrow> 'x option"
  fr_aggregate :: "'x \<Rightarrow> ('id, 'x) bmap \<Rightarrow> 'x \<Rightarrow> 'x option"
  fr_params :: "'x \<Rightarrow> 'x \<Rightarrow> 'x"
  fr_aggregate_rand :: "'x \<Rightarrow> ('id, 'x) bmap \<Rightarrow> 'x \<Rightarrow> 'x \<Rightarrow> 'x option"
  fr_ser_package :: "'x \<Rightarrow> bytes option"
  fr_de_package :: "bytes \<Rightarrow> 'x option"
  fr_ser_commitments :: "'x \<Rightarrow> bytes option"
  fr_de_commitments :: "bytes \<Rightarrow> 'x option"
  fr_ser_share :: "'x \<Rightarrow> bytes"
  fr_de_share :: "bytes \<Rightarrow> 'x option"
  fr_ser_alpha :: "'x \<Rightarrow> bytes"
  fr_de_alpha :: "bytes \<Rightarrow> 'x option"
  fr_ser_key :: "'x \<Rightarrow> bytes option"
  fr_ser_signature :: "'x \<Rightarrow> bytes option"
  fr_ser_round1 :: "'x \<Rightarrow> bytes option"
  fr_de_round1 :: "bytes \<Rightarrow> 'x option"
  fr_ser_round2 :: "'x \<Rightarrow> bytes option"
  fr_de_round2 :: "bytes \<Rightarrow> 'x option"
  fr_ser_key_package :: "'x \<Rightarrow> bytes option"
  fr_de_key_package :: "bytes \<Rightarrow> 'x option"
  fr_ser_public :: "'x \<Rightarrow> bytes option"
  fr_de_public :: "bytes \<Rightarrow> 'x option"

section \<open>The ceremony\<close>

record 'x threshold_keys =
  tk_key_package :: 'x
  tk_public_package :: 'x

definition group_key :: "('id, 'x, 'r) suite \<Rightarrow> 'x threshold_keys \<Rightarrow> 'x" where
  "group_key S k = fr_group_key S (tk_public_package k)"

datatype ceremony_error =
  ThresholdNotAMajority | TooFewParticipants | Incomplete | DisagreedOnGroupKey | CeremonyCrypto

record ceremony =
  ce_threshold :: u16
  ce_participants :: u16

definition ceremony_new :: "u16 \<Rightarrow> u16 \<Rightarrow> ceremony_error + ceremony" where
  "ceremony_new threshold participants =
    (if participants < 2 then Err TooFewParticipants
     else if threshold = 0 \<or> participants < threshold then Err ThresholdNotAMajority
     else if (ucast threshold :: u32) * 2 \<le> ucast participants then Err ThresholdNotAMajority
     else Ok \<lparr> ce_threshold = threshold, ce_participants = participants \<rparr>)"

text \<open>\<open>(1..=participants).map(try_from).collect::<Result<_, _>>()\<close>\<close>

fun try_identifiers :: "('id, 'x, 'r) suite \<Rightarrow> nat list \<Rightarrow> ceremony_error + 'id list" where
  "try_identifiers S [] = Ok []"
| "try_identifiers S (i # is) =
    and_then (ok_or (fr_identifier S (of_nat i)) CeremonyCrypto) (\<lambda>pid.
    and_then (try_identifiers S is) (\<lambda>ids. Ok (pid # ids)))"

definition participant_ids :: "('id, 'x, 'r) suite \<Rightarrow> u16 \<Rightarrow> ceremony_error + 'id list" where
  "participant_ids S participants = try_identifiers S [1..<Suc (unat participants)]"

definition others_than :: "'id \<Rightarrow> ('id, 'v) bmap \<Rightarrow> ('id, 'v) bmap" where
  "others_than pid m = filter (\<lambda>e. fst e \<noteq> pid) m"

fun run_round1 ::
  "('id::linorder, 'x, 'r) suite \<Rightarrow> ceremony \<Rightarrow> 'id list \<Rightarrow> ('id, 'x) bmap \<Rightarrow> ('id, 'x) bmap \<Rightarrow> 'r
    \<Rightarrow> (ceremony_error + (('id, 'x) bmap \<times> ('id, 'x) bmap)) \<times> 'r" where
  "run_round1 S c [] secrets publics rng = (Ok (secrets, publics), rng)"
| "run_round1 S c (pid # ids) secrets publics rng =
    (case fr_part1 S pid (ce_participants c) (ce_threshold c) rng of
       (None, rng') \<Rightarrow> (Err CeremonyCrypto, rng')
     | (Some (secret, package), rng') \<Rightarrow>
         run_round1 S c ids (bm_insert pid secret secrets) (bm_insert pid package publics) rng')"

fun run_round2 ::
  "('id::linorder, 'x, 'r) suite \<Rightarrow> ('id, 'x) bmap \<Rightarrow> 'id list \<Rightarrow> ('id, 'x) bmap
    \<Rightarrow> ('id, 'x) bmap \<Rightarrow> ('id, ('id, 'x) bmap) bmap
    \<Rightarrow> ceremony_error + (('id, 'x) bmap \<times> ('id, ('id, 'x) bmap) bmap)" where
  "run_round2 S r1_public [] r1_secret r2_secret r2_public = Ok (r2_secret, r2_public)"
| "run_round2 S r1_public (pid # ids) r1_secret r2_secret r2_public =
    and_then (ok_or (bm_get r1_secret pid) Incomplete) (\<lambda>secret.
    and_then (ok_or (fr_part2 S secret (others_than pid r1_public)) CeremonyCrypto) (\<lambda>(s2, p2).
      run_round2 S r1_public ids (bm_remove pid r1_secret)
        (bm_insert pid s2 r2_secret) (bm_insert pid p2 r2_public)))"

text \<open>The round-2 packages addressed to one participant.\<close>

fun packages_for ::
  "'id::linorder \<Rightarrow> ('id, ('id, 'x) bmap) bmap \<Rightarrow> ('id, 'x) bmap \<Rightarrow> ceremony_error + ('id, 'x) bmap" where
  "packages_for pid [] m = Ok m"
| "packages_for pid ((sender, packages) # r2) m =
    (if sender = pid then packages_for pid r2 m
     else and_then (ok_or (bm_get packages pid) Incomplete) (\<lambda>p.
       packages_for pid r2 (bm_insert sender p m)))"

fun run_round3 ::
  "('id::linorder, 'x, 'r) suite \<Rightarrow> ('id, 'x) bmap \<Rightarrow> ('id, ('id, 'x) bmap) bmap \<Rightarrow> 'id list
    \<Rightarrow> ('id, 'x) bmap \<Rightarrow> ('id, 'x threshold_keys) bmap
    \<Rightarrow> ceremony_error + ('id, 'x threshold_keys) bmap" where
  "run_round3 S r1_public r2_public [] r2_secret out = Ok out"
| "run_round3 S r1_public r2_public (pid # ids) r2_secret out =
    and_then (packages_for pid r2_public bm_empty) (\<lambda>for_me.
    and_then (ok_or (bm_get r2_secret pid) Incomplete) (\<lambda>secret.
    and_then (ok_or (fr_part3 S secret (others_than pid r1_public) for_me) CeremonyCrypto) (\<lambda>(kp, pub).
      run_round3 S r1_public r2_public ids (bm_remove pid r2_secret)
        (bm_insert pid \<lparr> tk_key_package = kp, tk_public_package = pub \<rparr> out))))"

text \<open>The last step: every participant must have derived the same group key.\<close>

definition check_agreement ::
  "('id, 'x, 'r) suite \<Rightarrow> ('id, 'x threshold_keys) bmap
    \<Rightarrow> ceremony_error + ('id, 'x threshold_keys) bmap" where
  "check_agreement S out =
    (case map (group_key S) (bm_values out) of
       [] \<Rightarrow> Err Incomplete
     | first # rest \<Rightarrow>
       if list_all (\<lambda>k. k = first) rest then Ok out else Err DisagreedOnGroupKey)"

definition run_for ::
  "('id::linorder, 'x, 'r) suite \<Rightarrow> ceremony \<Rightarrow> 'r
    \<Rightarrow> (ceremony_error + ('id, 'x threshold_keys) bmap) \<times> 'r" where
  "run_for S c rng =
    (case participant_ids S (ce_participants c) of
       Inl e \<Rightarrow> (Err e, rng)
     | Inr ids \<Rightarrow>
       (case run_round1 S c ids bm_empty bm_empty rng of
          (Inl e, rng') \<Rightarrow> (Err e, rng')
        | (Inr (r1_secret, r1_public), rng') \<Rightarrow>
          (and_then (run_round2 S r1_public ids r1_secret bm_empty bm_empty) (\<lambda>(r2_secret, r2_public).
           and_then (run_round3 S r1_public r2_public ids r2_secret bm_empty) (\<lambda>out.
             check_agreement S out)), rng')))"

section \<open>Lemmas\<close>

lemma unat_u16_u32: "unat (ucast (w :: u16) :: u32) = unat w"
  by (rule unat_ucast_up) simp

lemma u16_less: "unat (w :: u16) < 65536"
  using unsigned_less [of w] by simp

lemma ceremony_new_Ok:
  "ceremony_new t n = Ok c \<longleftrightarrow>
    c = \<lparr> ce_threshold = t, ce_participants = n \<rparr> \<and> 2 \<le> unat n \<and> unat t \<le> unat n \<and> unat n < 2 * unat t"
proof -
  have d: "unat ((ucast t :: u32) * 2) = unat t * 2"
    using u16_less [of t] by (simp add: unat_word_ariths unat_u16_u32)
  have m: "(ucast t :: u32) * 2 \<le> ucast n \<longleftrightarrow> unat t * 2 \<le> unat n"
    by (simp add: word_le_nat_alt d unat_u16_u32)
  have z: "t = 0 \<longleftrightarrow> unat t = 0" by (simp add: unsigned_eq_0_iff)
  show ?thesis
    unfolding ceremony_new_def m z by (auto simp: word_less_nat_alt)
qed

lemma run_round3_keys:
  "run_round3 S r1 r2 ids secrets out = Ok out' \<Longrightarrow> bm_ok out \<Longrightarrow>
    bm_ok out' \<and> set (bm_keys out') = set (bm_keys out) \<union> set ids"
proof (induction ids arbitrary: secrets out)
  case (Cons pid ids)
  then obtain secrets' k where "run_round3 S r1 r2 ids secrets' (bm_insert pid k out) = Ok out'"
    by (auto simp: result_simps)
  with Cons.IH [OF this] Cons.prems(2) show ?case
    using set_bm_insert_subset [of pid k out] by (auto simp: bm_keys_def)
qed simp

section \<open>An instance for the witnesses\<close>

text \<open>Identifiers are the indices themselves and every object its own serialisation: a package is
  its message, a nonce the counter of the random source in unary, every group key the same.\<close>

definition demo_suite :: "(u16, bytes, nat) suite" where
  "demo_suite = \<lparr>
    fr_identifier = (\<lambda>i. if i = 0 then None else Some i),
    fr_id_ser = (\<lambda>i. be_bytes 2 (unat i)),
    fr_id_de = (\<lambda>b. if length b = 2 then Some (of_nat (be_val b)) else None),
    fr_part1 = (\<lambda>i n t r. (Some (be_bytes 2 (unat i), [of_nat r]), Suc r)),
    fr_part2 = (\<lambda>s others. Some (s, map (\<lambda>e. (fst e, s)) others)),
    fr_part3 = (\<lambda>s others mine. Some (s, [7])),
    fr_key_id = (\<lambda>b. of_nat (be_val b)),
    fr_group_key = (\<lambda>p. p),
    fr_commit = (\<lambda>kp r. ((replicate r 1, kp @ replicate r 1), Suc r)),
    fr_package = (\<lambda>cs m. m),
    fr_message = (\<lambda>p. p),
    fr_sign = (\<lambda>p n kp. Some (n @ p)),
    fr_sign_rand = (\<lambda>p n kp a. Some (n @ p)),
    fr_aggregate = (\<lambda>p shares pub. Some p),
    fr_params = (\<lambda>k a. a),
    fr_aggregate_rand = (\<lambda>p shares pub ps. Some p),
    fr_ser_package = Some, fr_de_package = Some,
    fr_ser_commitments = Some, fr_de_commitments = Some,
    fr_ser_share = (\<lambda>b. b), fr_de_share = Some,
    fr_ser_alpha = (\<lambda>b. b), fr_de_alpha = Some,
    fr_ser_key = Some, fr_ser_signature = Some,
    fr_ser_round1 = Some, fr_de_round1 = Some,
    fr_ser_round2 = Some, fr_de_round2 = Some,
    fr_ser_key_package = Some, fr_de_key_package = Some,
    fr_ser_public = Some, fr_de_public = Some \<rparr>"

lemma demo_ceremony:
  "run_for demo_suite \<lparr> ce_threshold = 2, ce_participants = 2 \<rparr> 0
    = (Ok [(1, \<lparr> tk_key_package = [0, 1], tk_public_package = [7] \<rparr>),
           (2, \<lparr> tk_key_package = [0, 2], tk_public_package = [7] \<rparr>)], 2)"
  by code_simp

section \<open>Properties\<close>

text \<open>C27: a vault's quorums intersect. \<open>Ceremony::new\<close> accepts exactly the thresholds for which any
  two signing sets share a participant: where it accepts, two sets of at least the threshold are
  never disjoint, and where it refuses a threshold between one and the number of participants,
  two disjoint quorums exist.\<close>

theorem accepted_quorums_intersect:
  "case ceremony_new t n of
     Inr c \<Rightarrow> ce_threshold c = t \<and> ce_participants c = n \<and>
       (\<forall>A B. A \<subseteq> {1..unat n} \<and> B \<subseteq> {1..unat n} \<and> unat t \<le> card A \<and> unat t \<le> card B \<longrightarrow> A \<inter> B \<noteq> {})
   | Inl e \<Rightarrow> n < 2 \<and> e = TooFewParticipants \<or> 2 \<le> n \<and> e = ThresholdNotAMajority \<and>
       (t = 0 \<or> n < t \<or> (\<exists>A B. A \<subseteq> {1..unat n} \<and> B \<subseteq> {1..unat n} \<and>
         unat t \<le> card A \<and> unat t \<le> card B \<and> A \<inter> B = {}))"
proof (cases "ceremony_new t n")
  case (Inr c)
  then have c: "c = \<lparr> ce_threshold = t, ce_participants = n \<rparr>" "unat n < 2 * unat t"
    by (simp_all add: ceremony_new_Ok)
  have "A \<inter> B \<noteq> {}" if "A \<subseteq> {1..unat n}" "B \<subseteq> {1..unat n}" "unat t \<le> card A" "unat t \<le> card B" for A B
  proof
    assume "A \<inter> B = {}"
    moreover have "finite A" "finite B" using that finite_subset by auto
    ultimately have "card (A \<union> B) = card A + card B" by (simp add: card_Un_disjoint)
    moreover have "card (A \<union> B) \<le> unat n" using that card_mono [of "{1..unat n}" "A \<union> B"] by simp
    ultimately show False using that c(2) by linarith
  qed
  with Inr c show ?thesis by simp
next
  case (Inl e)
  show ?thesis
  proof (cases "n < 2 \<or> t = 0 \<or> n < t")
    case True
    with Inl show ?thesis by (auto simp: ceremony_new_def not_less split: if_splits)
  next
    case False
    then have le: "2 \<le> unat n" "unat t \<le> unat n" by (auto simp: word_less_nat_alt)
    have "\<nexists>c. ceremony_new t n = Ok c" using Inl by simp
    then have "2 * unat t \<le> unat n" using le by (auto simp: ceremony_new_Ok)
    then have "{1..unat t} \<subseteq> {1..unat n}" "{Suc (unat t)..2 * unat t} \<subseteq> {1..unat n}"
      "card {1..unat t} = unat t" "card {Suc (unat t)..2 * unat t} = unat t"
      "{1..unat t} \<inter> {Suc (unat t)..2 * unat t} = {}" by auto
    then have "\<exists>A B. A \<subseteq> {1..unat n} \<and> B \<subseteq> {1..unat n} \<and> unat t \<le> card A \<and> unat t \<le> card B \<and> A \<inter> B = {}"
      by (metis order_refl)
    moreover have "e = ThresholdNotAMajority" "2 \<le> n"
      using Inl False by (auto simp: ceremony_new_def not_less split: if_splits)
    ultimately show ?thesis using Inl by simp
  qed
qed

theorem accepted_quorums_intersect_witness:
  "ceremony_new 2 3 = Ok \<lparr> ce_threshold = 2, ce_participants = 3 \<rparr> \<and> {1::nat, 2} \<inter> {2, 3} \<noteq> {}"
proof -
  have n: "ceremony_new 2 3 = Ok \<lparr> ce_threshold = 2, ce_participants = 3 \<rparr>" by code_simp
  have "{1::nat, 2} \<subseteq> {1..unat (3 :: u16)}" "{2::nat, 3} \<subseteq> {1..unat (3 :: u16)}"
    "unat (2 :: u16) \<le> card {1::nat, 2}" "unat (2 :: u16) \<le> card {2::nat, 3}" by auto
  with accepted_quorums_intersect [of 2 3] n have "{1::nat, 2} \<inter> {2, 3} \<noteq> {}" by simp
  with n show ?thesis by blast
qed

text \<open>A ceremony that succeeds is complete and agreed. Its result holds the keys of exactly the
  participants, there is at least one, and all of them derived one group key; if any two derive
  different keys, it fails with \<open>DisagreedOnGroupKey\<close> instead of returning a vault.\<close>

theorem ceremony_complete_and_agreed:
  assumes "run_for S c rng = (Ok out, rng')"
  shows "\<exists>ids k. participant_ids S (ce_participants c) = Ok ids \<and> set (bm_keys out) = set ids \<and>
    bm_ok out \<and> out \<noteq> [] \<and> (\<forall>e \<in> set out. group_key S (snd e) = k)"
proof -
  from assms obtain ids r1_public r2_public r2_secret where
    ids: "participant_ids S (ce_participants c) = Ok ids"
    and r3: "run_round3 S r1_public r2_public ids r2_secret bm_empty = Ok out"
    and agree: "check_agreement S out = Ok out"
    by (auto simp: run_for_def result_simps check_agreement_def
        split: sum.splits prod.splits) (auto split: list.splits if_splits)
  obtain e0 es where out: "out = e0 # es" using agree by (cases out) (auto simp: check_agreement_def bm_values_def)
  have "\<forall>e \<in> set out. group_key S (snd e) = group_key S (snd e0)"
    using agree by (auto simp: check_agreement_def out bm_values_def list_all_iff split: if_splits)
  moreover have "bm_ok out \<and> set (bm_keys out) = set ids"
    using run_round3_keys [OF r3] by (simp add: bm_keys_def bm_empty_def)
  ultimately show ?thesis using ids out by blast
qed

theorem ceremony_complete_and_agreed_witness:
  "\<exists>out rng. run_for demo_suite \<lparr> ce_threshold = 2, ce_participants = 2 \<rparr> 0 = (Ok out, rng) \<and>
    out \<noteq> [] \<and> (\<exists>k. \<forall>e \<in> set out. group_key demo_suite (snd e) = k)"
proof -
  obtain out rng where r: "run_for demo_suite \<lparr> ce_threshold = 2, ce_participants = 2 \<rparr> 0 = (Ok out, rng)"
    using demo_ceremony by blast
  from ceremony_complete_and_agreed [OF r] r show ?thesis by blast
qed

end
