(* ===== verification/Signing.thy ===== *)
theory Signing
  imports Ceremony
begin

text \<open>
  signing.rs: one participant's session in a signature, the coordinator that collects
  commitments and shares, and the re-randomized calls an Orchard spend takes. A session is
  consumed by the call that signs: the model passes it and returns no session.
\<close>

datatype signing_error = BelowThreshold | UnexpectedSigner | MessageMismatch | SigningCrypto

record ('id, 'x) session =
  se_id :: 'id
  se_nonces :: 'x
  se_commitments :: 'x

definition session_begin ::
  "('id, 'x, 'r) suite \<Rightarrow> 'id \<Rightarrow> 'x threshold_keys \<Rightarrow> 'r \<Rightarrow> ('id, 'x) session \<times> 'r" where
  "session_begin S pid keys rng =
    (case fr_commit S (tk_key_package keys) rng of
       ((nonces, commitments), rng') \<Rightarrow>
         (\<lparr> se_id = pid, se_nonces = nonces, se_commitments = commitments \<rparr>, rng'))"

definition session_sign ::
  "('id, 'x, 'r) suite \<Rightarrow> ('id, 'x) session \<Rightarrow> 'x threshold_keys \<Rightarrow> 'x \<Rightarrow> signing_error + 'x" where
  "session_sign S s keys package =
    ok_or (fr_sign S package (se_nonces s) (tk_key_package keys)) SigningCrypto"

section \<open>The coordinator\<close>

record ('id, 'x) aggregator =
  ag_message :: bytes
  ag_commitments :: "('id, 'x) bmap"
  ag_threshold :: u16

definition aggregator_new :: "bytes \<Rightarrow> u16 \<Rightarrow> ('id, 'x) aggregator" where
  "aggregator_new message threshold =
    \<lparr> ag_message = message, ag_commitments = bm_empty, ag_threshold = threshold \<rparr>"

definition add_commitment ::
  "'id::linorder \<Rightarrow> 'x \<Rightarrow> ('id, 'x) aggregator \<Rightarrow> ('id, 'x) aggregator" where
  "add_commitment pid c a = a \<lparr> ag_commitments := bm_insert pid c (ag_commitments a) \<rparr>"

definition ready :: "('id, 'x) aggregator \<Rightarrow> bool" where
  "ready a \<longleftrightarrow> unat (ag_threshold a) \<le> length (ag_commitments a)"

definition aggregator_package ::
  "('id, 'x, 'r) suite \<Rightarrow> ('id, 'x) aggregator \<Rightarrow> signing_error + 'x" where
  "aggregator_package S a =
    (if \<not> ready a then Err BelowThreshold else Ok (fr_package S (ag_commitments a) (ag_message a)))"

definition aggregate ::
  "('id, 'x, 'r) suite \<Rightarrow> ('id, 'x) aggregator \<Rightarrow> 'x \<Rightarrow> ('id, 'x) bmap \<Rightarrow> 'x \<Rightarrow> signing_error + 'x" where
  "aggregate S a package shares public =
    (if length shares < unat (ag_threshold a) then Err BelowThreshold
     else if \<not> list_all (\<lambda>pid. bm_contains (ag_commitments a) pid) (bm_keys shares)
     then Err UnexpectedSigner
     else ok_or (fr_aggregate S package shares public) SigningCrypto)"

section \<open>Re-randomized signing\<close>

definition params_for :: "('id, 'x, 'r) suite \<Rightarrow> 'x \<Rightarrow> 'x \<Rightarrow> 'x" where
  "params_for S vk alpha = fr_params S vk alpha"

definition sign_share ::
  "('id, 'x, 'r) suite \<Rightarrow> ('id, 'x) session \<Rightarrow> 'x threshold_keys \<Rightarrow> 'x \<Rightarrow> 'x \<Rightarrow> signing_error + 'x" where
  "sign_share S s keys package alpha =
    ok_or (fr_sign_rand S package (se_nonces s) (tk_key_package keys) alpha) SigningCrypto"

definition to_spend_auth :: "('id, 'x, 'r) suite \<Rightarrow> 'x \<Rightarrow> signing_error + bytes" where
  "to_spend_auth S sig =
    and_then (ok_or (fr_ser_signature S sig) SigningCrypto) (\<lambda>b.
      if is_array 64 b then Ok b else Err SigningCrypto)"

definition aggregate_rand ::
  "('id, 'x, 'r) suite \<Rightarrow> 'x \<Rightarrow> ('id, 'x) bmap \<Rightarrow> 'x \<Rightarrow> 'x \<Rightarrow> signing_error + 'x" where
  "aggregate_rand S package shares public params =
    ok_or (fr_aggregate_rand S package shares public params) SigningCrypto"

section \<open>Properties\<close>

definition commitments_of :: "('id::linorder \<times> 'x) list \<Rightarrow> bytes \<Rightarrow> u16 \<Rightarrow> ('id, 'x) aggregator" where
  "commitments_of cs message threshold =
    fold (\<lambda>c. add_commitment (fst c) (snd c)) cs (aggregator_new message threshold)"

lemma commitments_of_eq:
  "ag_commitments (commitments_of cs message threshold) = bm_of cs \<and>
   ag_message (commitments_of cs message threshold) = message \<and>
   ag_threshold (commitments_of cs message threshold) = threshold"
proof -
  have "ag_commitments (fold (\<lambda>c. add_commitment (fst c) (snd c)) cs a)
      = fold (\<lambda>e m. bm_insert (fst e) (snd e) m) cs (ag_commitments a)
    \<and> ag_message (fold (\<lambda>c. add_commitment (fst c) (snd c)) cs a) = ag_message a
    \<and> ag_threshold (fold (\<lambda>c. add_commitment (fst c) (snd c)) cs a) = ag_threshold a" for a
    by (induction cs arbitrary: a) (simp_all add: add_commitment_def)
  then show ?thesis by (simp add: commitments_of_def aggregator_new_def bm_of_def)
qed

lemma set_bm_of: "fst ` set (bm_of cs) = fst ` set cs"
proof -
  have "fst ` set (fold (\<lambda>e m. bm_insert (fst e) (snd e) m) cs m) = fst ` set m \<union> fst ` set cs" for m
  proof (induction cs arbitrary: m)
    case (Cons c cs)
    have "fst ` set (bm_insert (fst c) (snd c) m) = insert (fst c) (fst ` set m)"
      using set_bm_insert_subset [of "fst c" "snd c" m] by simp
    with Cons show ?case by auto
  qed simp
  then show ?thesis by (simp add: bm_of_def bm_empty_def)
qed

text \<open>Below the threshold nothing is produced. However often each participant commits, the
  coordinator hands out a package only when at least the threshold of distinct participants
  did, the package binds its message and their commitments, and a signature comes only from at
  least the threshold of shares, all of participants that committed.\<close>

theorem nothing_below_threshold:
  "(aggregator_package S (commitments_of cs message threshold) = Ok p \<longleftrightarrow>
      unat threshold \<le> card (fst ` set cs) \<and> p = fr_package S (bm_of cs) message) \<and>
    (aggregate S (commitments_of cs message threshold) package shares public = Ok sig \<longleftrightarrow>
      unat threshold \<le> length shares \<and> fst ` set shares \<subseteq> fst ` set cs \<and>
      fr_aggregate S package shares public = Some sig)"
proof -
  have len: "length (bm_of cs) = card (fst ` set cs)"
  proof -
    have "distinct (map fst (bm_of cs))" by (rule bm_ok_distinct) simp
    from distinct_card [OF this] set_bm_of [of cs] show ?thesis by (simp only: set_map length_map)
  qed
  have "list_all (bm_contains (bm_of cs)) (bm_keys shares) \<longleftrightarrow> fst ` set shares \<subseteq> fst ` set cs"
    using set_bm_of [of cs] by (auto simp: list_all_iff bm_contains_iff bm_keys_def)
  then show ?thesis
    by (auto simp: aggregator_package_def ready_def commitments_of_eq len aggregate_def
        result_simps)
qed

end
