(* ===== verification/Custodian.thy ===== *)
theory Custodian
  imports Signing "HOL-Library.Multiset"
begin

text \<open>
  custodian.rs: a share-holder and the requests it has open, for the Zcash vault (one nonce for
  each action) and for an Ed25519 vault (one nonce). Both keep the discipline of the locale
  \<open>one_shot\<close>: a request is opened once, and answered at most once.
\<close>

definition REQUEST_TTL_SECS :: u64 where
  "REQUEST_TTL_SECS = 300"

datatype custody_error = AlreadyOpen | NoSuchRequest | ShapeMismatch | WrongMessage | CustodyCrypto

text \<open>\<open>impl From<SigningError> for CustodyError\<close>\<close>

definition from_signing :: "signing_error + 'a \<Rightarrow> custody_error + 'a" where
  "from_signing r = (case r of Inl _ \<Rightarrow> Err CustodyCrypto | Inr x \<Rightarrow> Ok x)"

section \<open>The Zcash participant\<close>

record ('id, 'x) live =
  lv_sighash :: bytes
  lv_alphas :: "'x list"
  lv_sessions :: "('id, 'x) session option list"
  lv_opened_at :: u64

record ('id, 'x) participant =
  pa_keys :: "'x threshold_keys"
  pa_live :: "(u64, ('id, 'x) live) bmap"

definition participant_new :: "'x threshold_keys \<Rightarrow> ('id, 'x) participant" where
  "participant_new keys = \<lparr> pa_keys = keys, pa_live = bm_empty \<rparr>"

definition participant_id :: "('id, 'x, 'r) suite \<Rightarrow> ('id, 'x) participant \<Rightarrow> 'id" where
  "participant_id S p = fr_key_id S (tk_key_package (pa_keys p))"

definition drop_expired :: "u64 \<Rightarrow> ('id, 'x) participant \<Rightarrow> ('id, 'x) participant" where
  "drop_expired now p =
    p \<lparr> pa_live := bm_retain (\<lambda>_ r. saturating_sub now (lv_opened_at r) < REQUEST_TTL_SECS) (pa_live p) \<rparr>"

text \<open>The loop \<open>for _ in &alphas\<close>.\<close>

fun begin_sessions ::
  "('id, 'x, 'r) suite \<Rightarrow> 'id \<Rightarrow> 'x threshold_keys \<Rightarrow> 'x list \<Rightarrow> 'r
    \<Rightarrow> ('id, 'x) session list \<times> 'r" where
  "begin_sessions S pid keys [] rng = ([], rng)"
| "begin_sessions S pid keys (a # as) rng =
    (case session_begin S pid keys rng of
       (s, rng') \<Rightarrow> (case begin_sessions S pid keys as rng' of (ss, rng'') \<Rightarrow> (s # ss, rng'')))"

definition round1 ::
  "('id, 'x, 'r) suite \<Rightarrow> u64 \<Rightarrow> bytes \<Rightarrow> 'x list \<Rightarrow> u64 \<Rightarrow> ('id, 'x) participant \<Rightarrow> 'r
    \<Rightarrow> ('id, 'x) participant \<times> 'r \<times> (custody_error + 'x list)" where
  "round1 S request sighash alphas now p rng =
    (let p = drop_expired now p
     in if bm_contains (pa_live p) request then (p, rng, Err AlreadyOpen)
        else case begin_sessions S (participant_id S p) (pa_keys p) alphas rng of
          (sessions, rng') \<Rightarrow>
            (p \<lparr> pa_live := bm_insert request
                \<lparr> lv_sighash = sighash, lv_alphas = alphas, lv_sessions = map Some sessions,
                  lv_opened_at = now \<rparr> (pa_live p) \<rparr>,
             rng', Ok (map se_commitments sessions)))"

text \<open>The signing loop: take the session, sign its package under its randomizer, stop at an error.\<close>

fun sign_packages ::
  "('id, 'x, 'r) suite \<Rightarrow> 'x threshold_keys \<Rightarrow> ('x \<times> ('id, 'x) session option \<times> 'x) list
    \<Rightarrow> custody_error + 'x list" where
  "sign_packages S keys [] = Ok []"
| "sign_packages S keys ((package, slot, alpha) # rest) =
    and_then (ok_or slot NoSuchRequest) (\<lambda>s.
    and_then (from_signing (sign_share S s keys package alpha)) (\<lambda>share.
    and_then (sign_packages S keys rest) (\<lambda>shares. Ok (share # shares))))"

definition round2 ::
  "('id, 'x, 'r) suite \<Rightarrow> u64 \<Rightarrow> 'x list \<Rightarrow> ('id, 'x) participant
    \<Rightarrow> ('id, 'x) participant \<times> (custody_error + 'x list)" where
  "round2 S request packages p =
    (case bm_get (pa_live p) request of
       None \<Rightarrow> (p, Err NoSuchRequest)
     | Some req \<Rightarrow>
       (p \<lparr> pa_live := bm_remove request (pa_live p) \<rparr>,
        if length packages \<noteq> length (lv_sessions req) then Err ShapeMismatch
        else if list_ex (\<lambda>k. fr_message S k \<noteq> lv_sighash req) packages then Err WrongMessage
        else sign_packages S (pa_keys p) (zip packages (zip (lv_sessions req) (lv_alphas req)))))"

definition open_requests :: "('id, 'x) participant \<Rightarrow> nat" where
  "open_requests p = length (pa_live p)"

section \<open>The Ed25519 participant\<close>

record ('id, 'x) ed_live =
  el_message :: bytes
  el_session :: "('id, 'x) session option"
  el_opened_at :: u64

record ('id, 'x) ed_participant =
  ep_keys :: "'x threshold_keys"
  ep_live :: "(u64, ('id, 'x) ed_live) bmap"

definition ed_participant_new :: "'x threshold_keys \<Rightarrow> ('id, 'x) ed_participant" where
  "ed_participant_new keys = \<lparr> ep_keys = keys, ep_live = bm_empty \<rparr>"

definition ed_participant_id :: "('id, 'x, 'r) suite \<Rightarrow> ('id, 'x) ed_participant \<Rightarrow> 'id" where
  "ed_participant_id S p = fr_key_id S (tk_key_package (ep_keys p))"

definition ed_drop_expired :: "u64 \<Rightarrow> ('id, 'x) ed_participant \<Rightarrow> ('id, 'x) ed_participant" where
  "ed_drop_expired now p =
    p \<lparr> ep_live := bm_retain (\<lambda>_ r. saturating_sub now (el_opened_at r) < REQUEST_TTL_SECS) (ep_live p) \<rparr>"

definition ed_round1 ::
  "('id, 'x, 'r) suite \<Rightarrow> u64 \<Rightarrow> bytes \<Rightarrow> u64 \<Rightarrow> ('id, 'x) ed_participant \<Rightarrow> 'r
    \<Rightarrow> ('id, 'x) ed_participant \<times> 'r \<times> (custody_error + 'x)" where
  "ed_round1 S request message now p rng =
    (let p = ed_drop_expired now p
     in if bm_contains (ep_live p) request then (p, rng, Err AlreadyOpen)
        else case session_begin S (ed_participant_id S p) (ep_keys p) rng of
          (s, rng') \<Rightarrow>
            (p \<lparr> ep_live := bm_insert request
                \<lparr> el_message = message, el_session = Some s, el_opened_at = now \<rparr> (ep_live p) \<rparr>,
             rng', Ok (se_commitments s)))"

definition ed_round2 ::
  "('id, 'x, 'r) suite \<Rightarrow> u64 \<Rightarrow> 'x \<Rightarrow> ('id, 'x) ed_participant
    \<Rightarrow> ('id, 'x) ed_participant \<times> (custody_error + 'x)" where
  "ed_round2 S request package p =
    (case bm_get (ep_live p) request of
       None \<Rightarrow> (p, Err NoSuchRequest)
     | Some req \<Rightarrow>
       (p \<lparr> ep_live := bm_remove request (ep_live p) \<rparr>,
        if fr_message S package \<noteq> el_message req then Err WrongMessage
        else and_then (ok_or (el_session req) NoSuchRequest) (\<lambda>s.
          from_signing (session_sign S s (ep_keys p) package))))"

definition ed_open_requests :: "('id, 'x) ed_participant \<Rightarrow> nat" where
  "ed_open_requests p = length (ep_live p)"

section \<open>The discipline\<close>

text \<open>Operations that open and close requests. \<open>step\<close> says whether the call was answered.\<close>

datatype request_kind = Opens u64 | Closes u64 | Neither

text \<open>How many calls of one kind were answered in a sequence of calls.\<close>

fun answered ::
  "('op \<Rightarrow> request_kind) \<Rightarrow> ('op \<Rightarrow> 's \<Rightarrow> 's \<times> bool) \<Rightarrow> request_kind \<Rightarrow> 'op list \<Rightarrow> 's \<Rightarrow> nat" where
  "answered kind step k [] s = 0"
| "answered kind step k (op # ops) s =
    (case step op s of
       (s', ok) \<Rightarrow> (if kind op = k \<and> ok then 1 else 0) + answered kind step k ops s')"

locale one_shot =
  fixes kind :: "'op \<Rightarrow> request_kind"
    and step :: "'op \<Rightarrow> 's \<Rightarrow> 's \<times> bool"
    and live :: "'s \<Rightarrow> u64 \<Rightarrow> bool"
  assumes live_step: "step op s = (s', ok) \<Longrightarrow> live s' r \<Longrightarrow> live s r \<or> kind op = Opens r \<and> ok"
    and closes: "kind op = Closes r \<Longrightarrow> step op s = (s', ok) \<Longrightarrow> \<not> live s' r \<and> (ok \<longrightarrow> live s r)"
begin

lemma released_once_from:
  "answered kind step (Closes r) ops s \<le> answered kind step (Opens r) ops s + (if live s r then 1 else 0)"
proof (induction ops arbitrary: s)
  case (Cons op ops)
  obtain s' ok where st: "step op s = (s', ok)" by fastforce
  have "live s' r \<Longrightarrow> live s r \<or> kind op = Opens r \<and> ok" using live_step [OF st] .
  moreover have "kind op = Closes r \<Longrightarrow> \<not> live s' r \<and> (ok \<longrightarrow> live s r)" using closes [OF _ st] .
  ultimately show ?case using Cons.IH [of s'] st by (auto split: if_splits)
qed simp

end

text \<open>The calls a coordinator can make on a participant, and the state they run in.\<close>

datatype 'x custody_op =
    OpenRound u64 bytes "'x list" u64
  | SignRound u64 "'x list"
  | Expire u64

fun custody_kind :: "'x custody_op \<Rightarrow> request_kind" where
  "custody_kind (OpenRound r _ _ _) = Opens r"
| "custody_kind (SignRound r _) = Closes r"
| "custody_kind (Expire _) = Neither"

fun custody_step ::
  "('id, 'x, 'r) suite \<Rightarrow> 'x custody_op \<Rightarrow> ('id, 'x) participant \<times> 'r
    \<Rightarrow> (('id, 'x) participant \<times> 'r) \<times> bool" where
  "custody_step S (OpenRound r sighash alphas now) (p, rng) =
    (case round1 S r sighash alphas now p rng of (p', rng', res) \<Rightarrow> ((p', rng'), is_ok res))"
| "custody_step S (SignRound r packages) (p, rng) =
    (case round2 S r packages p of (p', res) \<Rightarrow> ((p', rng), is_ok res))"
| "custody_step S (Expire now) (p, rng) = ((drop_expired now p, rng), True)"

definition is_live :: "('id, 'x) participant \<times> 'r \<Rightarrow> u64 \<Rightarrow> bool" where
  "is_live s r \<longleftrightarrow> bm_contains (pa_live (fst s)) r"

lemma contains_retain: "bm_contains (bm_retain P m) r \<Longrightarrow> bm_contains m r"
  by (auto simp: bm_contains_iff bm_retain_def bm_keys_def)

lemma live_drop_expired: "bm_contains (pa_live (drop_expired now p)) r \<Longrightarrow> bm_contains (pa_live p) r"
  by (auto simp: drop_expired_def dest: contains_retain)

lemma contains_insert [simp]: "bm_contains (bm_insert k v m) r \<longleftrightarrow> r = k \<or> bm_contains m r"
  by (simp add: bm_contains_def)

lemma contains_remove [simp]: "bm_contains (bm_remove k m) r \<longleftrightarrow> r \<noteq> k \<and> bm_contains m r"
  by (simp add: bm_contains_def)

lemma live_step:
  assumes "custody_step S op s = (s', ok)" and "is_live s' r"
  shows "is_live s r \<or> custody_kind op = Opens r \<and> ok"
  using assms live_drop_expired [of _ "fst s" r]
  by (cases s; cases op) (auto simp: is_live_def round1_def round2_def Let_def
      split: prod.splits if_splits option.splits)

lemma closes:
  assumes "custody_kind op = Closes r" and "custody_step S op s = (s', ok)"
  shows "\<not> is_live s' r \<and> (ok \<longrightarrow> is_live s r)"
  using assms
  by (cases s; cases op) (auto simp: is_live_def round1_def round2_def bm_contains_def split: option.splits)

interpretation zcash: one_shot custody_kind "custody_step S" is_live for S
  by unfold_locales (blast dest: live_step closes)+

text \<open>The same calls on the Ed25519 participant.\<close>

datatype 'x ed_custody_op =
    EdOpen u64 bytes u64
  | EdSign u64 'x
  | EdExpire u64

fun ed_custody_kind :: "'x ed_custody_op \<Rightarrow> request_kind" where
  "ed_custody_kind (EdOpen r _ _) = Opens r"
| "ed_custody_kind (EdSign r _) = Closes r"
| "ed_custody_kind (EdExpire _) = Neither"

fun ed_custody_step ::
  "('id, 'x, 'r) suite \<Rightarrow> 'x ed_custody_op \<Rightarrow> ('id, 'x) ed_participant \<times> 'r
    \<Rightarrow> (('id, 'x) ed_participant \<times> 'r) \<times> bool" where
  "ed_custody_step S (EdOpen r message now) (p, rng) =
    (case ed_round1 S r message now p rng of (p', rng', res) \<Rightarrow> ((p', rng'), is_ok res))"
| "ed_custody_step S (EdSign r package) (p, rng) =
    (case ed_round2 S r package p of (p', res) \<Rightarrow> ((p', rng), is_ok res))"
| "ed_custody_step S (EdExpire now) (p, rng) = ((ed_drop_expired now p, rng), True)"

definition ed_is_live :: "('id, 'x) ed_participant \<times> 'r \<Rightarrow> u64 \<Rightarrow> bool" where
  "ed_is_live s r \<longleftrightarrow> bm_contains (ep_live (fst s)) r"

lemma ed_live_drop_expired:
  "bm_contains (ep_live (ed_drop_expired now p)) r \<Longrightarrow> bm_contains (ep_live p) r"
  by (auto simp: ed_drop_expired_def dest: contains_retain)

lemma ed_live_step:
  assumes "ed_custody_step S op s = (s', ok)" and "ed_is_live s' r"
  shows "ed_is_live s r \<or> ed_custody_kind op = Opens r \<and> ok"
  using assms ed_live_drop_expired [of _ "fst s" r]
  by (cases s; cases op) (auto simp: ed_is_live_def ed_round1_def ed_round2_def Let_def
      split: prod.splits if_splits option.splits)

lemma ed_closes:
  assumes "ed_custody_kind op = Closes r" and "ed_custody_step S op s = (s', ok)"
  shows "\<not> ed_is_live s' r \<and> (ok \<longrightarrow> ed_is_live s r)"
  using assms
  by (cases s; cases op) (auto simp: ed_is_live_def ed_round1_def ed_round2_def bm_contains_def split: option.splits)

interpretation ed25519: one_shot ed_custody_kind "ed_custody_step S" ed_is_live for S
  by unfold_locales (blast dest: ed_live_step ed_closes)+

section \<open>Nonces\<close>

text \<open>The nonces a call hands to the signing function: those of the sessions it reaches.\<close>

fun signed_nonces ::
  "('id, 'x, 'r) suite \<Rightarrow> 'x threshold_keys \<Rightarrow> ('x \<times> ('id, 'x) session option \<times> 'x) list \<Rightarrow> 'x list" where
  "signed_nonces S keys [] = []"
| "signed_nonces S keys ((package, slot, alpha) # rest) =
    (case slot of
       None \<Rightarrow> []
     | Some s \<Rightarrow> se_nonces s #
         (if is_ok (sign_share S s keys package alpha) then signed_nonces S keys rest else []))"

definition round2_nonces :: "('id, 'x, 'r) suite \<Rightarrow> u64 \<Rightarrow> 'x list \<Rightarrow> ('id, 'x) participant \<Rightarrow> 'x list" where
  "round2_nonces S request packages p =
    (case bm_get (pa_live p) request of
       None \<Rightarrow> []
     | Some req \<Rightarrow>
       if length packages \<noteq> length (lv_sessions req)
         \<or> list_ex (\<lambda>k. fr_message S k \<noteq> lv_sighash req) packages then []
       else signed_nonces S (pa_keys p) (zip packages (zip (lv_sessions req) (lv_alphas req))))"

fun run_nonces ::
  "('id, 'x, 'r) suite \<Rightarrow> 'x custody_op list \<Rightarrow> ('id, 'x) participant \<times> 'r \<Rightarrow> 'x list" where
  "run_nonces S [] st = []"
| "run_nonces S (op # ops) st =
    (case op of SignRound r packages \<Rightarrow> round2_nonces S r packages (fst st) | _ \<Rightarrow> [])
    @ run_nonces S ops (fst (custody_step S op st))"

definition request_nonces :: "('id, 'x) live \<Rightarrow> 'x list" where
  "request_nonces r = map se_nonces (List.map_filter (\<lambda>s. s) (lv_sessions r))"

definition live_nonces :: "('id, 'x) participant \<Rightarrow> 'x list" where
  "live_nonces p = concat (map (\<lambda>e. request_nonces (snd e)) (pa_live p))"

lemma mset_concat_insert:
  "k \<notin> fst ` set m \<Longrightarrow>
    mset (concat (map (\<lambda>e. f (snd e)) (bm_insert k v m))) = mset (f v) + mset (concat (map (\<lambda>e. f (snd e)) m))"
  by (induction m) auto

lemma mset_concat_remove:
  "bm_ok m \<Longrightarrow> bm_get m k = Some v \<Longrightarrow>
    mset (concat (map (\<lambda>e. f (snd e)) m)) = mset (f v) + mset (concat (map (\<lambda>e. f (snd e)) (bm_remove k m)))"
proof (induction m)
  case (Cons e m)
  obtain k' v' where e: "e = (k', v')" by (cases e)
  show ?case
  proof (cases "k' = k")
    case True
    with Cons.prems e have "bm_remove k m = m" "v' = v"
      by (auto simp: bm_remove_def bm_ok_Cons bm_get_def filter_id_conv)
    with e True show ?thesis by (simp add: bm_remove_def)
  next
    case False
    with Cons e show ?thesis by (auto simp: bm_remove_def bm_ok_Cons bm_get_def)
  qed
qed simp

lemma subseq_signed:
  "length packages = length sessions \<Longrightarrow> 
    mset (signed_nonces S keys (zip packages (zip sessions alphas)))
      \<subseteq># mset (map se_nonces (List.map_filter (\<lambda>s. s) sessions))"
proof (induction packages sessions arbitrary: alphas rule: list_induct2)
  case (Cons k ks s ss)
  show ?case
  proof (cases alphas)
    case (Cons a as)
    then show ?thesis using Cons.IH [of as] by (cases s) (auto simp: map_filter_simps)
  qed simp
qed simp

text \<open>The nonces of the requests that are open, and of those already signed with: all different,
  all drawn before the present of the random source.\<close>

definition nonces_ok :: "('x \<Rightarrow> nat) \<Rightarrow> nat \<Rightarrow> 'x list \<Rightarrow> ('id, 'x) participant \<Rightarrow> bool" where
  "nonces_ok age now used p \<longleftrightarrow> bm_ok (pa_live p) \<and> distinct (live_nonces p @ used) \<and>
    (\<forall>n \<in> set (live_nonces p @ used). age n < now)"

lemma nonces_ok_less:
  assumes "nonces_ok age now used p" and "bm_ok (pa_live p')"
    and "mset (live_nonces p' @ used') \<subseteq># mset (live_nonces p @ used)"
  shows "nonces_ok age now used' p'"
proof -
  have "set (live_nonces p' @ used') \<subseteq> set (live_nonces p @ used)"
    using assms(3) by (metis set_mset_mono set_mset_mset)
  moreover have "distinct (live_nonces p' @ used')"
  proof -
    obtain zs where "mset (live_nonces p @ used) = mset ((live_nonces p' @ used') @ zs)"
      using assms(3) by (metis ex_mset mset_append subset_mset.le_iff_add)
    then have "distinct ((live_nonces p' @ used') @ zs)"
      using assms(1) mset_eq_imp_distinct_iff unfolding nonces_ok_def by blast
    then show ?thesis by auto
  qed
  ultimately show ?thesis using assms(1,2) by (auto simp: nonces_ok_def)
qed

lemma live_nonces_retain:
  "mset (concat (map (\<lambda>e. f (snd e)) (bm_retain P m))) \<subseteq># mset (concat (map (\<lambda>e. f (snd e)) m))"
  by (induction m) (auto simp: bm_retain_def subset_mset.add_mono subset_mset.add_increasing)

lemma nonces_ok_drop: "nonces_ok age now used p \<Longrightarrow> nonces_ok age now used (drop_expired t p)"
  by (rule nonces_ok_less)
    (auto simp: nonces_ok_def drop_expired_def live_nonces_def live_nonces_retain
      intro: subset_mset.add_mono)

text \<open>Each draw of nonces is later than all before it: the random source does not repeat.\<close>

definition fresh_nonces :: "('id, 'x, 'r) suite \<Rightarrow> ('x \<Rightarrow> nat) \<Rightarrow> ('r \<Rightarrow> nat) \<Rightarrow> bool" where
  "fresh_nonces S age now \<longleftrightarrow>
    (\<forall>kp rng. case fr_commit S kp rng of ((n, c), rng') \<Rightarrow> age n = now rng \<and> now rng < now rng')"

lemma begin_sessions_fresh:
  assumes "fresh_nonces S age now" and "begin_sessions S pid keys alphas rng = (ss, rng')"
  shows "length ss = length alphas \<and> now rng \<le> now rng' \<and> distinct (map se_nonces ss) \<and>
    (\<forall>s \<in> set ss. now rng \<le> age (se_nonces s) \<and> age (se_nonces s) < now rng')"
  using assms(2)
proof (induction alphas arbitrary: rng ss)
  case (Cons a as)
  obtain n c rng1 where c: "fr_commit S (tk_key_package keys) rng = ((n, c), rng1)"
    by (metis prod.exhaust)
  with assms(1) have age: "age n = now rng" "now rng < now rng1"
    unfolding fresh_nonces_def by (metis (mono_tags, lifting) case_prod_conv)+
  from Cons.prems c obtain ss' where ss': "begin_sessions S pid keys as rng1 = (ss', rng')"
    and ss: "ss = \<lparr> se_id = pid, se_nonces = n, se_commitments = c \<rparr> # ss'"
    by (auto simp: session_begin_def split: prod.splits)
  from Cons.IH [OF ss'] age show ?case by (fastforce simp: ss)
qed simp

lemma request_nonces_new:
  "request_nonces \<lparr> lv_sighash = h, lv_alphas = as, lv_sessions = map Some ss, lv_opened_at = t \<rparr>
    = map se_nonces ss"
  by (simp add: request_nonces_def map_filter_map_filter [symmetric] map_filter_def comp_def)

lemma nonces_ok_round1:
  assumes "fresh_nonces S age now" and "nonces_ok age (now rng) used p"
    and "round1 S r h as t p rng = (p', rng', res)"
  shows "nonces_ok age (now rng') used p'"
proof -
  let ?p = "drop_expired t p"
  have ok: "nonces_ok age (now rng) used ?p" using assms(2) by (rule nonces_ok_drop)
  show ?thesis
  proof (cases "bm_contains (pa_live ?p) r")
    case True
    with assms(3) ok show ?thesis by (auto simp: round1_def)
  next
    case False
    obtain ss where ss: "begin_sessions S (participant_id S ?p) (pa_keys ?p) as rng = (ss, rng')"
      and p': "p' = ?p \<lparr> pa_live := bm_insert r \<lparr> lv_sighash = h, lv_alphas = as,
        lv_sessions = map Some ss, lv_opened_at = t \<rparr> (pa_live ?p) \<rparr>"
      using assms(3) False by (auto simp: round1_def Let_def split: prod.splits)
    note f = begin_sessions_fresh [OF assms(1) ss]
    have "r \<notin> fst ` set (pa_live ?p)" using False by (simp add: bm_contains_iff bm_keys_def)
    note new = mset_concat_insert [OF this, where f = request_nonces]
    have m: "mset (live_nonces p') = mset (map se_nonces ss) + mset (live_nonces ?p)"
      by (simp add: p' live_nonces_def new request_nonces_new)
    then have "mset (live_nonces p' @ used) = mset (map se_nonces ss @ live_nonces ?p @ used)" by simp
    moreover have "distinct (map se_nonces ss @ live_nonces ?p @ used)"
    proof -
      have "x \<notin> set (live_nonces ?p @ used)" if "x \<in> set (map se_nonces ss)" for x
      proof
        assume "x \<in> set (live_nonces ?p @ used)"
        then have "age x < now rng" using ok unfolding nonces_ok_def by blast
        moreover have "now rng \<le> age x" using that f by auto
        ultimately show False by simp
      qed
      moreover have "distinct (live_nonces ?p @ used)" "distinct (map se_nonces ss)"
        using ok f unfolding nonces_ok_def by blast+
      ultimately show ?thesis by (simp only: distinct_append [of "map se_nonces ss"]) blast
    qed
    ultimately have "distinct (live_nonces p' @ used)"
      using mset_eq_imp_distinct_iff by blast
    moreover have "set (live_nonces p') = set (map se_nonces ss) \<union> set (live_nonces ?p)"
      using m by (metis set_mset_mset set_mset_union)
    moreover have "age n < now rng'" if "n \<in> set (map se_nonces ss) \<union> set (live_nonces ?p) \<union> set used" for n
    proof -
      have "n \<in> set (map se_nonces ss) \<or> age n < now rng" using that ok unfolding nonces_ok_def by auto
      then show ?thesis using f by auto
    qed
    moreover have "bm_ok (pa_live p')" using ok by (simp add: p' nonces_ok_def)
    ultimately show ?thesis unfolding nonces_ok_def set_append by blast
  qed
qed

lemma nonces_ok_round2:
  assumes "nonces_ok age now used p" and "round2 S r packages p = (p', res)"
  shows "nonces_ok age now (used @ round2_nonces S r packages p) p'"
proof (cases "bm_get (pa_live p) r")
  case None
  with assms show ?thesis by (simp add: round2_def round2_nonces_def)
next
  case (Some req)
  have p': "p' = p \<lparr> pa_live := bm_remove r (pa_live p) \<rparr>"
    using assms(2) Some by (simp add: round2_def)
  have ok: "bm_ok (pa_live p)" using assms(1) by (simp add: nonces_ok_def)
  have "mset (round2_nonces S r packages p) \<subseteq># mset (request_nonces req)"
    using subseq_signed [of packages "lv_sessions req"]
    by (auto simp: round2_nonces_def Some request_nonces_def)
  moreover have "mset (live_nonces p) = mset (request_nonces req) + mset (live_nonces p')"
    using mset_concat_remove [OF ok Some] by (simp add: live_nonces_def p')
  ultimately have "mset (live_nonces p' @ used @ round2_nonces S r packages p) \<subseteq># mset (live_nonces p @ used)"
  proof -
    assume le: "mset (round2_nonces S r packages p) \<subseteq># mset (request_nonces req)"
      and eq: "mset (live_nonces p) = mset (request_nonces req) + mset (live_nonces p')"
    have "mset (live_nonces p' @ used @ round2_nonces S r packages p)
        = mset (round2_nonces S r packages p) + (mset (live_nonces p') + mset used)" by simp
    also have "\<dots> \<subseteq># mset (request_nonces req) + (mset (live_nonces p') + mset used)"
      using le by (rule subset_mset.add_right_mono)
    also have "\<dots> = mset (live_nonces p @ used)" by (simp add: eq)
    finally show ?thesis .
  qed
  note sub = this
  have "bm_ok (pa_live p')" using ok by (simp add: p')
  from nonces_ok_less [OF assms(1) this sub] show ?thesis .
qed

lemma nonces_ok_run:
  assumes "fresh_nonces S age now" and "nonces_ok age (now rng) used p"
  shows "distinct (used @ run_nonces S ops (p, rng))"
  using assms(2)
proof (induction ops arbitrary: used p rng)
  case Nil
  then show ?case by (simp add: nonces_ok_def)
next
  case (Cons op ops)
  obtain p' rng' ok where st: "custody_step S op (p, rng) = ((p', rng'), ok)"
    by (metis prod.exhaust)
  show ?case
  proof (cases op)
    case (OpenRound r h as t)
    then obtain res where "round1 S r h as t p rng = (p', rng', res)"
      using st by (auto split: prod.splits)
    from nonces_ok_round1 [OF assms(1) Cons.prems this] Cons.IH st OpenRound show ?thesis by simp
  next
    case (SignRound r packages)
    then obtain res where "round2 S r packages p = (p', res)" and "rng' = rng"
      using st by (auto split: prod.splits)
    from nonces_ok_round2 [OF Cons.prems this(1)] this(2)
      Cons.IH [of rng "used @ round2_nonces S r packages p" p'] st SignRound
    show ?thesis by simp
  next
    case (Expire t)
    with st have "p' = drop_expired t p" "rng' = rng" by auto
    with nonces_ok_drop [OF Cons.prems, of t] Cons.IH st Expire show ?thesis by simp
  qed
qed

section \<open>Properties\<close>

text \<open>C1: a nonce is signed with at most once. Over any sequence of calls on a share-holder, in any
  order and with any request ids, packages and times, and whatever was refused or expired on
  the way, the nonces handed to the signing function are all different, as long as the random
  source never repeats a draw.\<close>

theorem nonce_signed_at_most_once:
  assumes "fresh_nonces S age now"
  shows "distinct (run_nonces S ops (participant_new keys, rng))"
  using nonces_ok_run [OF assms, of rng "[]" "participant_new keys" ops]
  by (simp add: nonces_ok_def participant_new_def live_nonces_def bm_empty_def)

lemma demo_fresh: "fresh_nonces demo_suite length (\<lambda>r. r)"
  by (simp add: fresh_nonces_def demo_suite_def)

definition demo_keys :: "bytes threshold_keys" where
  "demo_keys = \<lparr> tk_key_package = [0, 1], tk_public_package = [7] \<rparr>"

definition demo_ops :: "bytes custody_op list" where
  "demo_ops = [OpenRound 5 [9] [[3], [4]] 100, SignRound 5 [[9], [9]], SignRound 5 [[9], [9]],
     OpenRound 6 [8] [[3]] 100, SignRound 6 [[8]]]"

theorem nonce_signed_at_most_once_witness:
  "run_nonces demo_suite demo_ops (participant_new demo_keys, 0) = [[], [1], [1, 1]] \<and>
   distinct (run_nonces demo_suite demo_ops (participant_new demo_keys, 0))"
proof
  show "run_nonces demo_suite demo_ops (participant_new demo_keys, 0) = [[], [1], [1, 1]]"
    by code_simp
  show "distinct (run_nonces demo_suite demo_ops (participant_new demo_keys, 0))"
    using demo_fresh by (rule nonce_signed_at_most_once)
qed

text \<open>C26: a request is answered at most once for each time it was opened, for the Zcash and for the
  Ed25519 participant alike: in any sequence of calls, the round-two calls answered for a request
  id are at most the round-one calls answered for it.\<close>

theorem request_answered_at_most_once:
  "answered custody_kind (custody_step S) (Closes r) ops (participant_new keys, rng)
     \<le> answered custody_kind (custody_step S) (Opens r) ops (participant_new keys, rng) \<and>
   answered ed_custody_kind (ed_custody_step S) (Closes r) ed_ops (ed_participant_new keys, rng)
     \<le> answered ed_custody_kind (ed_custody_step S) (Opens r) ed_ops (ed_participant_new keys, rng)"
  using zcash.released_once_from [of S r ops "(participant_new keys, rng)"]
    ed25519.released_once_from [of S r ed_ops "(ed_participant_new keys, rng)"]
  by (simp add: is_live_def ed_is_live_def participant_new_def ed_participant_new_def bm_contains_def)

text \<open>C25: shares are released only over what round one committed to. After an answered round one,
  round two on that request succeeds exactly when it is given one package for each action, all
  over the sighash committed to, and the library signs each with that action's own nonce, the
  participant's key and that action's randomizer; and whatever the outcome the request is gone.\<close>

theorem shares_only_over_committed_message:
  fixes S :: "('id, 'x, 'r) suite"
  assumes "round1 S r sighash alphas now p rng = (p1, rng1, Ok commitments)"
  shows "\<exists>sessions :: ('id, 'x) session list. commitments = map se_commitments sessions \<and> length sessions = length alphas \<and>
    fst (round2 S r packages p1) = p1 \<lparr> pa_live := bm_remove r (pa_live p1) \<rparr> \<and>
    (snd (round2 S r packages p1) = Ok shares \<longleftrightarrow>
      length packages = length alphas \<and> (\<forall>k \<in> set packages. fr_message S k = sighash) \<and>
      map Some shares = map (\<lambda>(k, s, a). fr_sign_rand S k (se_nonces s) (tk_key_package (pa_keys p)) a)
        (zip packages (zip sessions alphas)))"
proof -
  let ?p = "drop_expired now p"
  from assms obtain sessions where ss: "begin_sessions S (participant_id S ?p) (pa_keys ?p) alphas rng
      = (sessions, rng1)"
    and p1: "p1 = ?p \<lparr> pa_live := bm_insert r \<lparr> lv_sighash = sighash, lv_alphas = alphas,
        lv_sessions = map Some sessions, lv_opened_at = now \<rparr> (pa_live ?p) \<rparr>"
    and c: "commitments = map se_commitments sessions"
    by (auto simp: round1_def Let_def split: prod.splits if_splits)
  have len: "length sessions = length alphas"
    using ss by (induction alphas arbitrary: rng sessions) (auto split: prod.splits)
  have sign: "sign_packages S keys (zip packages (zip (map Some sessions) alphas)) = Ok shares \<longleftrightarrow>
      map Some shares = map (\<lambda>(k, s, a). fr_sign_rand S k (se_nonces s) (tk_key_package keys) a)
        (zip packages (zip sessions alphas))"
    if "length packages = length sessions" "length sessions = length alphas"
    for keys packages sessions alphas shares
    using that
  proof (induction packages sessions alphas arbitrary: shares rule: list_induct3)
    case (Cons k ks s ss a as)
    show ?case
      by (cases shares) (auto simp: result_simps Cons.IH from_signing_def sign_share_def ok_or_def
          split: option.splits sum.splits)
  qed auto
  have keys: "pa_keys p1 = pa_keys p" by (simp add: p1 drop_expired_def)
  have "bm_get (pa_live p1) r = Some \<lparr> lv_sighash = sighash, lv_alphas = alphas,
      lv_sessions = map Some sessions, lv_opened_at = now \<rparr>"
    by (simp add: p1)
  then have r2: "round2 S r packages p1 = (p1 \<lparr> pa_live := bm_remove r (pa_live p1) \<rparr>,
      if length packages \<noteq> length sessions then Err ShapeMismatch
      else if list_ex (\<lambda>k. fr_message S k \<noteq> sighash) packages then Err WrongMessage
      else sign_packages S (pa_keys p) (zip packages (zip (map Some sessions) alphas)))"
    by (simp add: round2_def keys)
  show ?thesis
    using c len sign [of packages sessions alphas]
    by (intro exI [of _ sessions]) (auto simp: r2 list_ex_iff)
qed

definition demo_opened :: "(u16, bytes) participant" where
  "demo_opened = fst (round1 demo_suite 5 [9] [[3]] 100 (participant_new demo_keys) 2)"

theorem shares_only_over_committed_message_witness:
  "snd (round2 demo_suite 5 [[9]] demo_opened) = Ok [[1, 1, 9]] \<and>
   fst (round2 demo_suite 5 [[9]] demo_opened)
     = demo_opened \<lparr> pa_live := bm_remove 5 (pa_live demo_opened) \<rparr>"
proof
  show "snd (round2 demo_suite 5 [[9]] demo_opened) = Ok [[1, 1, 9]]" by code_simp
  have "round1 demo_suite 5 [9] [[3]] 100 (participant_new demo_keys) 2
      = (demo_opened, 3, Ok [[0, 1, 1, 1]])"
    unfolding demo_opened_def by code_simp
  from shares_only_over_committed_message [OF this, of "[[9]]" "[[1, 1, 9]]"]
  show "fst (round2 demo_suite 5 [[9]] demo_opened)
      = demo_opened \<lparr> pa_live := bm_remove 5 (pa_live demo_opened) \<rparr>" by blast
qed

end
