(* ===== verification/Custody_Net.thy ===== *)
theory Custody_Net
  imports Custodian Wire
begin

text \<open>
  custody_net.rs: the two-round protocol on a wire. Encoders and decoders of requests and
  replies, the daemon that routes a request to the share it names, the framing of a
  connection, and the coordinator's quorums over a network. The network is a function that
  carries a frame to an address and brings a body back, or nothing.
\<close>

section \<open>Fields\<close>

definition OP_ROUND1 :: byte where "OP_ROUND1 = 1"
definition OP_ROUND2 :: byte where "OP_ROUND2 = 2"
definition OP_ED25519_ROUND1 :: byte where "OP_ED25519_ROUND1 = 3"
definition OP_ED25519_ROUND2 :: byte where "OP_ED25519_ROUND2 = 4"
definition OP_TREASURY_ROUND1 :: byte where "OP_TREASURY_ROUND1 = 5"
definition OP_TREASURY_ROUND2 :: byte where "OP_TREASURY_ROUND2 = 6"
definition STATUS_OK :: byte where "STATUS_OK = 0"
definition STATUS_ERR :: byte where "STATUS_ERR = 1"
definition MAX_FRAME :: nat where "MAX_FRAME = 4 * 2 ^ 20"

lemmas op_defs = OP_ROUND1_def OP_ROUND2_def OP_ED25519_ROUND1_def OP_ED25519_ROUND2_def
  OP_TREASURY_ROUND1_def OP_TREASURY_ROUND2_def

text \<open>A length-prefixed field holding a serialised object of the library.\<close>

definition put_field :: "('x \<Rightarrow> bytes) \<Rightarrow> 'x \<Rightarrow> bytes" where
  "put_field ser x = put_bytes (ser x)"

definition rd_field :: "(bytes \<Rightarrow> 'x option) \<Rightarrow> 'x reader" where
  "rd_field de b = do { (s, r) \<leftarrow> rd_bytes b; x \<leftarrow> de s; Some (x, r) }"

interpretation field: wire_codec "put_field ser" "rd_field de"
    "\<lambda>x. de (ser x) = Some x \<and> length (ser x) < 2 ^ 32" for ser de
  by unfold_locales (simp add: put_field_def rd_field_def bytes_codec.get_put)

text \<open>Objects whose serialisation can fail: the first failure ends the encoding.\<close>

fun ser_all :: "('x \<Rightarrow> bytes option) \<Rightarrow> string \<Rightarrow> 'x list \<Rightarrow> string + bytes" where
  "ser_all ser err [] = Ok []"
| "ser_all ser err (x # xs) =
    and_then (ok_or (ser x) err) (\<lambda>b. and_then (ser_all ser err xs) (\<lambda>r. Ok (put_bytes b @ r)))"

section \<open>Requests and replies\<close>

definition encode_round1 :: "('id, 'x, 'r) suite \<Rightarrow> u64 \<Rightarrow> bytes \<Rightarrow> 'x list \<Rightarrow> bytes" where
  "encode_round1 S request sighash alphas =
    [OP_ROUND1] @ be_bytes 8 (unat request) @ put_bytes sighash
    @ put_list_be (put_field (fr_ser_alpha S)) alphas"

definition encode_round2 :: "('id, 'x, 'r) suite \<Rightarrow> u64 \<Rightarrow> 'x list \<Rightarrow> string + bytes" where
  "encode_round2 S request packages =
    and_then (ser_all (fr_ser_package S) ''package'' packages) (\<lambda>body.
      Ok ([OP_ROUND2] @ be_bytes 8 (unat request) @ be_bytes 4 (length packages) @ body))"

definition encode_commitments :: "('id, 'x, 'r) suite \<Rightarrow> 'id \<Rightarrow> 'x list \<Rightarrow> string + bytes" where
  "encode_commitments S pid commitments =
    and_then (ser_all (fr_ser_commitments S) ''commitments'' commitments) (\<lambda>body.
      Ok (put_field (fr_id_ser S) pid @ be_bytes 4 (length commitments) @ body))"

definition encode_shares :: "('id, 'x, 'r) suite \<Rightarrow> 'id \<Rightarrow> 'x list \<Rightarrow> bytes" where
  "encode_shares S pid shares =
    put_field (fr_id_ser S) pid @ put_list_be (put_field (fr_ser_share S)) shares"

definition decode_commitments :: "('id, 'x, 'r) suite \<Rightarrow> bytes \<Rightarrow> ('id \<times> 'x list) option" where
  "decode_commitments S b = do {
     (pid, r) \<leftarrow> rd_field (fr_id_de S) b;
     (out, _) \<leftarrow> rd_list_be (rd_field (fr_de_commitments S)) r;
     Some (pid, out)
   }"

definition decode_shares :: "('id, 'x, 'r) suite \<Rightarrow> bytes \<Rightarrow> ('id \<times> 'x list) option" where
  "decode_shares S b = do {
     (pid, r) \<leftarrow> rd_field (fr_id_de S) b;
     (out, _) \<leftarrow> rd_list_be (rd_field (fr_de_share S)) r;
     Some (pid, out)
   }"

definition encode_treasury_round1 :: "u64 \<Rightarrow> bytes \<Rightarrow> bytes" where
  "encode_treasury_round1 request message =
    [OP_TREASURY_ROUND1] @ be_bytes 8 (unat request) @ put_bytes message"

definition encode_treasury_round2 :: "('id, 'x, 'r) suite \<Rightarrow> u64 \<Rightarrow> 'x \<Rightarrow> string + bytes" where
  "encode_treasury_round2 S request package =
    and_then (ok_or (fr_ser_package S package) ''package'') (\<lambda>b.
      Ok ([OP_TREASURY_ROUND2] @ be_bytes 8 (unat request) @ put_bytes b))"

definition encode_sol_round1 :: "u64 \<Rightarrow> bytes \<Rightarrow> bytes" where
  "encode_sol_round1 request message =
    [OP_ED25519_ROUND1] @ be_bytes 8 (unat request) @ put_bytes message"

definition encode_sol_round2 :: "('id, 'x, 'r) suite \<Rightarrow> u64 \<Rightarrow> 'x \<Rightarrow> string + bytes" where
  "encode_sol_round2 S request package =
    and_then (ok_or (fr_ser_package S package) ''package'') (\<lambda>b.
      Ok ([OP_ED25519_ROUND2] @ be_bytes 8 (unat request) @ put_bytes b))"

definition read_ed25519_commitments :: "('id, 'x, 'r) suite \<Rightarrow> bytes \<Rightarrow> ('id \<times> 'x) option" where
  "read_ed25519_commitments S b = do {
     (pid, r) \<leftarrow> rd_field (fr_id_de S) b;
     (c, _) \<leftarrow> rd_field (fr_de_commitments S) r;
     Some (pid, c)
   }"

definition read_ed25519_share :: "('id, 'x, 'r) suite \<Rightarrow> bytes \<Rightarrow> ('id \<times> 'x) option" where
  "read_ed25519_share S b = do {
     (pid, r) \<leftarrow> rd_field (fr_id_de S) b;
     (c, _) \<leftarrow> rd_field (fr_de_share S) r;
     Some (pid, c)
   }"

section \<open>The daemon\<close>

text \<open>\<open>format!("{:?}", e)\<close> of a custody error.\<close>

definition debug_custody :: "custody_error \<Rightarrow> string" where
  "debug_custody e = (case e of
     AlreadyOpen \<Rightarrow> ''AlreadyOpen'' | NoSuchRequest \<Rightarrow> ''NoSuchRequest''
   | ShapeMismatch \<Rightarrow> ''ShapeMismatch'' | WrongMessage \<Rightarrow> ''WrongMessage''
   | CustodyCrypto \<Rightarrow> ''Crypto'')"

definition from_custody :: "custody_error + 'a \<Rightarrow> string + 'a" where
  "from_custody r = (case r of Inl e \<Rightarrow> Err (debug_custody e) | Inr x \<Rightarrow> Ok x)"

text \<open>\<open>r.bytes().and_then(|b| b.try_into().ok())\<close> for a 32-byte array.\<close>

definition rd_array32 :: "bytes reader" where
  "rd_array32 b = do { (s, r) \<leftarrow> rd_bytes b; if length s = 32 then Some (s, r) else None }"

definition rd_alpha :: "('id, 'x, 'r) suite \<Rightarrow> 'x reader" where
  "rd_alpha S b = do { (s, r) \<leftarrow> rd_array32 b; x \<leftarrow> fr_de_alpha S s; Some (x, r) }"

definition zcash_op ::
  "('id, 'x, 'r) suite \<Rightarrow> byte \<Rightarrow> bytes \<Rightarrow> u64 \<Rightarrow> ('id, 'x) participant \<Rightarrow> 'r
    \<Rightarrow> ('id, 'x) participant \<times> 'r \<times> (string + bytes)" where
  "zcash_op S op body now p rng =
    (if op = OP_ROUND1 then
       case and_then (ok_or (rd_be 8 body) ''request id'') (\<lambda>(request :: u64, r).
            and_then (ok_or (rd_array32 r) ''sighash'') (\<lambda>(sighash, r).
            and_then (ok_or (rd_be 4 r) ''count'') (\<lambda>(n :: u32, r).
            and_then (ok_or (rd_many (rd_alpha S) (unat n) r) ''alpha'') (\<lambda>(alphas, _).
              Ok (request, sighash, alphas))))) of
         Inl e \<Rightarrow> (p, rng, Err e)
       | Inr (request, sighash, alphas) \<Rightarrow>
           (case round1 S request sighash alphas now p rng of
              (p', rng', res) \<Rightarrow> (p', rng', and_then (from_custody res) (\<lambda>cs.
                 encode_commitments S (participant_id S p') cs)))
     else if op = OP_ROUND2 then
       case and_then (ok_or (rd_be 8 body) ''request id'') (\<lambda>(request :: u64, r).
            and_then (ok_or (rd_be 4 r) ''count'') (\<lambda>(n :: u32, r).
            and_then (ok_or (rd_many (rd_field (fr_de_package S)) (unat n) r) ''package'') (\<lambda>(packages, _).
              Ok (request, packages)))) of
         Inl e \<Rightarrow> (p, rng, Err e)
       | Inr (request, packages) \<Rightarrow>
           (case round2 S request packages p of
              (p', res) \<Rightarrow> (p', rng, and_then (from_custody res) (\<lambda>shares.
                 Ok (encode_shares S (participant_id S p') shares))))
     else (p, rng, Err ''unknown op''))"

definition ed25519_op ::
  "('id, 'x, 'r) suite \<Rightarrow> byte \<Rightarrow> bytes \<Rightarrow> u64 \<Rightarrow> ('id, 'x) ed_participant \<Rightarrow> 'r
    \<Rightarrow> ('id, 'x) ed_participant \<times> 'r \<times> (string + bytes)" where
  "ed25519_op S op body now p rng =
    (if op = OP_ED25519_ROUND1 then
       case and_then (ok_or (rd_be 8 body) ''request id'') (\<lambda>(request :: u64, r).
            and_then (ok_or (rd_bytes r) ''message'') (\<lambda>(message, _). Ok (request, message))) of
         Inl e \<Rightarrow> (p, rng, Err e)
       | Inr (request, message) \<Rightarrow>
           (case ed_round1 S request message now p rng of
              (p', rng', res) \<Rightarrow> (p', rng', and_then (from_custody res) (\<lambda>c.
                 and_then (ok_or (fr_ser_commitments S c) ''commitments'') (\<lambda>b.
                   Ok (put_field (fr_id_ser S) (ed_participant_id S p') @ put_bytes b)))))
     else if op = OP_ED25519_ROUND2 then
       case and_then (ok_or (rd_be 8 body) ''request id'') (\<lambda>(request :: u64, r).
            and_then (ok_or (rd_field (fr_de_package S) r) ''package'') (\<lambda>(package, _).
              Ok (request, package))) of
         Inl e \<Rightarrow> (p, rng, Err e)
       | Inr (request, package) \<Rightarrow>
           (case ed_round2 S request package p of
              (p', res) \<Rightarrow> (p', rng, and_then (from_custody res) (\<lambda>share.
                 Ok (put_field (fr_id_ser S) (ed_participant_id S p') @ put_field (fr_ser_share S) share))))
     else (p, rng, Err ''unknown op''))"

text \<open>\<open>handle\<close>: one request against a Zcash share.\<close>

definition handle ::
  "('id, 'x, 'r) suite \<Rightarrow> bytes \<Rightarrow> u64 \<Rightarrow> ('id, 'x) participant \<Rightarrow> 'r
    \<Rightarrow> ('id, 'x) participant \<times> 'r \<times> (string + bytes)" where
  "handle S frame now p rng =
    (case frame of
       [] \<Rightarrow> (p, rng, Err ''empty'')
     | op # body \<Rightarrow> zcash_op S op body now p rng)"

record ('id, 'x) custodian =
  cu_zcash :: "('id, 'x) participant option"
  cu_ed25519 :: "('id, 'x) ed_participant option"
  cu_treasury :: "('id, 'x) ed_participant option"

definition custodian_handle ::
  "('id, 'x, 'r) suite \<Rightarrow> ('id, 'x, 'r) suite \<Rightarrow> bytes \<Rightarrow> u64 \<Rightarrow> ('id, 'x) custodian \<Rightarrow> 'r
    \<Rightarrow> ('id, 'x) custodian \<times> 'r \<times> (string + bytes)" where
  "custodian_handle Z E frame now c rng =
    (case frame of
       [] \<Rightarrow> (c, rng, Err ''empty'')
     | op # body \<Rightarrow>
       if op = OP_ROUND1 \<or> op = OP_ROUND2 then
         (case cu_zcash c of
            None \<Rightarrow> (c, rng, Err ''no zcash share here'')
          | Some p \<Rightarrow> (case zcash_op Z op body now p rng of
              (p', rng', r) \<Rightarrow> (c \<lparr> cu_zcash := Some p' \<rparr>, rng', r)))
       else if op = OP_ED25519_ROUND1 \<or> op = OP_ED25519_ROUND2 then
         (case cu_ed25519 c of
            None \<Rightarrow> (c, rng, Err ''no ed25519 share here'')
          | Some p \<Rightarrow> (case ed25519_op E op body now p rng of
              (p', rng', r) \<Rightarrow> (c \<lparr> cu_ed25519 := Some p' \<rparr>, rng', r)))
       else if op = OP_TREASURY_ROUND1 \<or> op = OP_TREASURY_ROUND2 then
         (case cu_treasury c of
            None \<Rightarrow> (c, rng, Err ''no treasury share here'')
          | Some p \<Rightarrow>
            let inner = (if op = OP_TREASURY_ROUND1 then OP_ED25519_ROUND1 else OP_ED25519_ROUND2)
            in (case ed25519_op E inner body now p rng of
              (p', rng', r) \<Rightarrow> (c \<lparr> cu_treasury := Some p' \<rparr>, rng', r)))
       else (c, rng, Err ''unknown op''))"

definition custodian_drop_expired :: "u64 \<Rightarrow> ('id, 'x) custodian \<Rightarrow> ('id, 'x) custodian" where
  "custodian_drop_expired now c = c \<lparr>
     cu_zcash := map_option (drop_expired now) (cu_zcash c),
     cu_ed25519 := map_option (ed_drop_expired now) (cu_ed25519 c),
     cu_treasury := map_option (ed_drop_expired now) (cu_treasury c) \<rparr>"

section \<open>A connection\<close>

text \<open>Reading one frame off what a connection carries: \<open>Some None\<close> ends the connection, \<open>None\<close> is
  an I/O error (the frame was cut short).\<close>

definition read_frame :: "bytes \<Rightarrow> (bytes \<times> bytes) option option" where
  "read_frame b =
    (if length b < 4 then Some None
     else let n = be_val (take 4 b); rest = drop 4 b
       in if n = 0 \<or> MAX_FRAME < n then Some None
          else if length rest < n then None
          else Some (Some (take n rest, drop n rest)))"

definition write_frame :: "byte \<Rightarrow> bytes \<Rightarrow> bytes" where
  "write_frame status body = be_bytes 4 (length body + 1) @ [status] @ body"

text \<open>\<open>serve_conn\<close>: every frame is handled under the lock, at the time its turn comes.\<close>

function serve_conn ::
  "('id, 'x, 'r) suite \<Rightarrow> ('id, 'x, 'r) suite \<Rightarrow> (nat \<Rightarrow> u64) \<Rightarrow> nat \<Rightarrow> bytes \<Rightarrow> ('id, 'x) custodian
    \<Rightarrow> 'r \<Rightarrow> ('id, 'x) custodian \<times> 'r \<times> bytes" where
  "serve_conn Z E clock k b c rng =
    (case read_frame b of
       Some (Some (frame, rest)) \<Rightarrow>
         (case custodian_handle Z E frame (clock k) c rng of
            (c', rng', reply) \<Rightarrow>
              (case serve_conn Z E clock (Suc k) rest c' rng' of
                 (c'', rng'', out) \<Rightarrow>
                   (c'', rng'', (case reply of
                      Inr body \<Rightarrow> write_frame STATUS_OK body
                    | Inl e \<Rightarrow> write_frame STATUS_ERR (ascii e)) @ out)))
     | _ \<Rightarrow> (c, rng, []))"
  by pat_completeness auto
termination
  by (relation "measure (\<lambda>(Z, E, clock, k, b, c, rng). length b)")
    (auto simp: read_frame_def Let_def split: if_splits)

declare serve_conn.simps [simp del]

text \<open>The client's side of a reply: \<open>call\<close>, and \<open>ask\<close> with its limit on the reply. The callers
  drop the error text.\<close>

definition remote_call_reply :: "bytes \<Rightarrow> bytes option" where
  "remote_call_reply b = do {
     (body, _) \<leftarrow> rd_bytes b;
     (case body of [] \<Rightarrow> None | status # rest \<Rightarrow> if status = STATUS_OK then Some rest else None)
   }"

definition ask_reply :: "bytes \<Rightarrow> bytes option" where
  "ask_reply b = do {
     (n, r) \<leftarrow> (rd_be 4 :: u32 reader) b;
     if 2 ^ 20 < unat n then None
     else do {
       (body, _) \<leftarrow> rd_take (unat n) r;
       (case body of [] \<Rightarrow> None | status # rest \<Rightarrow> if status = STATUS_OK then Some rest else None)
     }
   }"

section \<open>Quorums\<close>

text \<open>The share-holders in this process (\<open>LocalQuorum\<close> in signing.rs).\<close>

fun local_round1 ::
  "('id::linorder, 'x, 'r) suite \<Rightarrow> u64 \<Rightarrow> bytes \<Rightarrow> 'x list \<Rightarrow> u64 \<Rightarrow> ('id, 'x) participant list \<Rightarrow> 'r
    \<Rightarrow> ('id, 'x list) bmap \<Rightarrow> ('id, 'x) participant list \<times> 'r \<times> ('id, 'x list) bmap" where
  "local_round1 S request sighash alphas now [] rng out = ([], rng, out)"
| "local_round1 S request sighash alphas now (p # ps) rng out =
    (case round1 S request sighash alphas now p rng of
       (p', rng', res) \<Rightarrow>
         (case local_round1 S request sighash alphas now ps rng'
             (case res of Inl _ \<Rightarrow> out | Inr cs \<Rightarrow> bm_insert (participant_id S p') cs out) of
            (ps', rng'', out') \<Rightarrow> (p' # ps', rng'', out')))"

fun local_round2 ::
  "('id::linorder, 'x, 'r) suite \<Rightarrow> u64 \<Rightarrow> 'id list \<Rightarrow> 'x list \<Rightarrow> ('id, 'x) participant list
    \<Rightarrow> ('id, 'x list) bmap \<Rightarrow> ('id, 'x) participant list \<times> ('id, 'x list) bmap" where
  "local_round2 S request chosen packages [] out = ([], out)"
| "local_round2 S request chosen packages (p # ps) out =
    (if participant_id S p \<in> set chosen then
       (case round2 S request packages p of
          (p', res) \<Rightarrow>
            (case local_round2 S request chosen packages ps
                (case res of Inl _ \<Rightarrow> out | Inr shares \<Rightarrow> bm_insert (participant_id S p') shares out) of
               (ps', out') \<Rightarrow> (p' # ps', out')))
     else (case local_round2 S request chosen packages ps out of (ps', out') \<Rightarrow> (p # ps', out')))"

text \<open>The share-holders across a network (\<open>RemoteQuorum\<close>): \<open>call\<close> carries a frame to an address in
  a state of the network and brings the body of an accepted reply back.\<close>

type_synonym ('a, 'n) network_call = "'a \<Rightarrow> bytes \<Rightarrow> 'n \<Rightarrow> 'n \<times> bytes option"

fun remote_collect1 ::
  "('id::linorder, 'x, 'r) suite \<Rightarrow> ('a, 'n) network_call \<Rightarrow> bytes \<Rightarrow> nat \<Rightarrow> 'a list \<Rightarrow> 'n
    \<Rightarrow> ('id, 'x list) bmap \<Rightarrow> 'n \<times> ('id, 'x list) bmap" where
  "remote_collect1 S call frame actions [] net out = (net, out)"
| "remote_collect1 S call frame actions (addr # addrs) net out =
    (case call addr frame net of
       (net', reply) \<Rightarrow>
         remote_collect1 S call frame actions addrs net'
           (case Option.bind reply (decode_commitments S) of
              Some (pid, cs) \<Rightarrow> if length cs = actions then bm_insert pid cs out else out
            | None \<Rightarrow> out))"

definition remote_round1 ::
  "('id::linorder, 'x, 'r) suite \<Rightarrow> ('a, 'n) network_call \<Rightarrow> 'a list \<Rightarrow> u64 \<Rightarrow> bytes \<Rightarrow> 'x list \<Rightarrow> 'n
    \<Rightarrow> 'n \<times> ('id, 'x list) bmap" where
  "remote_round1 S call custodians request sighash alphas net =
    remote_collect1 S call (encode_round1 S request sighash alphas) (length alphas) custodians net bm_empty"

fun remote_collect2 ::
  "('id::linorder, 'x, 'r) suite \<Rightarrow> ('a, 'n) network_call \<Rightarrow> bytes \<Rightarrow> 'id list \<Rightarrow> nat \<Rightarrow> 'a list \<Rightarrow> 'n
    \<Rightarrow> ('id, 'x list) bmap \<Rightarrow> 'n \<times> ('id, 'x list) bmap" where
  "remote_collect2 S call frame chosen actions [] net out = (net, out)"
| "remote_collect2 S call frame chosen actions (addr # addrs) net out =
    (case call addr frame net of
       (net', reply) \<Rightarrow>
         remote_collect2 S call frame chosen actions addrs net'
           (case Option.bind reply (decode_shares S) of
              Some (pid, shares) \<Rightarrow>
                if pid \<in> set chosen \<and> length shares = actions then bm_insert pid shares out else out
            | None \<Rightarrow> out))"

definition remote_round2 ::
  "('id::linorder, 'x, 'r) suite \<Rightarrow> ('a, 'n) network_call \<Rightarrow> 'a list \<Rightarrow> u64 \<Rightarrow> 'id list \<Rightarrow> 'x list \<Rightarrow> 'n
    \<Rightarrow> 'n \<times> ('id, 'x list) bmap" where
  "remote_round2 S call custodians request chosen packages net =
    (case encode_round2 S request packages of
       Inl _ \<Rightarrow> (net, bm_empty)
     | Inr frame \<Rightarrow> remote_collect2 S call frame chosen (length packages) custodians net bm_empty)"

text \<open>The Ed25519 quorums: one message, one signature.\<close>

fun local_ed_round1 ::
  "('id::linorder, 'x, 'r) suite \<Rightarrow> u64 \<Rightarrow> bytes \<Rightarrow> u64 \<Rightarrow> ('id, 'x) ed_participant list \<Rightarrow> 'r
    \<Rightarrow> ('id, 'x) bmap \<Rightarrow> ('id, 'x) ed_participant list \<times> 'r \<times> ('id, 'x) bmap" where
  "local_ed_round1 S request message now [] rng out = ([], rng, out)"
| "local_ed_round1 S request message now (p # ps) rng out =
    (case ed_round1 S request message now p rng of
       (p', rng', res) \<Rightarrow>
         (case local_ed_round1 S request message now ps rng'
             (case res of Inl _ \<Rightarrow> out | Inr c \<Rightarrow> bm_insert (ed_participant_id S p') c out) of
            (ps', rng'', out') \<Rightarrow> (p' # ps', rng'', out')))"

fun local_ed_round2 ::
  "('id::linorder, 'x, 'r) suite \<Rightarrow> u64 \<Rightarrow> 'id list \<Rightarrow> 'x \<Rightarrow> ('id, 'x) ed_participant list
    \<Rightarrow> ('id, 'x) bmap \<Rightarrow> ('id, 'x) ed_participant list \<times> ('id, 'x) bmap" where
  "local_ed_round2 S request chosen package [] out = ([], out)"
| "local_ed_round2 S request chosen package (p # ps) out =
    (if ed_participant_id S p \<in> set chosen then
       (case ed_round2 S request package p of
          (p', res) \<Rightarrow>
            (case local_ed_round2 S request chosen package ps
                (case res of Inl _ \<Rightarrow> out | Inr share \<Rightarrow> bm_insert (ed_participant_id S p') share out) of
               (ps', out') \<Rightarrow> (p' # ps', out')))
     else (case local_ed_round2 S request chosen package ps out of (ps', out') \<Rightarrow> (p # ps', out')))"

fun remote_ed_collect ::
  "(bytes \<Rightarrow> ('id \<times> 'x) option) \<Rightarrow> ('id \<Rightarrow> bool) \<Rightarrow> ('a, 'n) network_call \<Rightarrow> bytes \<Rightarrow> 'a list \<Rightarrow> 'n
    \<Rightarrow> ('id::linorder, 'x) bmap \<Rightarrow> 'n \<times> ('id, 'x) bmap" where
  "remote_ed_collect read keep call frame [] net out = (net, out)"
| "remote_ed_collect read keep call frame (addr # addrs) net out =
    (case call addr frame net of
       (net', reply) \<Rightarrow>
         remote_ed_collect read keep call frame addrs net'
           (case Option.bind reply read of
              Some (pid, x) \<Rightarrow> if keep pid then bm_insert pid x out else out
            | None \<Rightarrow> out))"

definition remote_ed_round1 ::
  "('id::linorder, 'x, 'r) suite \<Rightarrow> ('a, 'n) network_call \<Rightarrow> 'a list \<Rightarrow> u64 \<Rightarrow> bytes \<Rightarrow> 'n
    \<Rightarrow> 'n \<times> ('id, 'x) bmap" where
  "remote_ed_round1 S call custodians request message net =
    remote_ed_collect (read_ed25519_commitments S) (\<lambda>_. True) call (encode_sol_round1 request message)
      custodians net bm_empty"

definition remote_ed_round2 ::
  "('id::linorder, 'x, 'r) suite \<Rightarrow> ('a, 'n) network_call \<Rightarrow> 'a list \<Rightarrow> u64 \<Rightarrow> 'id list \<Rightarrow> 'x \<Rightarrow> 'n
    \<Rightarrow> 'n \<times> ('id, 'x) bmap" where
  "remote_ed_round2 S call custodians request chosen package net =
    (case encode_sol_round2 S request package of
       Inl _ \<Rightarrow> (net, bm_empty)
     | Inr frame \<Rightarrow>
         remote_ed_collect (read_ed25519_share S) (\<lambda>pid. pid \<in> set chosen) call frame custodians net bm_empty)"

section \<open>The wire loses nothing\<close>

text \<open>The library's serialisations are read back, and fit a length field.\<close>

definition suite_wire :: "('id, 'x, 'r) suite \<Rightarrow> bool" where
  "suite_wire S \<longleftrightarrow>
    (\<forall>a. length (fr_ser_alpha S a) = 32 \<and> fr_de_alpha S (fr_ser_alpha S a) = Some a) \<and>
    (\<forall>i. length (fr_id_ser S i) < 2 ^ 32 \<and> fr_id_de S (fr_id_ser S i) = Some i) \<and>
    (\<forall>c. \<exists>b. fr_ser_commitments S c = Some b \<and> length b < 2 ^ 32 \<and> fr_de_commitments S b = Some c) \<and>
    (\<forall>k. \<exists>b. fr_ser_package S k = Some b \<and> length b < 2 ^ 32 \<and> fr_de_package S b = Some k) \<and>
    (\<forall>s. length (fr_ser_share S s) < 2 ^ 32 \<and> fr_de_share S (fr_ser_share S s) = Some s)"

lemma ser_all_put:
  assumes "\<forall>x. \<exists>b. ser x = Some b \<and> length b < 2 ^ 32 \<and> de b = Some x"
  shows "ser_all ser err xs = Ok (concat (map (put_field (\<lambda>x. the (ser x))) xs))"
proof (induction xs)
  case (Cons x xs)
  obtain b where "ser x = Some b" using assms by blast
  with Cons show ?case by (simp add: put_field_def)
qed simp

lemma field_the:
  assumes "\<forall>x. \<exists>b. ser x = Some b \<and> length b < 2 ^ 32 \<and> de b = Some x"
  shows "list_all (\<lambda>x. de (the (ser x)) = Some x \<and> length (the (ser x)) < 2 ^ 32) xs"
  using assms by (simp add: list_all_iff) (metis option.sel)

lemma rd_alpha_many:
  assumes "\<forall>a. length (fr_ser_alpha S a) = 32 \<and> fr_de_alpha S (fr_ser_alpha S a) = Some a"
  shows "rd_many (rd_alpha S) (length as) (concat (map (put_field (fr_ser_alpha S)) as) @ r) = Some (as, r)"
proof (induction "as")
  case (Cons a as)
  have "rd_bytes (put_bytes (fr_ser_alpha S a) @ r') = Some (fr_ser_alpha S a, r')" for r'
    using assms by (intro bytes_codec.get_put) simp
  with Cons assms show ?case by (simp add: rd_alpha_def rd_array32_def put_field_def)
qed simp

lemma be32_length: "n < 2 ^ 32 \<Longrightarrow> (rd_be 4 :: u32 reader) (be_bytes 4 n @ r) = Some (of_nat n, r)"
  by (rule rd_be32_length)

lemma handle_round1:
  assumes "suite_wire S" and "length sighash = 32" and "length alphas < 2 ^ 32"
  shows "handle S (encode_round1 S request sighash alphas) now p rng =
    (case round1 S request sighash alphas now p rng of
       (p', rng', res) \<Rightarrow> (p', rng', and_then (from_custody res) (encode_commitments S (participant_id S p'))))"
proof -
  have "rd_array32 (put_bytes sighash @ r) = Some (sighash, r)" for r
    using assms(2) bytes_codec.get_put [of sighash r] by (simp add: rd_array32_def)
  moreover have "rd_many (rd_alpha S) (length alphas)
      (concat (map (put_field (fr_ser_alpha S)) alphas)) = Some (alphas, [])"
    using rd_alpha_many [of S alphas "[]"] assms(1) by (simp add: suite_wire_def)
  ultimately show ?thesis
    using assms(3)
    by (simp add: handle_def encode_round1_def zcash_op_def put_list_be_def be64.get_put
        be32_length unat_of_nat_u32 eta_contract_eq)
qed

lemma encode_round2_Ok:
  assumes "suite_wire S"
  shows "encode_round2 S request packages = Ok ([OP_ROUND2] @ be_bytes 8 (unat request)
    @ put_list_be (put_field (\<lambda>x. the (fr_ser_package S x))) packages)"
proof -
  have "\<forall>x. \<exists>b. fr_ser_package S x = Some b \<and> length b < 2 ^ 32 \<and> fr_de_package S b = Some x"
    using assms unfolding suite_wire_def by blast
  from ser_all_put [OF this] show ?thesis
    by (simp add: encode_round2_def put_list_be_def)
qed

lemma handle_round2:
  assumes "suite_wire S" and "length packages < 2 ^ 32" and "encode_round2 S request packages = Ok frame"
  shows "handle S frame now p rng =
    (case round2 S request packages p of
       (p', res) \<Rightarrow> (p', rng, and_then (from_custody res)
         (\<lambda>shares. Ok (encode_shares S (participant_id S p') shares))))"
proof -
  have w: "\<forall>x. \<exists>b. fr_ser_package S x = Some b \<and> length b < 2 ^ 32 \<and> fr_de_package S b = Some x"
    using assms unfolding suite_wire_def by blast
  have "rd_many (rd_field (fr_de_package S)) (length packages)
      (concat (map (put_field (\<lambda>x. the (fr_ser_package S x))) packages)) = Some (packages, [])"
    using field.many_put [OF field_the [OF w, of packages], of "[]"] by simp
  then show ?thesis
    using assms(2,3) unfolding encode_round2_Ok [OF assms(1)]
    by (auto simp: handle_def zcash_op_def put_list_be_def be64.get_put be32_length
        unat_of_nat_u32 op_defs)
qed

lemma decode_encode_commitments:
  assumes "suite_wire S" and "length cs < 2 ^ 32" and "encode_commitments S pid cs = Ok b"
  shows "decode_commitments S b = Some (pid, cs)"
proof -
  have w: "\<forall>x. \<exists>b. fr_ser_commitments S x = Some b \<and> length b < 2 ^ 32 \<and> fr_de_commitments S b = Some x"
    using assms unfolding suite_wire_def by blast
  have "rd_field (fr_id_de S) (put_field (fr_id_ser S) pid @ r) = Some (pid, r)" for r
    using assms(1) by (intro field.get_put) (simp add: suite_wire_def)
  moreover have "rd_list_be (rd_field (fr_de_commitments S))
      (put_list_be (put_field (\<lambda>x. the (fr_ser_commitments S x))) cs) = Some (cs, [])"
    using field.list_be_put [OF assms(2) field_the [OF w], of "[]"] by simp
  ultimately show ?thesis
    using assms(3) by (auto simp: encode_commitments_def ser_all_put [OF w] decode_commitments_def put_list_be_def)
qed

lemma encode_commitments_Ok:
  "suite_wire S \<Longrightarrow> \<exists>b. encode_commitments S pid cs = Ok b"
proof -
  assume "suite_wire S"
  then have w: "\<forall>x. \<exists>b. fr_ser_commitments S x = Some b \<and> length b < 2 ^ 32 \<and> fr_de_commitments S b = Some x"
    unfolding suite_wire_def by blast
  show ?thesis by (simp add: encode_commitments_def ser_all_put [OF w])
qed

lemma decode_encode_shares:
  assumes "suite_wire S" and "length shares < 2 ^ 32"
  shows "decode_shares S (encode_shares S pid shares) = Some (pid, shares)"
proof -
  have "rd_field (fr_id_de S) (put_field (fr_id_ser S) pid @ r) = Some (pid, r)" for r
    using assms(1) by (intro field.get_put) (simp add: suite_wire_def)
  moreover have "rd_list_be (rd_field (fr_de_share S)) (put_list_be (put_field (fr_ser_share S)) shares)
      = Some (shares, [])"
    using field.list_be_put [OF assms(2), of "fr_de_share S" "fr_ser_share S" "[]"] assms(1)
    by (simp add: suite_wire_def list_all_iff)
  ultimately show ?thesis by (simp add: encode_shares_def decode_shares_def)
qed

section \<open>A served network\<close>

text \<open>The network whose addresses are the positions of share-holders, each behind \<open>handle\<close>.\<close>

definition served ::
  "('id, 'x, 'r) suite \<Rightarrow> u64 \<Rightarrow> (nat, ('id, 'x) participant list \<times> 'r) network_call" where
  "served S now i frame net =
    (case net of
       (ps, rng) \<Rightarrow>
         if i < length ps then
           (case handle S frame now (ps ! i) rng of
              (p', rng', r) \<Rightarrow> ((ps[i := p'], rng'), case r of Inl _ \<Rightarrow> None | Inr b \<Rightarrow> Some b))
         else (net, None))"

lemma round1_length: "round1 S request h alphas now p rng = (p', rng', Ok cs) \<Longrightarrow> length cs = length alphas"
proof -
  have "begin_sessions S pid keys as rng = (ss, rng'') \<Longrightarrow> length ss = length as" for pid keys "as" rng ss rng''
    by (induction "as" arbitrary: rng ss) (auto split: prod.splits)
  then show "round1 S request h alphas now p rng = (p', rng', Ok cs) \<Longrightarrow> ?thesis"
    by (auto simp: round1_def Let_def split: prod.splits if_splits)
qed

lemma round2_length: "round2 S request packages p = (p', Ok shares) \<Longrightarrow> length shares \<le> length packages"
proof -
  have "sign_packages S keys xs = Ok shares \<Longrightarrow> length shares = length xs" for keys xs shares
    by (induction xs arbitrary: shares) (auto simp: result_simps)
  then show "round2 S request packages p = (p', Ok shares) \<Longrightarrow> ?thesis"
    by (fastforce simp: round2_def split: option.splits if_splits)
qed

lemma remote_collect1_served:
  assumes w: "suite_wire S" "length sighash = 32" "length alphas < 2 ^ 32"
  shows "local_round1 S request sighash alphas now ps rng out = (ps', rng', out') \<Longrightarrow>
    remote_collect1 S (served S now) (encode_round1 S request sighash alphas) (length alphas)
      [length qs..<length qs + length ps] (qs @ ps, rng) out = ((qs @ ps', rng'), out')"
proof (induction ps arbitrary: qs rng out ps')
  case (Cons p ps)
  obtain p1 rng1 res where r1: "round1 S request sighash alphas now p rng = (p1, rng1, res)"
    by (metis prod.exhaust)
  define out1 where "out1 = (case res of Inl _ \<Rightarrow> out | Inr cs \<Rightarrow> bm_insert (participant_id S p1) cs out)"
  obtain ps1 where l: "local_round1 S request sighash alphas now ps rng1 out1 = (ps1, rng', out')"
    and ps': "ps' = p1 # ps1"
    using Cons.prems r1 by (auto simp: out1_def split: prod.splits)
  have "served S now (length qs) (encode_round1 S request sighash alphas) (qs @ p # ps, rng)
      = ((qs @ p1 # ps, rng1), case and_then (from_custody res) (encode_commitments S (participant_id S p1))
          of Inl _ \<Rightarrow> None | Inr b \<Rightarrow> Some b)"
    by (simp add: served_def handle_round1 [OF w] r1)
  moreover have "(case Option.bind (case and_then (from_custody res)
        (encode_commitments S (participant_id S p1)) of Inl _ \<Rightarrow> None | Inr b \<Rightarrow> Some b) (decode_commitments S) of
      Some (pid, cs) \<Rightarrow> if length cs = length alphas then bm_insert pid cs out else out
    | None \<Rightarrow> out) = out1"
  proof (cases res)
    case (Inl e)
    then show ?thesis by (simp add: out1_def from_custody_def)
  next
    case (Inr cs)
    have len: "length cs = length alphas" by (rule round1_length [OF r1 [unfolded Inr]])
    obtain b where b: "encode_commitments S (participant_id S p1) cs = Ok b"
      using encode_commitments_Ok [OF w(1)] by blast
    have "decode_commitments S b = Some (participant_id S p1, cs)"
      using decode_encode_commitments [OF w(1) _ b] len w(3) by simp
    then show ?thesis by (simp add: out1_def from_custody_def Inr b len)
  qed
  moreover have "[length qs..<length qs + length (p # ps)]
      = length qs # [length (qs @ [p1])..<length (qs @ [p1]) + length ps]"
    by (simp add: upt_rec)
  ultimately show ?case using Cons.IH [OF l, of "qs @ [p1]"] by (simp add: ps')
qed simp

lemma remote_collect2_served:
  assumes w: "suite_wire S" "length packages < 2 ^ 32" "encode_round2 S request packages = Ok frame"
    and shape: "\<forall>p \<in> set ps. \<forall>p' shares. round2 S request packages p = (p', Ok shares) \<longrightarrow>
      length shares = length packages"
  shows "snd (remote_collect2 S (served S now) frame chosen (length packages)
      [length qs..<length qs + length ps] (qs @ ps, rng) out)
    = snd (local_round2 S request chosen packages ps out)"
  using shape
proof (induction ps arbitrary: qs out)
  case (Cons p ps)
  obtain p1 res where r2: "round2 S request packages p = (p1, res)" by fastforce
  have pid: "participant_id S p1 = participant_id S p"
    using r2 by (auto simp: round2_def participant_id_def split: option.splits)
  define out1 where "out1 = (if participant_id S p \<in> set chosen
    then (case res of Inl _ \<Rightarrow> out | Inr shares \<Rightarrow> bm_insert (participant_id S p1) shares out) else out)"
  have "served S now (length qs) frame (qs @ p # ps, rng)
      = ((qs @ p1 # ps, rng), case and_then (from_custody res)
          (\<lambda>shares. Ok (encode_shares S (participant_id S p1) shares)) of Inl _ \<Rightarrow> None | Inr b \<Rightarrow> Some b)"
    by (simp add: served_def handle_round2 [OF w] r2)
  moreover have "(case Option.bind (case and_then (from_custody res)
        (\<lambda>shares. Ok (encode_shares S (participant_id S p1) shares)) of Inl _ \<Rightarrow> None | Inr b \<Rightarrow> Some b)
        (decode_shares S) of
      Some (pid, shares) \<Rightarrow>
        if pid \<in> set chosen \<and> length shares = length packages then bm_insert pid shares out else out
    | None \<Rightarrow> out) = out1"
  proof (cases res)
    case (Inr shares)
    with Cons.prems r2 have "length shares = length packages" by auto
    with Inr decode_encode_shares [OF w(1), of shares] w(2) pid show ?thesis
      by (simp add: out1_def from_custody_def)
  qed (simp add: out1_def from_custody_def)
  moreover have "[length qs..<length qs + length (p # ps)]
      = length qs # [length (qs @ [p1])..<length (qs @ [p1]) + length ps]"
    by (simp add: upt_rec)
  moreover have "snd (local_round2 S request chosen packages (p # ps) out)
      = snd (local_round2 S request chosen packages ps out1)"
    by (simp add: out1_def r2 split: prod.splits)
  ultimately show ?case using Cons.IH [of "qs @ [p1]" out1] Cons.prems by simp
qed simp

text \<open>A participant's requests have one randomizer for each session; every call keeps that.\<close>

definition participant_ok :: "('id, 'x) participant \<Rightarrow> bool" where
  "participant_ok p \<longleftrightarrow> (\<forall>e \<in> set (pa_live p). length (lv_alphas (snd e)) = length (lv_sessions (snd e)))"

lemma participant_ok_new [simp]: "participant_ok (participant_new keys)"
  by (simp add: participant_ok_def participant_new_def bm_empty_def)

lemma set_bm_insert_le: "set (bm_insert k v m) \<subseteq> insert (k, v) (set m)"
  by (induction m) (auto split: if_splits)

lemma participant_ok_round1:
  assumes "participant_ok p" and "round1 S request h alphas now p rng = (p', rng', res)"
  shows "participant_ok p'"
proof -
  have len: "begin_sessions S pid keys as rng = (ss, rng'') \<Longrightarrow> length ss = length as" for pid keys "as" rng ss rng''
    by (induction "as" arbitrary: rng ss) (auto split: prod.splits)
  have "participant_ok (drop_expired now p)"
    using assms(1) by (auto simp: participant_ok_def drop_expired_def bm_retain_def)
  then show ?thesis
    using assms(2) set_bm_insert_le
    by (fastforce simp: round1_def Let_def participant_ok_def dest: len split: prod.splits if_splits)
qed

lemma round2_shape:
  assumes "participant_ok p" and "round2 S request packages p = (p', Ok shares)"
  shows "length shares = length packages"
proof -
  have len: "sign_packages S keys xs = Ok shares \<Longrightarrow> length shares = length xs" for keys xs shares
    by (induction xs arbitrary: shares) (auto simp: result_simps)
  from assms(2) obtain req where req: "bm_get (pa_live p) request = Some req"
    and l: "length packages = length (lv_sessions req)"
    and s: "sign_packages S (pa_keys p) (zip packages (zip (lv_sessions req) (lv_alphas req))) = Ok shares"
    by (auto simp: round2_def split: option.splits if_splits)
  have "length (lv_alphas req) = length (lv_sessions req)"
    using assms(1) bm_get_SomeD [OF req] by (auto simp: participant_ok_def)
  with len [OF s] l show ?thesis by simp
qed

text \<open>The two rounds over the wire, served by the share-holders the quorum in the process would ask.\<close>

lemma remote_round1_served:
  assumes "suite_wire S" and "is_array 32 sighash" and "length alphas < 2 ^ 32"
    and "local_round1 S request sighash alphas now ps rng bm_empty = (ps', rng', out)"
  shows "remote_round1 S (served S now) [0..<length ps] request sighash alphas (ps, rng) = ((ps', rng'), out)"
proof -
  have "length sighash = 32" using assms(2) by (simp add: is_array_def)
  from remote_collect1_served [OF assms(1) this assms(3,4), of "[]"] show ?thesis by (simp add: remote_round1_def)
qed

lemma remote_round2_served:
  assumes "suite_wire S" and "length packages < 2 ^ 32" and "\<forall>p \<in> set ps. participant_ok p"
  shows "snd (remote_round2 S (served S now) [0..<length ps] request chosen packages (ps, rng))
    = snd (local_round2 S request chosen packages ps bm_empty)"
proof -
  note f = encode_round2_Ok [OF assms(1), of request packages]
  have "\<forall>p \<in> set ps. \<forall>p' shares. round2 S request packages p = (p', Ok shares) \<longrightarrow>
      length shares = length packages"
    using assms(3) round2_shape by blast
  from remote_collect2_served [OF assms(1,2) f this, of now chosen "[]" rng bm_empty]
  show ?thesis by (simp add: remote_round2_def f)
qed

section \<open>Properties\<close>


text \<open>A library with one object of each kind, for the witnesses on the wire.\<close>

definition unit_suite :: "(u16, unit, unit) suite" where
  "unit_suite = \<lparr>
    fr_identifier = (\<lambda>i. if i = 0 then None else Some i),
    fr_id_ser = (\<lambda>i. be_bytes 2 (unat i)),
    fr_id_de = (\<lambda>b. if length b = 2 then Some (of_nat (be_val b)) else None),
    fr_part1 = (\<lambda>i n t r. (Some ((), ()), ())),
    fr_part2 = (\<lambda>s others. Some ((), others)),
    fr_part3 = (\<lambda>s others mine. Some ((), ())),
    fr_key_id = (\<lambda>b. 1), fr_group_key = (\<lambda>p. ()),
    fr_commit = (\<lambda>kp r. (((), ()), ())),
    fr_package = (\<lambda>cs m. ()), fr_message = (\<lambda>p. zeros 32),
    fr_sign = (\<lambda>p n kp. Some ()), fr_sign_rand = (\<lambda>p n kp a. Some ()),
    fr_aggregate = (\<lambda>p shares pub. Some ()), fr_params = (\<lambda>k a. ()),
    fr_aggregate_rand = (\<lambda>p shares pub ps. Some ()),
    fr_ser_package = (\<lambda>_. Some [1]), fr_de_package = (\<lambda>_. Some ()),
    fr_ser_commitments = (\<lambda>_. Some [2]), fr_de_commitments = (\<lambda>_. Some ()),
    fr_ser_share = (\<lambda>b. [3]), fr_de_share = (\<lambda>_. Some ()),
    fr_ser_alpha = (\<lambda>b. zeros 32), fr_de_alpha = (\<lambda>_. Some ()),
    fr_ser_key = (\<lambda>_. Some (zeros 32)), fr_ser_signature = (\<lambda>_. Some (zeros 64)),
    fr_ser_round1 = (\<lambda>_. Some [4]), fr_de_round1 = (\<lambda>_. Some ()),
    fr_ser_round2 = (\<lambda>_. Some [5]), fr_de_round2 = (\<lambda>_. Some ()),
    fr_ser_key_package = (\<lambda>_. Some [6]), fr_de_key_package = (\<lambda>_. Some ()),
    fr_ser_public = (\<lambda>_. Some [7]), fr_de_public = (\<lambda>_. Some ()) \<rparr>"

lemma be16_read: "of_nat (be_val (be_bytes 2 (unat (i :: u16)))) = i"
  by (rule of_nat_be_val) simp

lemma unit_suite_wire: "suite_wire unit_suite"
  by (simp add: suite_wire_def unit_suite_def be16_read)

definition unit_participant :: "(u16, unit) participant" where
  "unit_participant = participant_new \<lparr> tk_key_package = (), tk_public_package = () \<rparr>"


text \<open>C38: a request reaches only the share it names. Whatever the frame, at most one of a daemon's
  three shares changes: the Zcash vault's for ops 1 and 2, the Ed25519 vault's for 3 and 4, the
  treasury's for 5 and 6, none for any other op or an empty frame; and an op for a share the
  daemon does not hold is refused.\<close>

theorem requests_reach_only_their_share:
  assumes "custodian_handle Z E frame now c rng = (c', rng', r)"
  shows "(cu_zcash c' \<noteq> cu_zcash c \<longrightarrow> frame \<noteq> [] \<and> hd frame \<in> {OP_ROUND1, OP_ROUND2}) \<and>
    (cu_ed25519 c' \<noteq> cu_ed25519 c \<longrightarrow> frame \<noteq> [] \<and> hd frame \<in> {OP_ED25519_ROUND1, OP_ED25519_ROUND2}) \<and>
    (cu_treasury c' \<noteq> cu_treasury c \<longrightarrow> frame \<noteq> [] \<and> hd frame \<in> {OP_TREASURY_ROUND1, OP_TREASURY_ROUND2}) \<and>
    (\<forall>body. r = Ok body \<longrightarrow> frame \<noteq> [] \<and>
      (hd frame \<in> {OP_ROUND1, OP_ROUND2} \<and> cu_zcash c \<noteq> None \<or>
       hd frame \<in> {OP_ED25519_ROUND1, OP_ED25519_ROUND2} \<and> cu_ed25519 c \<noteq> None \<or>
       hd frame \<in> {OP_TREASURY_ROUND1, OP_TREASURY_ROUND2} \<and> cu_treasury c \<noteq> None))"
  using assms
  by (auto simp: custodian_handle_def Let_def op_defs split: list.splits if_splits option.splits prod.splits)

theorem requests_reach_only_their_share_witness:
  "\<exists>c' rng' body. custodian_handle unit_suite unit_suite [OP_TREASURY_ROUND1, 0, 0, 0, 0, 0, 0, 0, 9, 0, 0, 0, 1, 65] 7
      \<lparr> cu_zcash = None, cu_ed25519 = None, cu_treasury = Some (ed_participant_new \<lparr> tk_key_package = (), tk_public_package = () \<rparr>) \<rparr> ()
      = (c', rng', Ok body) \<and> cu_zcash c' = None \<and> cu_ed25519 c' = None \<and> cu_treasury c' \<noteq> None"
proof -
  let ?c = "\<lparr> cu_zcash = None, cu_ed25519 = None, cu_treasury = Some (ed_participant_new \<lparr> tk_key_package = (), tk_public_package = () \<rparr>) \<rparr>
    :: (u16, unit) custodian"
  let ?f = "[OP_TREASURY_ROUND1, 0, 0, 0, 0, 0, 0, 0, 9, 0, 0, 0, 1, 65] :: bytes"
  have "case custodian_handle unit_suite unit_suite ?f 7 ?c () of
      (c', rng', r) \<Rightarrow> (case r of Inr body \<Rightarrow> True | Inl _ \<Rightarrow> False) \<and> cu_treasury c' \<noteq> None"
    by code_simp
  then obtain c' rng' body where h: "custodian_handle unit_suite unit_suite ?f 7 ?c () = (c', rng', Ok body)"
    and t: "cu_treasury c' \<noteq> None"
    by (auto split: prod.splits sum.splits)
  from requests_reach_only_their_share [OF h] have "cu_zcash c' = None \<and> cu_ed25519 c' = None"
    by (auto simp: op_defs)
  with h t show ?thesis by blast
qed

text \<open>The deadline of a request is not enforced where it would matter. The answer to a round-two
  frame does not depend on the time it arrives at, so a request that outlived
  \<open>REQUEST_TTL_SECS\<close> is still signed; only a later round one against the same share releases it.\<close>

theorem round_two_ignores_deadline:
  assumes "frame \<noteq> []" and "hd frame \<in> {OP_ROUND2, OP_ED25519_ROUND2, OP_TREASURY_ROUND2}"
  shows "custodian_handle Z E frame now c rng = custodian_handle Z E frame later c rng"
  using assms
  by (auto simp: custodian_handle_def zcash_op_def ed25519_op_def Let_def op_defs
      split: list.splits option.splits)

definition opened_custodian :: "(u16, unit) custodian" where
  "opened_custodian = \<lparr> cu_zcash = Some (fst (round1 unit_suite 9 (zeros 32) [()] 0 unit_participant ())),
    cu_ed25519 = None, cu_treasury = None \<rparr>"

definition round2_frame :: bytes where
  "round2_frame = [OP_ROUND2, 0, 0, 0, 0, 0, 0, 0, 9, 0, 0, 0, 1, 0, 0, 0, 1, 1]"

theorem round_two_ignores_deadline_witness:
  "snd (snd (custodian_handle unit_suite unit_suite round2_frame (REQUEST_TTL_SECS + 1000000) opened_custodian ()))
    = Ok (encode_shares unit_suite 1 [()])"
proof -
  have "round2_frame \<noteq> []" "hd round2_frame \<in> {OP_ROUND2, OP_ED25519_ROUND2, OP_TREASURY_ROUND2}"
    by (simp_all add: round2_frame_def)
  from round_two_ignores_deadline [OF this, of unit_suite unit_suite "REQUEST_TTL_SECS + 1000000"
      opened_custodian "()" 0]
  moreover have "snd (snd (custodian_handle unit_suite unit_suite round2_frame 0 opened_custodian ()))
      = Ok (encode_shares unit_suite 1 [()])"
    by code_simp
  ultimately show ?thesis by simp
qed

text \<open>Over the wire, round two asks every share-holder, not only the chosen ones. With two
  share-holders and one chosen, the in-process quorum leaves the request of the other open; the
  remote quorum consumes it, so the share that was not chosen has signed as well.\<close>

theorem remote_round2_asks_everyone:
  "let opened = fst (round1 demo_suite 9 (zeros 32) [[]] 0 (participant_new \<lparr> tk_key_package = [0, 1], tk_public_package = [7] \<rparr>) 0);
       other = fst (round1 demo_suite 9 (zeros 32) [[]] 0 (participant_new \<lparr> tk_key_package = [0, 2], tk_public_package = [7] \<rparr>) 1)
   in map open_requests (fst (local_round2 demo_suite 9 [1] [[]] [opened, other] bm_empty)) = [0, 1] \<and>
      map open_requests (fst (fst (remote_round2 demo_suite (served demo_suite 0) [0, 1] 9 [1] [[]] ([opened, other], 2)))) = [0, 0]"
  by code_simp

end
