(* ===== verification/Dkg_Net.thy ===== *)
theory Dkg_Net
  imports Ceremony Wire
begin

text \<open>
  dkg_net.rs: the distributed key generation across machines. Sealing of round-two packages, one
  participant's three parts, the driver in one process, and the relay and its client. X25519,
  SHA-256, ChaCha20-Poly1305 and the source of random bytes are the record \<open>seal_suite\<close>.
\<close>

section \<open>Sealing\<close>

record 'r seal_suite =
  x25519_public :: "bytes \<Rightarrow> bytes"
  x25519_shared :: "bytes \<Rightarrow> bytes \<Rightarrow> bytes"
  seal_sha256 :: "bytes \<Rightarrow> bytes"
  aead_encrypt :: "bytes \<Rightarrow> bytes \<Rightarrow> bytes \<Rightarrow> bytes option"
  aead_decrypt :: "bytes \<Rightarrow> bytes \<Rightarrow> bytes \<Rightarrow> bytes option"
  fill_bytes :: "nat \<Rightarrow> 'r \<Rightarrow> bytes \<times> 'r"

record seal_key =
  sk_secret :: bytes
  sk_public :: bytes

definition seal_key_new :: "'r seal_suite \<Rightarrow> 'r \<Rightarrow> seal_key \<times> 'r" where
  "seal_key_new X rng =
    (case fill_bytes X 32 rng of
       (seed, rng') \<Rightarrow> (\<lparr> sk_secret = seed, sk_public = x25519_public X seed \<rparr>, rng'))"

text \<open>The key of the cipher.\<close>

definition cipher :: "'r seal_suite \<Rightarrow> bytes \<Rightarrow> bytes \<Rightarrow> bytes" where
  "cipher X secret peer = seal_sha256 X (ascii ''zec.dkg.seal.v1'' @ x25519_shared X secret peer)"

definition seal :: "'r seal_suite \<Rightarrow> seal_key \<Rightarrow> bytes \<Rightarrow> bytes \<Rightarrow> ceremony_error + bytes" where
  "seal X sender recipient_public plaintext =
    ok_or (aead_encrypt X (cipher X (sk_secret sender) recipient_public) (zeros 12) plaintext) CeremonyCrypto"

definition unseal :: "'r seal_suite \<Rightarrow> seal_key \<Rightarrow> bytes \<Rightarrow> bytes \<Rightarrow> ceremony_error + bytes" where
  "unseal X recipient sender_public ciphertext =
    ok_or (aead_decrypt X (cipher X (sk_secret recipient) sender_public) (zeros 12) ciphertext) CeremonyCrypto"

section \<open>One participant\<close>

record ('id, 'x) broadcast =
  bc_id :: 'id
  bc_package :: 'x
  bc_seal_public :: bytes

record ('id, 'x) dkg_participant =
  dp_id :: 'id
  dp_threshold :: u16
  dp_participants :: u16
  dp_seal :: seal_key
  dp_r1_secret :: "'x option"
  dp_r2_secret :: "'x option"
  dp_r1_all :: "('id, 'x) bmap"
  dp_seal_pubs :: "('id, bytes) bmap"

definition dkg_part1 ::
  "('id::linorder, 'x, 'r) suite \<Rightarrow> 'r seal_suite \<Rightarrow> 'id \<Rightarrow> u16 \<Rightarrow> u16 \<Rightarrow> 'r
    \<Rightarrow> (ceremony_error + ('id, 'x) dkg_participant \<times> ('id, 'x) broadcast) \<times> 'r" where
  "dkg_part1 S X pid threshold participants rng =
    (case fr_part1 S pid participants threshold rng of
       (None, rng') \<Rightarrow> (Err CeremonyCrypto, rng')
     | (Some (secret, package), rng') \<Rightarrow>
       (case seal_key_new X rng' of
          (key, rng'') \<Rightarrow>
            (Ok (\<lparr> dp_id = pid, dp_threshold = threshold, dp_participants = participants,
                   dp_seal = key, dp_r1_secret = Some secret, dp_r2_secret = None,
                   dp_r1_all = bm_insert pid package bm_empty,
                   dp_seal_pubs = bm_insert pid (sk_public key) bm_empty \<rparr>,
                 \<lparr> bc_id = pid, bc_package = package, bc_seal_public = sk_public key \<rparr>), rng'')))"

text \<open>The packages of round two, each sealed to its recipient.\<close>

fun seal_packages ::
  "('id::linorder, 'x, 'r) suite \<Rightarrow> 'r seal_suite \<Rightarrow> seal_key \<Rightarrow> ('id, bytes) bmap \<Rightarrow> ('id, 'x) bmap
    \<Rightarrow> ('id, bytes) bmap \<Rightarrow> ceremony_error + ('id, bytes) bmap" where
  "seal_packages S X key pubs [] sealed = Ok sealed"
| "seal_packages S X key pubs ((to, package) # p2) sealed =
    and_then (ok_or (fr_ser_round2 S package) CeremonyCrypto) (\<lambda>b.
    and_then (ok_or (bm_get pubs to) Incomplete) (\<lambda>peer.
    and_then (seal X key peer b) (\<lambda>ct. seal_packages S X key pubs p2 (bm_insert to ct sealed))))"

definition learn :: "('id::linorder, 'x) broadcast list \<Rightarrow> ('id, 'x) dkg_participant \<Rightarrow> ('id, 'x) dkg_participant" where
  "learn others p = p \<lparr>
     dp_r1_all := fold (\<lambda>b m. bm_insert (bc_id b) (bc_package b) m) others (dp_r1_all p),
     dp_seal_pubs := fold (\<lambda>b m. bm_insert (bc_id b) (bc_seal_public b) m) others (dp_seal_pubs p) \<rparr>"

definition dkg_part2 ::
  "('id::linorder, 'x, 'r) suite \<Rightarrow> 'r seal_suite \<Rightarrow> ('id, 'x) broadcast list \<Rightarrow> ('id, 'x) dkg_participant
    \<Rightarrow> ('id, 'x) dkg_participant \<times> (ceremony_error + ('id, bytes) bmap)" where
  "dkg_part2 S X others p0 =
    (let p = learn others p0 in
     if length (dp_r1_all p) \<noteq> unat (dp_participants p) then (p, Err Incomplete)
     else case dp_r1_secret p of
       None \<Rightarrow> (p, Err Incomplete)
     | Some secret \<Rightarrow>
         let p' = p \<lparr> dp_r1_secret := None \<rparr> in
         (case fr_part2 S secret (others_than (dp_id p) (dp_r1_all p)) of
            None \<Rightarrow> (p', Err CeremonyCrypto)
          | Some (s2, p2) \<Rightarrow>
              (p' \<lparr> dp_r2_secret := Some s2 \<rparr>,
               seal_packages S X (dp_seal p) (dp_seal_pubs p) p2 bm_empty)))"

fun open_packages ::
  "('id::linorder, 'x, 'r) suite \<Rightarrow> 'r seal_suite \<Rightarrow> seal_key \<Rightarrow> ('id, bytes) bmap \<Rightarrow> ('id, bytes) bmap
    \<Rightarrow> ('id, 'x) bmap \<Rightarrow> ceremony_error + ('id, 'x) bmap" where
  "open_packages S X key pubs [] out = Ok out"
| "open_packages S X key pubs ((sender, ct) # cts) out =
    and_then (ok_or (bm_get pubs sender) Incomplete) (\<lambda>peer.
    and_then (unseal X key peer ct) (\<lambda>b.
    and_then (ok_or (fr_de_round2 S b) CeremonyCrypto) (\<lambda>package.
      open_packages S X key pubs cts (bm_insert sender package out))))"

definition dkg_part3 ::
  "('id::linorder, 'x, 'r) suite \<Rightarrow> 'r seal_suite \<Rightarrow> ('id, bytes) bmap \<Rightarrow> ('id, 'x) dkg_participant
    \<Rightarrow> ('id, 'x) dkg_participant \<times> (ceremony_error + 'x threshold_keys)" where
  "dkg_part3 S X sealed_for_me p =
    (case dp_r2_secret p of
       None \<Rightarrow> (p, Err Incomplete)
     | Some secret \<Rightarrow>
         (p \<lparr> dp_r2_secret := None \<rparr>,
          and_then (open_packages S X (dp_seal p) (dp_seal_pubs p) sealed_for_me bm_empty) (\<lambda>for_me.
          and_then (ok_or (fr_part3 S secret (others_than (dp_id p) (dp_r1_all p)) for_me) CeremonyCrypto)
            (\<lambda>(kp, pub). Ok \<lparr> tk_key_package = kp, tk_public_package = pub \<rparr>))))"

section \<open>The driver in one process\<close>

fun mem_round1 ::
  "('id::linorder, 'x, 'r) suite \<Rightarrow> 'r seal_suite \<Rightarrow> u16 \<Rightarrow> u16 \<Rightarrow> 'id list
    \<Rightarrow> ('id, ('id, 'x) dkg_participant) bmap \<Rightarrow> ('id, 'x) broadcast list \<Rightarrow> 'r
    \<Rightarrow> (ceremony_error + ('id, ('id, 'x) dkg_participant) bmap \<times> ('id, 'x) broadcast list) \<times> 'r" where
  "mem_round1 S X t n [] parts broadcasts rng = (Ok (parts, broadcasts), rng)"
| "mem_round1 S X t n (pid # ids) parts broadcasts rng =
    (case dkg_part1 S X pid t n rng of
       (Inl e, rng') \<Rightarrow> (Err e, rng')
     | (Inr (p, b), rng') \<Rightarrow> mem_round1 S X t n ids (bm_insert pid p parts) (broadcasts @ [b]) rng')"

text \<open>\<open>relayed.entry(to).or_default().insert(from, ct)\<close>\<close>

definition relay_add ::
  "'id::linorder \<Rightarrow> ('id, bytes) bmap \<Rightarrow> ('id, ('id, bytes) bmap) bmap \<Rightarrow> ('id, ('id, bytes) bmap) bmap" where
  "relay_add sender sealed relayed =
    fold (\<lambda>(to, ct) m. bm_insert to
      (bm_insert sender ct (case bm_get m to of None \<Rightarrow> bm_empty | Some inner \<Rightarrow> inner)) m) sealed relayed"

fun mem_round2 ::
  "('id::linorder, 'x, 'r) suite \<Rightarrow> 'r seal_suite \<Rightarrow> ('id, 'x) broadcast list \<Rightarrow> 'id list
    \<Rightarrow> ('id, ('id, 'x) dkg_participant) bmap \<Rightarrow> ('id, ('id, bytes) bmap) bmap
    \<Rightarrow> (ceremony_error + ('id, ('id, 'x) dkg_participant) bmap \<times> ('id, ('id, bytes) bmap) bmap) run" where
  "mem_round2 S X broadcasts [] parts relayed = Some (Ok (parts, relayed))"
| "mem_round2 S X broadcasts (pid # ids) parts relayed =
    Option.bind (bm_get parts pid) (\<lambda>p.
      (case dkg_part2 S X (filter (\<lambda>b. bc_id b \<noteq> pid) broadcasts) p of
         (_, Inl e) \<Rightarrow> Some (Err e)
       | (p', Inr sealed) \<Rightarrow>
           mem_round2 S X broadcasts ids (bm_insert pid p' parts) (relay_add pid sealed relayed)))"

fun mem_round3 ::
  "('id::linorder, 'x, 'r) suite \<Rightarrow> 'r seal_suite \<Rightarrow> 'id list \<Rightarrow> ('id, ('id, 'x) dkg_participant) bmap
    \<Rightarrow> ('id, ('id, bytes) bmap) bmap \<Rightarrow> ('id, 'x threshold_keys) bmap
    \<Rightarrow> (ceremony_error + ('id, 'x threshold_keys) bmap) run" where
  "mem_round3 S X [] parts relayed out = Some (Ok out)"
| "mem_round3 S X (pid # ids) parts relayed out =
    Option.bind (bm_get parts pid) (\<lambda>p.
      (case dkg_part3 S X (case bm_get relayed pid of None \<Rightarrow> bm_empty | Some m \<Rightarrow> m) p of
         (_, Inl e) \<Rightarrow> Some (Err e)
       | (p', Inr k) \<Rightarrow>
           mem_round3 S X ids (bm_insert pid p' parts) (bm_remove pid relayed) (bm_insert pid k out)))"

definition run_in_memory_for ::
  "('id::linorder, 'x, 'r) suite \<Rightarrow> 'r seal_suite \<Rightarrow> u16 \<Rightarrow> u16 \<Rightarrow> 'r
    \<Rightarrow> (ceremony_error + ('id, 'x threshold_keys) bmap) run \<times> 'r" where
  "run_in_memory_for S X threshold participants rng =
    (case participant_ids S participants of
       Inl e \<Rightarrow> (Some (Err e), rng)
     | Inr ids \<Rightarrow>
       (case mem_round1 S X threshold participants ids bm_empty [] rng of
          (Inl e, rng') \<Rightarrow> (Some (Err e), rng')
        | (Inr (parts, broadcasts), rng') \<Rightarrow>
          (Option.bind (mem_round2 S X broadcasts ids parts bm_empty) (\<lambda>r.
             case r of
               Inl e \<Rightarrow> Some (Err e)
             | Inr (parts', relayed) \<Rightarrow> mem_round3 S X ids parts' relayed bm_empty), rng')))"

section \<open>The relay\<close>

definition OP_POST_R1 :: byte where "OP_POST_R1 = 1"
definition OP_GET_R1 :: byte where "OP_GET_R1 = 2"
definition OP_POST_R2 :: byte where "OP_POST_R2 = 3"
definition OP_GET_R2 :: byte where "OP_GET_R2 = 4"
definition S_OK :: byte where "S_OK = 0"
definition S_WAIT :: byte where "S_WAIT = 2"
definition S_ERR :: byte where "S_ERR = 1"
definition RELAY_MAX :: nat where "RELAY_MAX = 4 * 2 ^ 20"

lemmas relay_ops = OP_POST_R1_def OP_GET_R1_def OP_POST_R2_def OP_GET_R2_def S_OK_def S_WAIT_def S_ERR_def

record relay =
  re_expected :: nat
  re_r1 :: "(bytes, bytes) bmap"
  re_r2 :: "(bytes, (bytes, bytes) bmap) bmap"

definition relay_new :: "nat \<Rightarrow> relay" where
  "relay_new expected = \<lparr> re_expected = expected, re_r1 = bm_empty, re_r2 = bm_empty \<rparr>"

definition encode_broadcast :: "('id, 'x, 'r) suite \<Rightarrow> ('id, 'x) broadcast \<Rightarrow> ceremony_error + bytes" where
  "encode_broadcast S b =
    and_then (ok_or (fr_ser_round1 S (bc_package b)) CeremonyCrypto) (\<lambda>pkg.
      Ok (put_bytes (fr_id_ser S (bc_id b)) @ put_bytes pkg @ put_bytes (bc_seal_public b)))"

definition decode_broadcast :: "('id, 'x, 'r) suite \<Rightarrow> bytes \<Rightarrow> ('id, 'x) broadcast option" where
  "decode_broadcast S b = do {
     (i, r) \<leftarrow> rd_bytes b;
     pid \<leftarrow> fr_id_de S i;
     (p, r) \<leftarrow> rd_bytes r;
     package \<leftarrow> fr_de_round1 S p;
     (k, _) \<leftarrow> rd_bytes r;
     if length k = 32 then Some \<lparr> bc_id = pid, bc_package = package, bc_seal_public = k \<rparr> else None
   }"

definition rd_pair :: "(bytes \<times> bytes) reader" where
  "rd_pair b = do { (x, r) \<leftarrow> rd_bytes b; (y, r) \<leftarrow> rd_bytes r; Some ((x, y), r) }"

definition put_pair :: "bytes \<times> bytes \<Rightarrow> bytes" where
  "put_pair e = put_bytes (fst e) @ put_bytes (snd e)"

text \<open>\<open>Relay::handle\<close>, and what it holds for one recipient.\<close>

definition addressed_to :: "bytes \<Rightarrow> (bytes, (bytes, bytes) bmap) bmap \<Rightarrow> (bytes \<times> bytes) list" where
  "addressed_to me r2 = List.map_filter (\<lambda>(sender, m). map_option (Pair sender) (bm_get m me)) r2"

definition relay_handle :: "bytes \<Rightarrow> relay \<Rightarrow> relay \<times> byte \<times> bytes" where
  "relay_handle frame relay =
    (case frame of
       [] \<Rightarrow> (relay, S_ERR, ascii ''op'')
     | op # r \<Rightarrow>
       if op = OP_POST_R1 then
         (case rd_bytes r of
            None \<Rightarrow> (relay, S_ERR, ascii ''malformed'')
          | Some (b, _) \<Rightarrow>
              (case rd_bytes b of
                 None \<Rightarrow> (relay, S_ERR, ascii ''bad broadcast'')
               | Some (pid, _) \<Rightarrow> (relay \<lparr> re_r1 := bm_insert pid b (re_r1 relay) \<rparr>, S_OK, [])))
       else if op = OP_GET_R1 then
         if length (re_r1 relay) < re_expected relay then (relay, S_WAIT, [])
         else (relay, S_OK, put_list_be put_bytes (bm_values (re_r1 relay)))
       else if op = OP_POST_R2 then
         (case rd_bytes r of
            None \<Rightarrow> (relay, S_ERR, ascii ''from'')
          | Some (sender, r) \<Rightarrow>
              (case (rd_be 4 :: u32 reader) r of
                 None \<Rightarrow> (relay, S_ERR, ascii ''n'')
               | Some (n, r) \<Rightarrow>
                   (case rd_many rd_pair (unat n) r of
                      None \<Rightarrow> (relay, S_ERR, ascii ''pkg'')
                    | Some (es, _) \<Rightarrow>
                        (relay \<lparr> re_r2 := bm_insert sender (bm_of es) (re_r2 relay) \<rparr>, S_OK, []))))
       else if op = OP_GET_R2 then
         (case rd_bytes r of
            None \<Rightarrow> (relay, S_ERR, ascii ''me'')
          | Some (me, _) \<Rightarrow>
              if length (re_r2 relay) < re_expected relay then (relay, S_WAIT, [])
              else (relay, S_OK, put_list_be put_pair (addressed_to me (re_r2 relay))))
       else (relay, S_ERR, ascii ''op''))"

text \<open>One connection of \<open>serve\<close>: one frame in, one frame out, or nothing.\<close>

definition relay_read :: "bytes \<Rightarrow> bytes option" where
  "relay_read b =
    (if length b < 4 then None
     else let n = be_val (take 4 b) in
       if n = 0 \<or> RELAY_MAX < n \<or> length b < 4 + n then None else Some (take n (drop 4 b)))"

definition relay_frame :: "byte \<Rightarrow> bytes \<Rightarrow> bytes" where
  "relay_frame status body = put_bytes (status # body)"

definition relay_serve :: "bytes \<Rightarrow> relay \<Rightarrow> relay \<times> bytes" where
  "relay_serve b relay =
    (case relay_read b of
       None \<Rightarrow> (relay, [])
     | Some frame \<Rightarrow> (case relay_handle frame relay of
         (relay', status, body) \<Rightarrow> (relay', relay_frame status body)))"

section \<open>The participant's client\<close>

text \<open>An error of the client: a message of its own, or the bytes of the relay's refusal (which the
  code shows through \<open>from_utf8_lossy\<close>).\<close>

datatype client_error = Failed string | Refused bytes

text \<open>The transport connects, sends the bytes and brings back what the other side wrote, or the text
  of the error. \<open>call\<close> reads one frame of it; \<open>b[0]\<close> of an empty frame panics.\<close>

type_synonym 'n transport = "bytes \<Rightarrow> 'n \<Rightarrow> 'n \<times> (string + bytes)"

definition client_reply :: "bytes \<Rightarrow> (client_error + byte \<times> bytes) run" where
  "client_reply b =
    (if length b < 4 then Some (Err (Failed ''no reply''))
     else let n = be_val (take 4 b) in
       if length b < 4 + n then Some (Err (Failed ''truncated''))
       else case take n (drop 4 b) of [] \<Rightarrow> None | status # body \<Rightarrow> Some (Ok (status, body)))"

definition client_call :: "'n transport \<Rightarrow> bytes \<Rightarrow> 'n \<Rightarrow> 'n \<times> (client_error + byte \<times> bytes) run" where
  "client_call tr req net =
    (case tr (put_bytes req) net of
       (net', Inl e) \<Rightarrow> (net', Some (Err (Failed e)))
     | (net', Inr b) \<Rightarrow> (net', client_reply b))"

text \<open>\<open>poll\<close>: at most 600 calls, half a second apart.\<close>

fun client_poll :: "'n transport \<Rightarrow> bytes \<Rightarrow> nat \<Rightarrow> 'n \<Rightarrow> 'n \<times> (client_error + bytes) run" where
  "client_poll tr req 0 net = (net, Some (Err (Failed ''timed out waiting for the round to complete'')))"
| "client_poll tr req (Suc k) net =
    (case client_call tr req net of
       (net', None) \<Rightarrow> (net', None)
     | (net', Some (Inl e)) \<Rightarrow> (net', Some (Err e))
     | (net', Some (Inr (status, body))) \<Rightarrow>
         if status = S_OK then (net', Some (Ok body))
         else if status = S_WAIT then client_poll tr req k net'
         else (net', Some (Err (Refused body))))"

definition debug_ceremony :: "ceremony_error \<Rightarrow> string" where
  "debug_ceremony e = (case e of
     ThresholdNotAMajority \<Rightarrow> ''ThresholdNotAMajority'' | TooFewParticipants \<Rightarrow> ''TooFewParticipants''
   | Incomplete \<Rightarrow> ''Incomplete'' | DisagreedOnGroupKey \<Rightarrow> ''DisagreedOnGroupKey'' | CeremonyCrypto \<Rightarrow> ''Crypto'')"

definition client_error_of :: "string \<Rightarrow> ceremony_error + 'a \<Rightarrow> client_error + 'a" where
  "client_error_of prefix r = (case r of Inl e \<Rightarrow> Err (Failed (prefix @ debug_ceremony e)) | Inr x \<Rightarrow> Ok x)"

text \<open>The broadcasts of the others, read off the relay's reply; and the packages sealed to one.\<close>

fun read_others ::
  "('id, 'x, 'r) suite \<Rightarrow> 'id \<Rightarrow> nat \<Rightarrow> bytes \<Rightarrow> client_error + ('id, 'x) broadcast list" where
  "read_others S pid 0 r = Ok []"
| "read_others S pid (Suc n) r =
    and_then (ok_or (rd_bytes r) (Failed ''r1 pkg'')) (\<lambda>(b, r).
    and_then (ok_or (decode_broadcast S b) (Failed ''r1 decode'')) (\<lambda>bc.
    and_then (read_others S pid n r) (\<lambda>rest.
      Ok (if bc_id bc \<noteq> pid then bc # rest else rest))))"

fun read_sealed ::
  "('id::linorder, 'x, 'r) suite \<Rightarrow> nat \<Rightarrow> bytes \<Rightarrow> ('id, bytes) bmap \<Rightarrow> client_error + ('id, bytes) bmap" where
  "read_sealed S 0 r m = Ok m"
| "read_sealed S (Suc n) r m =
    and_then (ok_or (rd_bytes r) (Failed ''r2 from'')) (\<lambda>(i, r).
    and_then (ok_or (fr_id_de S i) (Failed ''r2 id'')) (\<lambda>sender.
    and_then (ok_or (rd_bytes r) (Failed ''r2 ct'')) (\<lambda>(ct, r).
      read_sealed S n r (bm_insert sender ct m))))"

definition post_round2 :: "('id, 'x, 'r) suite \<Rightarrow> 'id \<Rightarrow> ('id, bytes) bmap \<Rightarrow> bytes" where
  "post_round2 S pid sealed = [OP_POST_R2] @ put_bytes (fr_id_ser S pid)
    @ put_list_be (\<lambda>(to, ct). put_bytes (fr_id_ser S to) @ put_bytes ct) sealed"

text \<open>A step on the network: an error or a panic ends the run.\<close>

definition net_then ::
  "'n \<times> (client_error + 'a) run \<Rightarrow> ('a \<Rightarrow> 'n \<Rightarrow> 'n \<times> (client_error + 'b) run) \<Rightarrow> 'n \<times> (client_error + 'b) run" where
  "net_then m k = (case m of
     (net, None) \<Rightarrow> (net, None)
   | (net, Some (Inl e)) \<Rightarrow> (net, Some (Err e))
   | (net, Some (Inr x)) \<Rightarrow> k x net)"

definition participate_for ::
  "('id::linorder, 'x, 'r) suite \<Rightarrow> 'r seal_suite \<Rightarrow> 'n transport \<Rightarrow> u16 \<Rightarrow> u16 \<Rightarrow> u16 \<Rightarrow> 'r \<Rightarrow> 'n
    \<Rightarrow> 'n \<times> (client_error + 'x threshold_keys) run" where
  "participate_for S X tr id_index threshold participants rng net =
    net_then (net, Some (ok_or (fr_identifier S id_index) (Failed ''bad id''))) (\<lambda>pid net.
    net_then (net, Some (client_error_of ''part1: '' (fst (dkg_part1 S X pid threshold participants rng)))) (\<lambda>(me, b) net.
    net_then (net, Some (client_error_of [] (encode_broadcast S b))) (\<lambda>enc net.
    net_then (client_call tr ([OP_POST_R1] @ put_bytes enc) net) (\<lambda>_ net.
    net_then (client_poll tr [OP_GET_R1] 600 net) (\<lambda>all net.
    net_then (net, Some (ok_or ((rd_be 4 :: u32 reader) all) (Failed ''r1 count''))) (\<lambda>(n, r) net.
    net_then (net, Some (read_others S pid (unat n) r)) (\<lambda>others net.
    (case dkg_part2 S X others me of (me', sealed) \<Rightarrow>
    net_then (net, Some (client_error_of ''part2: '' sealed)) (\<lambda>sealed net.
    net_then (client_call tr (post_round2 S pid sealed) net) (\<lambda>_ net.
    net_then (client_poll tr ([OP_GET_R2] @ put_bytes (fr_id_ser S pid)) 600 net) (\<lambda>mine net.
    net_then (net, Some (ok_or ((rd_be 4 :: u32 reader) mine) (Failed ''r2 count''))) (\<lambda>(n, r) net.
    net_then (net, Some (read_sealed S (unat n) r bm_empty)) (\<lambda>for_me net.
      (net, Some (client_error_of ''part3: '' (snd (dkg_part3 S X for_me me')))))))))))))))))"

section \<open>What the sealing promises\<close>

text \<open>Both ends of a Diffie-Hellman exchange get the same bytes, and the cipher decrypts what it
  encrypted under one key and nonce.\<close>

definition seal_laws :: "'r seal_suite \<Rightarrow> bool" where
  "seal_laws X \<longleftrightarrow>
    (\<forall>a b. x25519_shared X a (x25519_public X b) = x25519_shared X b (x25519_public X a)) \<and>
    (\<forall>k n m. \<exists>c. aead_encrypt X k n m = Some c \<and> aead_decrypt X k n c = Some m)"

definition well_keyed :: "'r seal_suite \<Rightarrow> seal_key \<Rightarrow> bool" where
  "well_keyed X k \<longleftrightarrow> sk_public k = x25519_public X (sk_secret k)"

lemma well_keyed_new: "seal_key_new X rng = (k, rng') \<Longrightarrow> well_keyed X k"
  by (auto simp: seal_key_new_def well_keyed_def split: prod.splits)

lemma cipher_symmetric:
  assumes "seal_laws X" "well_keyed X a" "well_keyed X b"
  shows "cipher X (sk_secret a) (sk_public b) = cipher X (sk_secret b) (sk_public a)"
  using assms by (simp add: cipher_def seal_laws_def well_keyed_def)

definition sealed_to :: "'r seal_suite \<Rightarrow> seal_key \<Rightarrow> seal_key \<Rightarrow> bytes \<Rightarrow> bytes" where
  "sealed_to X a b m = the (aead_encrypt X (cipher X (sk_secret a) (sk_public b)) (zeros 12) m)"

lemma seal_Ok: "seal_laws X \<Longrightarrow> seal X a (sk_public b) m = Ok (sealed_to X a b m)"
  unfolding seal_def sealed_to_def seal_laws_def by (metis ok_or_simps(2) option.sel)

lemma unseal_sealed:
  assumes "seal_laws X" "well_keyed X a" "well_keyed X b"
  shows "unseal X b (sk_public a) (sealed_to X a b m) = Ok m"
proof -
  obtain c where "aead_encrypt X (cipher X (sk_secret a) (sk_public b)) (zeros 12) m = Some c"
    and "aead_decrypt X (cipher X (sk_secret a) (sk_public b)) (zeros 12) c = Some m"
    using assms(1) unfolding seal_laws_def by blast
  then show ?thesis by (simp add: unseal_def sealed_to_def cipher_symmetric [OF assms(1,3,2)])
qed

section \<open>The sealed ceremony and the one in process\<close>

text \<open>The library with the random bytes of a sealing key drawn after each round one.\<close>

definition sealing_suite :: "('id, 'x, 'r) suite \<Rightarrow> 'r seal_suite \<Rightarrow> ('id, 'x, 'r) suite" where
  "sealing_suite S X = S \<lparr> fr_part1 := (\<lambda>i n t r. case fr_part1 S i n t r of
     (None, r') \<Rightarrow> (None, r') | (Some x, r') \<Rightarrow> (Some x, snd (fill_bytes X 32 r'))) \<rparr>"

text \<open>What the driver relies on in the library: round two addresses exactly the others, and its
  packages survive serialisation.\<close>

definition round2_laws :: "('id::linorder, 'x, 'r) suite \<Rightarrow> bool" where
  "round2_laws S \<longleftrightarrow>
    (\<forall>s others s2 p2. fr_part2 S s others = Some (s2, p2) \<longrightarrow> map fst p2 = map fst others) \<and>
    (\<forall>x. \<exists>b. fr_ser_round2 S x = Some b \<and> fr_de_round2 S b = Some x)"

definition started ::
  "u16 \<Rightarrow> u16 \<Rightarrow> ('id::linorder \<Rightarrow> 'x) \<Rightarrow> ('id \<Rightarrow> 'x) \<Rightarrow> ('id \<Rightarrow> seal_key) \<Rightarrow> 'id \<Rightarrow> ('id, 'x) dkg_participant" where
  "started t n sec pkg key i = \<lparr> dp_id = i, dp_threshold = t, dp_participants = n, dp_seal = key i,
     dp_r1_secret = Some (sec i), dp_r2_secret = None, dp_r1_all = [(i, pkg i)],
     dp_seal_pubs = [(i, sk_public (key i))] \<rparr>"

definition announced :: "('id \<Rightarrow> 'x) \<Rightarrow> ('id \<Rightarrow> seal_key) \<Rightarrow> 'id \<Rightarrow> ('id, 'x) broadcast" where
  "announced pkg key i = \<lparr> bc_id = i, bc_package = pkg i, bc_seal_public = sk_public (key i) \<rparr>"

lemma mem_round1_runs:
  fixes S :: "('id::linorder, 'x, 'r) suite"
  assumes "run_round1 (sealing_suite S X) \<lparr> ce_threshold = t, ce_participants = n \<rparr> ids secrets publics rng
      = (Ok (secrets', publics'), rng')"
    and "distinct ids"
  shows "\<exists>(sec :: 'id \<Rightarrow> 'x) pkg key. (\<forall>i. i \<in> set ids \<longrightarrow> well_keyed X (key i)) \<and>
    secrets' = bm_fill sec ids secrets \<and> publics' = bm_fill pkg ids publics \<and>
    mem_round1 S X t n ids parts bs rng
      = (Ok (bm_fill (started t n sec pkg key) ids parts, bs @ map (announced pkg key) ids), rng')"
  using assms
proof (induction ids arbitrary: secrets publics parts bs rng)
  case Nil
  then show ?case by simp
next
  case (Cons i ids)
  obtain secret package rng1 where p1: "fr_part1 S i n t rng = (Some (secret, package), rng1)"
    and r: "run_round1 (sealing_suite S X) \<lparr> ce_threshold = t, ce_participants = n \<rparr> ids
      (bm_insert i secret secrets) (bm_insert i package publics) (snd (fill_bytes X 32 rng1))
      = (Ok (secrets', publics'), rng')"
    using Cons.prems(1) by (auto simp: sealing_suite_def split: prod.splits option.splits)
  obtain k where k: "seal_key_new X rng1 = (k, snd (fill_bytes X 32 rng1))"
    by (cases "fill_bytes X 32 rng1") (simp add: seal_key_new_def)
  let ?p = "\<lparr> dp_id = i, dp_threshold = t, dp_participants = n, dp_seal = k,
     dp_r1_secret = Some secret, dp_r2_secret = None, dp_r1_all = [(i, package)],
     dp_seal_pubs = [(i, sk_public k)] \<rparr>"
  let ?b = "\<lparr> bc_id = i, bc_package = package, bc_seal_public = sk_public k \<rparr>"
  have p: "dkg_part1 S X i t n rng = (Ok (?p, ?b), snd (fill_bytes X 32 rng1))"
    by (simp add: dkg_part1_def p1 k bm_empty_def)
  from Cons.IH [OF r, of "bm_insert i ?p parts" "bs @ [?b]"] Cons.prems(2)
  obtain sec pkg key where ih: "\<forall>i. i \<in> set ids \<longrightarrow> well_keyed X (key i)"
    "secrets' = bm_fill sec ids (bm_insert i secret secrets)"
    "publics' = bm_fill pkg ids (bm_insert i package publics)"
    "mem_round1 S X t n ids (bm_insert i ?p parts) (bs @ [?b]) (snd (fill_bytes X 32 rng1))
      = (Ok (bm_fill (started t n sec pkg key) ids (bm_insert i ?p parts),
          (bs @ [?b]) @ map (announced pkg key) ids), rng')"
    by auto
  let ?sec = "sec(i := secret)" and ?pkg = "pkg(i := package)" and ?key = "key(i := k)"
  have i: "i \<notin> set ids" using Cons.prems(2) by simp
  have "bm_fill sec ids m = bm_fill ?sec ids m" "bm_fill pkg ids m = bm_fill ?pkg ids m" for m
    using i by (auto intro!: bm_fill_cong)
  moreover have "bm_fill (started t n sec pkg key) ids m = bm_fill (started t n ?sec ?pkg ?key) ids m" for m
    using i by (intro bm_fill_cong) (auto simp: started_def)
  moreover have "map (announced pkg key) ids = map (announced ?pkg ?key) ids"
    using i by (auto simp: announced_def)
  moreover have "?p = started t n ?sec ?pkg ?key i" "?b = announced ?pkg ?key i"
    by (simp_all add: started_def announced_def)
  moreover have "\<forall>j. j \<in> set (i # ids) \<longrightarrow> well_keyed X (?key j)"
    using ih(1) well_keyed_new [OF k] by simp
  moreover have "?sec i = secret" "?pkg i = package" by simp_all
  ultimately show ?case
    using ih p
    by - (rule exI [of _ ?sec], rule exI [of _ ?pkg], rule exI [of _ ?key], simp del: fun_upd_apply)
qed

text \<open>Once everyone has announced, a participant knows every package and every sealing key.\<close>

lemma others_than_remove: "others_than pid m = bm_remove pid m"
  by (simp add: others_than_def bm_remove_def)

lemma fold_announced:
  "fold (\<lambda>b m. bm_insert (bc_id b) (f b) m) (filter (\<lambda>b. bc_id b \<noteq> i) (map (announced pkg key) ids)) m
    = bm_fill (\<lambda>j. f (announced pkg key j)) (filter (\<lambda>j. j \<noteq> i) ids) m"
  by (induction ids arbitrary: m) (auto simp: announced_def)

lemma bm_fill_self:
  assumes "i \<in> set ids"
  shows "bm_fill f (filter (\<lambda>j. j \<noteq> i) ids) [(i, f i)] = bm_fill f ids bm_empty"
  by (rule bm_ext) (use assms in \<open>auto simp: bm_ok_Cons bm_get_Cons\<close>)

lemma learn_started:
  assumes "i \<in> set ids"
  shows "learn (filter (\<lambda>b. bc_id b \<noteq> i) (map (announced pkg key) ids)) (started t n sec pkg key i)
    = (started t n sec pkg key i) \<lparr> dp_r1_all := bm_fill pkg ids bm_empty,
        dp_seal_pubs := bm_fill (\<lambda>j. sk_public (key j)) ids bm_empty \<rparr>"
  using bm_fill_self [OF assms, of pkg] bm_fill_self [OF assms, of "\<lambda>j. sk_public (key j)"]
  unfolding learn_def fold_announced by (simp add: started_def announced_def)

definition ciphertext ::
  "('id, 'x, 'r) suite \<Rightarrow> 'r seal_suite \<Rightarrow> ('id \<Rightarrow> seal_key) \<Rightarrow> 'id \<Rightarrow> 'id \<Rightarrow> 'x \<Rightarrow> bytes" where
  "ciphertext S X key sender to x = sealed_to X (key sender) (key to) (the (fr_ser_round2 S x))"

lemma seal_packages_Ok:
  assumes "seal_laws X" and "round2_laws S"
    and "\<forall>to \<in> fst ` set p2. bm_get pubs to = Some (sk_public (key to))"
  shows "seal_packages S X (key i) pubs p2 m
    = Ok (fold (\<lambda>e. bm_insert (fst e) (ciphertext S X key i (fst e) (snd e))) p2 m)"
  using assms(3)
proof (induction p2 arbitrary: m)
  case (Cons e p2)
  obtain b where "fr_ser_round2 S (snd e) = Some b" using assms(2) unfolding round2_laws_def by blast
  with Cons show ?case by (cases e) (simp add: seal_Ok [OF assms(1)] ciphertext_def)
qed simp

lemma get_fold_entries:
  "distinct (map fst es) \<Longrightarrow>
    bm_get (fold (\<lambda>e. bm_insert (fst e) (f (fst e) (snd e))) es m) k
      = (case bm_get es k of None \<Rightarrow> bm_get m k | Some v \<Rightarrow> Some (f k v))"
proof (induction es arbitrary: m)
  case (Cons e es)
  have "bm_get es (fst e) = None"
    using Cons.prems by (auto simp: bm_get_def map_of_eq_None_iff)
  with Cons show ?case by (cases e) (auto simp: bm_get_Cons split: option.splits)
qed simp

lemma ok_fold_entries: "bm_ok m \<Longrightarrow> bm_ok (fold (\<lambda>e. bm_insert (fst e) (f e)) es m)"
  by (induction es arbitrary: m) auto

text \<open>What the relay holds for one recipient.\<close>

definition held :: "('id, ('id, bytes) bmap) bmap \<Rightarrow> 'id \<Rightarrow> ('id, bytes) bmap" where
  "held relayed to = (case bm_get relayed to of None \<Rightarrow> bm_empty | Some m \<Rightarrow> m)"

lemma held_relay_add:
  assumes "distinct (map fst sealed)"
  shows "held (relay_add sender sealed relayed) to
    = (case bm_get sealed to of None \<Rightarrow> held relayed to | Some ct \<Rightarrow> bm_insert sender ct (held relayed to))"
  using assms
proof (induction sealed arbitrary: relayed)
  case Nil
  then show ?case by (simp add: relay_add_def)
next
  case (Cons e es)
  obtain a ct where e: "e = (a, ct)" by (cases e)
  let ?m = "bm_insert a (bm_insert sender ct (held relayed a)) relayed"
  have "relay_add sender (e # es) relayed = relay_add sender es ?m"
    by (simp add: relay_add_def e held_def)
  moreover have "bm_get es a = None"
    using Cons.prems by (auto simp: bm_get_def map_of_eq_None_iff e)
  moreover have "held ?m k = (if k = a then bm_insert sender ct (held relayed a) else held relayed k)" for k
    by (simp add: held_def)
  ultimately show ?case
    using Cons.IH [of ?m] Cons.prems by (auto simp: e bm_get_Cons split: option.splits)
qed

definition relayed_ok ::
  "('id::linorder, 'x, 'r) suite \<Rightarrow> 'r seal_suite \<Rightarrow> ('id \<Rightarrow> seal_key) \<Rightarrow> ('id, ('id, 'x) bmap) bmap
    \<Rightarrow> 'id list \<Rightarrow> ('id, ('id, bytes) bmap) bmap \<Rightarrow> bool" where
  "relayed_ok S X key r2 ids relayed \<longleftrightarrow>
    (\<forall>to \<in> set ids. bm_ok (held relayed to) \<and>
      (\<forall>sender. bm_get (held relayed to) sender
        = (case bm_get r2 sender of None \<Rightarrow> None | Some p2 \<Rightarrow>
            map_option (ciphertext S X key sender to) (bm_get p2 to))))"

lemma relayed_ok_subset:
  "relayed_ok S X key r2 ids relayed \<Longrightarrow> set ids' \<subseteq> set ids \<Longrightarrow> relayed_ok S X key r2 ids' relayed"
  unfolding relayed_ok_def by blast

definition round2_done ::
  "'id::linorder list \<Rightarrow> ('id, ('id, 'x) bmap) bmap \<Rightarrow> bool" where
  "round2_done ids r2 \<longleftrightarrow> bm_ok r2 \<and> (\<forall>i p2. bm_get r2 i = Some p2 \<longrightarrow>
     i \<in> set ids \<and> bm_ok p2 \<and> fst ` set p2 = set ids - {i})"

definition finished ::
  "u16 \<Rightarrow> u16 \<Rightarrow> 'id::linorder list \<Rightarrow> ('id \<Rightarrow> 'x) \<Rightarrow> ('id \<Rightarrow> 'x) \<Rightarrow> ('id \<Rightarrow> seal_key) \<Rightarrow> 'id \<Rightarrow> 'x
    \<Rightarrow> ('id, 'x) dkg_participant" where
  "finished t n ids sec pkg key i s2 = (started t n sec pkg key i) \<lparr>
     dp_r1_all := bm_fill pkg ids bm_empty,
     dp_seal_pubs := bm_fill (\<lambda>j. sk_public (key j)) ids bm_empty,
     dp_r1_secret := None, dp_r2_secret := Some s2 \<rparr>"

lemma part2_runs:
  assumes laws: "seal_laws X" "round2_laws S" and ids: "distinct ids" "i \<in> set ids" "length ids = unat n"
    and p2: "fr_part2 S (sec i) (others_than i (bm_fill pkg ids bm_empty)) = Some (s2, p2)"
  shows "bm_ok p2 \<and> fst ` set p2 = set ids - {i} \<and>
    (\<exists>sealed. dkg_part2 S X (filter (\<lambda>b. bc_id b \<noteq> i) (map (announced pkg key) ids)) (started t n sec pkg key i)
      = (finished t n ids sec pkg key i s2, Ok sealed) \<and> bm_ok sealed \<and>
        (\<forall>to. bm_get sealed to = map_option (ciphertext S X key i to) (bm_get p2 to)))"
proof -
  have "map fst p2 = map fst (others_than i (bm_fill pkg ids bm_empty))"
    using laws(2) p2 unfolding round2_laws_def by blast
  moreover have "bm_ok (others_than i (bm_fill pkg ids bm_empty))" by (simp add: others_than_remove)
  ultimately have ok: "bm_ok p2" by (simp add: bm_ok_def)
  have keys: "k \<in> fst ` set p2 \<longleftrightarrow> k \<in> set ids - {i}" for k
  proof -
    have "set (map fst p2) = set (map fst (bm_remove i (bm_fill pkg ids bm_empty)))"
      using \<open>map fst p2 = _\<close> by (simp only: others_than_remove)
    then have "k \<in> fst ` set p2 \<longleftrightarrow> bm_get (bm_remove i (bm_fill pkg ids bm_empty)) k \<noteq> None"
      unfolding bm_get_dom set_map by blast
    then show ?thesis by simp
  qed
  define sealed where "sealed = fold (\<lambda>e. bm_insert (fst e) (ciphertext S X key i (fst e) (snd e))) p2 bm_empty"
  have "\<forall>to \<in> fst ` set p2. bm_get (bm_fill (\<lambda>j. sk_public (key j)) ids bm_empty) to = Some (sk_public (key to))"
    using keys by auto
  note seal = seal_packages_Ok [OF laws this, of i bm_empty, folded sealed_def]
  have "dkg_part2 S X (filter (\<lambda>b. bc_id b \<noteq> i) (map (announced pkg key) ids)) (started t n sec pkg key i)
      = (finished t n ids sec pkg key i s2, Ok sealed)"
    unfolding dkg_part2_def learn_started [OF ids(2)]
    using p2 ids(3) seal by (simp add: started_def finished_def length_bm_fill [OF ids(1)])
  moreover have "bm_get sealed to = map_option (ciphertext S X key i to) (bm_get p2 to)" for to
    unfolding sealed_def
    by (subst get_fold_entries) (simp_all add: bm_ok_distinct [OF ok] split: option.splits)
  moreover have "bm_ok sealed" unfolding sealed_def by (simp add: ok_fold_entries)
  ultimately show ?thesis using ok keys by blast
qed

lemma relayed_ok_add:
  assumes "relayed_ok S X key r2 ids relayed" and "bm_get r2 i = None" and "bm_ok sealed"
    and "\<And>to. bm_get sealed to = map_option (ciphertext S X key i to) (bm_get p2 to)"
  shows "relayed_ok S X key (bm_insert i p2 r2) ids (relay_add i sealed relayed)"
  unfolding relayed_ok_def
proof
  fix to
  assume to: "to \<in> set ids"
  have h: "held (relay_add i sealed relayed) to = (case bm_get p2 to of None \<Rightarrow> held relayed to
      | Some x \<Rightarrow> bm_insert i (ciphertext S X key i to x) (held relayed to))"
    unfolding held_relay_add [OF bm_ok_distinct [OF assms(3)]] assms(4) by (simp split: option.splits)
  have ok: "bm_ok (held relayed to)" and get: "bm_get (held relayed to) s = (case bm_get r2 s of None \<Rightarrow> None
      | Some q \<Rightarrow> map_option (ciphertext S X key s to) (bm_get q to))" for s
    using assms(1) to unfolding relayed_ok_def by blast+
  show "bm_ok (held (relay_add i sealed relayed) to) \<and>
    (\<forall>sender. bm_get (held (relay_add i sealed relayed) to) sender
      = (case bm_get (bm_insert i p2 r2) sender of None \<Rightarrow> None
         | Some p2 \<Rightarrow> map_option (ciphertext S X key sender to) (bm_get p2 to)))"
    unfolding h using ok assms(2) by (cases "bm_get p2 to") (simp_all add: get)
qed

lemma mem_round2_runs:
  assumes laws: "seal_laws X" "round2_laws S" and all: "distinct ids" "length ids = unat n"
  shows "run_round2 S (bm_fill pkg ids bm_empty) rest r1s r2s r2p = Ok (r2s', r2p') \<Longrightarrow>
    distinct rest \<Longrightarrow> set rest \<subseteq> set ids \<Longrightarrow>
    (\<forall>i \<in> set rest. bm_get parts i = Some (started t n sec pkg key i) \<and> bm_get r1s i = Some (sec i) \<and>
      bm_get r2s i = None \<and> bm_get r2p i = None) \<Longrightarrow>
    (\<forall>i s. bm_get r2s i = Some s \<longrightarrow> bm_get parts i = Some (finished t n ids sec pkg key i s)) \<Longrightarrow>
    relayed_ok S X key r2p ids relayed \<Longrightarrow> round2_done ids r2p \<Longrightarrow>
    \<exists>parts' relayed'. mem_round2 S X (map (announced pkg key) ids) rest parts relayed = Some (Ok (parts', relayed')) \<and>
      relayed_ok S X key r2p' ids relayed' \<and> round2_done ids r2p' \<and>
      (\<forall>i s. bm_get r2s' i = Some s \<longrightarrow> bm_get parts' i = Some (finished t n ids sec pkg key i s))"
proof (induction rest arbitrary: r1s r2s r2p parts relayed)
  case (Cons i rest)
  have i: "i \<in> set ids" "i \<notin> set rest" using Cons.prems by auto
  obtain s2 p2 where p2: "fr_part2 S (sec i) (others_than i (bm_fill pkg ids bm_empty)) = Some (s2, p2)"
    and run: "run_round2 S (bm_fill pkg ids bm_empty) rest (bm_remove i r1s)
      (bm_insert i s2 r2s) (bm_insert i p2 r2p) = Ok (r2s', r2p')"
    using Cons.prems(1,4) by (auto simp: result_simps)
  from part2_runs [where key = key and t = t and sec = sec, OF laws all(1) i(1) all(2) p2] obtain sealed where
    ok: "bm_ok p2" "fst ` set p2 = set ids - {i}" and
    d: "dkg_part2 S X (filter (\<lambda>b. bc_id b \<noteq> i) (map (announced pkg key) ids)) (started t n sec pkg key i)
      = (finished t n ids sec pkg key i s2, Ok sealed)" and
    sealed: "bm_ok sealed" "\<And>to. bm_get sealed to = map_option (ciphertext S X key i to) (bm_get p2 to)"
    by blast
  let ?parts = "bm_insert i (finished t n ids sec pkg key i s2) parts"
  have "relayed_ok S X key (bm_insert i p2 r2p) ids (relay_add i sealed relayed)"
    using relayed_ok_add [OF Cons.prems(6) _ sealed] Cons.prems(4) by simp
  moreover have "round2_done ids (bm_insert i p2 r2p)"
    unfolding round2_done_def
  proof (intro conjI allI impI)
    have "bm_ok r2p" using Cons.prems(7) unfolding round2_done_def by blast
    then show "bm_ok (bm_insert i p2 r2p)" by simp
    fix j q
    assume "bm_get (bm_insert i p2 r2p) j = Some q"
    then have q: "(if j = i then Some p2 else bm_get r2p j) = Some q" by simp
    have "j \<in> set ids \<and> bm_ok q \<and> fst ` set q = set ids - {j}"
    proof (cases "j = i")
      case True
      with q have "q = p2" by simp
      then show ?thesis using True ok i(1) by blast
    next
      case False
      with q have "bm_get r2p j = Some q" by simp
      then show ?thesis using Cons.prems(7) unfolding round2_done_def by blast
    qed
    then show "j \<in> set ids" "bm_ok q" "fst ` set q = set ids - {j}" by blast+
  qed
  moreover have "\<forall>j \<in> set rest. bm_get ?parts j = Some (started t n sec pkg key j) \<and>
      bm_get (bm_remove i r1s) j = Some (sec j) \<and> bm_get (bm_insert i s2 r2s) j = None \<and>
      bm_get (bm_insert i p2 r2p) j = None"
    using Cons.prems(4) i by auto
  moreover have "\<forall>j s. bm_get (bm_insert i s2 r2s) j = Some s \<longrightarrow>
      bm_get ?parts j = Some (finished t n ids sec pkg key j s)"
    using Cons.prems(5) by simp
  moreover have "distinct rest" "set rest \<subseteq> set ids" using Cons.prems(2,3) by auto
  ultimately have "\<exists>parts' relayed'. mem_round2 S X (map (announced pkg key) ids) rest ?parts
        (relay_add i sealed relayed) = Some (Ok (parts', relayed')) \<and>
      relayed_ok S X key r2p' ids relayed' \<and> round2_done ids r2p' \<and>
      (\<forall>i s. bm_get r2s' i = Some s \<longrightarrow> bm_get parts' i = Some (finished t n ids sec pkg key i s))"
    using Cons.IH [OF run] by blast
  moreover have "bm_get parts i = Some (started t n sec pkg key i)" using Cons.prems(4) by simp
  ultimately show ?case by (simp add: d)
qed simp

lemma open_packages_Ok:
  assumes laws: "seal_laws X" "round2_laws S" and keyed: "\<forall>i \<in> insert me (fst ` set cts). well_keyed X (key i)"
    and pubs: "\<forall>i \<in> fst ` set cts. bm_get pubs i = Some (sk_public (key i))"
    and cts: "\<forall>e \<in> set cts. snd e = ciphertext S X key (fst e) me (f (fst e))"
  shows "open_packages S X (key me) pubs cts out = Ok (bm_fill f (map fst cts) out)"
  using keyed pubs cts
proof (induction cts arbitrary: out)
  case (Cons e cts)
  obtain b where b: "fr_ser_round2 S (f (fst e)) = Some b" "fr_de_round2 S b = Some (f (fst e))"
    using laws(2) unfolding round2_laws_def by blast
  have "unseal X (key me) (sk_public (key (fst e))) (snd e) = Ok b"
    using Cons.prems unseal_sealed [OF laws(1), of "key (fst e)" "key me" b] by (simp add: ciphertext_def b)
  with Cons b show ?case by (cases e) simp
qed simp

lemma packages_for_get:
  assumes "packages_for me r2 m = Ok out" "distinct (map fst r2)" "bm_ok m"
  shows "bm_ok out \<and> (\<forall>i. bm_get out i = (case bm_get r2 i of
      None \<Rightarrow> bm_get m i | Some p2 \<Rightarrow> if i = me then bm_get m i else bm_get p2 me))"
  using assms
proof (induction me r2 m rule: packages_for.induct)
  case (2 pid sender packages r2 m)
  have n: "bm_get r2 sender = None" using 2(4) by (auto simp: bm_get_def map_of_eq_None_iff)
  show ?case
  proof (cases "sender = pid")
    case True
    with 2 n show ?thesis by (auto simp: bm_get_Cons)
  next
    case False
    with 2(3) obtain p where p: "bm_get packages pid = Some p"
      and r: "packages_for pid r2 (bm_insert sender p m) = Ok out" by (auto simp: result_simps)
    have "bm_ok out \<and> (\<forall>i. bm_get out i = (case bm_get r2 i of None \<Rightarrow> bm_get (bm_insert sender p m) i
        | Some p2 \<Rightarrow> if i = pid then bm_get (bm_insert sender p m) i else bm_get p2 pid))"
      using 2(2) False p r 2(4,5) by simp
    with p n False show ?thesis by (auto simp: bm_get_Cons split: option.splits)
  qed
qed simp

lemma part3_runs:
  assumes laws: "seal_laws X" "round2_laws S" and keyed: "\<forall>i \<in> set ids. well_keyed X (key i)"
    and me: "me \<in> set ids" and complete: "round2_done ids r2" and held: "relayed_ok S X key r2 [me] relayed"
    and for_me: "packages_for me r2 bm_empty = Ok for_me"
    and p3: "fr_part3 S s2 (others_than me (bm_fill pkg ids bm_empty)) for_me = Some (kp, pub)"
  shows "\<exists>p'. dkg_part3 S X (held relayed me) (finished t n ids sec pkg key me s2)
    = (p', Ok \<lparr> tk_key_package = kp, tk_public_package = pub \<rparr>)"
proof -
  define f where "f = (\<lambda>i. the (bm_get (the (bm_get r2 i)) me))"
  have ok: "bm_ok (held relayed me)" and get: "bm_get (held relayed me) i = (case bm_get r2 i of None \<Rightarrow> None
      | Some q \<Rightarrow> map_option (ciphertext S X key i me) (bm_get q me))" for i
    using held unfolding relayed_ok_def by simp_all
  have entry: "i \<in> set ids \<and> ct = ciphertext S X key i me (f i)" if "(i, ct) \<in> set (held relayed me)" for i ct
  proof -
    from that have "bm_get (held relayed me) i = Some ct" using ok by (simp add: bm_get_Some_iff)
    with complete show ?thesis unfolding get round2_done_def f_def by (auto split: option.splits)
  qed
  have "\<forall>i \<in> insert me (fst ` set (held relayed me)). well_keyed X (key i)"
    using entry keyed me by auto
  moreover have "\<forall>i \<in> fst ` set (held relayed me).
      bm_get (bm_fill (\<lambda>j. sk_public (key j)) ids bm_empty) i = Some (sk_public (key i))"
    using entry by auto
  moreover have "\<forall>e \<in> set (held relayed me). snd e = ciphertext S X key (fst e) me (f (fst e))"
    using entry by auto
  ultimately have opened: "open_packages S X (key me) (bm_fill (\<lambda>j. sk_public (key j)) ids bm_empty)
      (held relayed me) bm_empty = Ok (bm_fill f (map fst (held relayed me)) bm_empty)"
    by (rule open_packages_Ok [OF laws])
  have r2: "bm_ok r2" using complete by (simp add: round2_done_def)
  note pf = packages_for_get [OF for_me bm_ok_distinct [OF r2]]
  have "bm_fill f (map fst (held relayed me)) bm_empty = for_me"
  proof (rule bm_ext)
    fix k
    have "k \<in> set (map fst (held relayed me)) \<longleftrightarrow> bm_get (held relayed me) k \<noteq> None"
      unfolding bm_get_dom by simp
    moreover have "bm_get q me = None" if "bm_get r2 me = Some q" for q
      using complete that bm_get_dom [of q me] unfolding round2_done_def by blast
    ultimately show "bm_get (bm_fill f (map fst (held relayed me)) bm_empty) k = bm_get for_me k"
      using pf unfolding bm_get_fill get by (auto simp: f_def split: option.splits)
  qed (use pf in simp_all)
  then show ?thesis
    using p3 opened by (simp add: dkg_part3_def finished_def started_def)
qed

lemma mem_round3_runs:
  assumes laws: "seal_laws X" "round2_laws S" and keyed: "\<forall>i \<in> set ids. well_keyed X (key i)"
    and complete: "round2_done ids r2"
  shows "run_round3 S (bm_fill pkg ids bm_empty) r2 rest r2s out = Ok out' \<Longrightarrow>
    distinct rest \<Longrightarrow> set rest \<subseteq> set ids \<Longrightarrow>
    (\<forall>i \<in> set rest. \<forall>s. bm_get r2s i = Some s \<longrightarrow> bm_get parts i = Some (finished t n ids sec pkg key i s)) \<Longrightarrow>
    relayed_ok S X key r2 rest relayed \<Longrightarrow>
    mem_round3 S X rest parts relayed out = Some (Ok out')"
proof (induction rest arbitrary: r2s parts relayed out)
  case (Cons i rest)
  obtain for_me s2 kp pub where for_me: "packages_for i r2 bm_empty = Ok for_me" and s2: "bm_get r2s i = Some s2"
    and p3: "fr_part3 S s2 (others_than i (bm_fill pkg ids bm_empty)) for_me = Some (kp, pub)"
    and run: "run_round3 S (bm_fill pkg ids bm_empty) r2 rest (bm_remove i r2s)
      (bm_insert i \<lparr> tk_key_package = kp, tk_public_package = pub \<rparr> out) = Ok out'"
    using Cons.prems(1) by (auto simp: result_simps)
  have "relayed_ok S X key r2 [i] relayed" by (rule relayed_ok_subset [OF Cons.prems(5)]) simp
  moreover have i: "i \<in> set ids" using Cons.prems(3) by simp
  ultimately obtain p' where p': "dkg_part3 S X (held relayed i) (finished t n ids sec pkg key i s2)
      = (p', Ok \<lparr> tk_key_package = kp, tk_public_package = pub \<rparr>)"
    using part3_runs [OF laws keyed i complete _ for_me p3] by blast
  have "held (bm_remove i relayed) to = held relayed to" if "to \<noteq> i" for to
    using that by (simp add: held_def)
  then have "relayed_ok S X key r2 rest (bm_remove i relayed)"
    using Cons.prems(2,5) unfolding relayed_ok_def by (metis distinct.simps(2) list.set_intros(2))
  moreover have "\<forall>j \<in> set rest. \<forall>s. bm_get (bm_remove i r2s) j = Some s \<longrightarrow>
      bm_get (bm_insert i p' parts) j = Some (finished t n ids sec pkg key j s)"
    using Cons.prems(2,4) by auto
  ultimately have "mem_round3 S X rest (bm_insert i p' parts) (bm_remove i relayed)
      (bm_insert i \<lparr> tk_key_package = kp, tk_public_package = pub \<rparr> out) = Some (Ok out')"
    using Cons.IH [OF run] Cons.prems(2,3) by simp
  moreover have "bm_get parts i = Some (finished t n ids sec pkg key i s2)" using Cons.prems(4) s2 by simp
  ultimately show ?case using p' by (simp add: held_def)
qed simp

lemma sealing_suite_rounds:
  "participant_ids (sealing_suite S X) n = participant_ids S n"
  "run_round2 (sealing_suite S X) = run_round2 S"
  "run_round3 (sealing_suite S X) = run_round3 S"
proof -
  have "try_identifiers (sealing_suite S X) is = try_identifiers S is" for "is"
    by (induction "is") (simp_all add: sealing_suite_def)
  then show "participant_ids (sealing_suite S X) n = participant_ids S n"
    by (simp add: participant_ids_def)
  have "run_round2 (sealing_suite S X) r1 ids a b c = run_round2 S r1 ids a b c" for r1 ids a b c
    by (induction ids arbitrary: a b c) (simp_all add: sealing_suite_def)
  then show "run_round2 (sealing_suite S X) = run_round2 S" by blast
  have "run_round3 (sealing_suite S X) r1 r2 ids a b = run_round3 S r1 r2 ids a b" for r1 r2 ids a b
    by (induction ids arbitrary: a b) (simp_all add: sealing_suite_def)
  then show "run_round3 (sealing_suite S X) = run_round3 S" by blast
qed

lemma check_agreement_Ok: "check_agreement S out = Ok out' \<Longrightarrow> out' = out"
  by (simp add: check_agreement_def split: list.splits if_splits)

lemma participant_ids_length: "participant_ids S n = Ok ids \<Longrightarrow> length ids = unat n"
proof -
  have "try_identifiers S is = Ok ids \<Longrightarrow> length ids = length is" for "is"
    by (induction "is" arbitrary: ids) (auto simp: result_simps)
  then show "participant_ids S n = Ok ids \<Longrightarrow> ?thesis" by (fastforce simp: participant_ids_def)
qed

section \<open>Properties\<close>


definition xor_bytes :: "bytes \<Rightarrow> bytes \<Rightarrow> bytes" where
  "xor_bytes = map2 (XOR)"

text \<open>A key, a nonce and a length make the key stream; a tag follows the ciphertext.\<close>

definition stream_cipher :: "'r seal_suite \<Rightarrow> (bytes \<Rightarrow> bytes \<Rightarrow> nat \<Rightarrow> bytes) \<Rightarrow> bool" where
  "stream_cipher X ks \<longleftrightarrow> (\<forall>k n l. length (ks k n l) = l) \<and>
    (\<forall>k n m. \<exists>tag. aead_encrypt X k n m = Some (xor_bytes m (ks k n (length m)) @ tag))"

lemma xor_bytes_nth: "i < length a \<Longrightarrow> i < length b \<Longrightarrow> xor_bytes a b ! i = a ! i XOR b ! i"
  by (simp add: xor_bytes_def)

lemma length_xor_bytes [simp]: "length (xor_bytes a b) = min (length a) (length b)"
  by (simp add: xor_bytes_def)

lemma xor_cancel: "(x XOR k) XOR (y XOR k) = x XOR (y :: byte)"
  by (rule bit_word_eqI) (auto simp: bit_xor_iff)

lemma xor_bytes_cancel:
  assumes "length b = length a" "length k = length a"
  shows "xor_bytes (xor_bytes a k) (xor_bytes b k) = xor_bytes a b"
proof (rule nth_equalityI)
  fix i
  assume "i < length (xor_bytes (xor_bytes a k) (xor_bytes b k))"
  then have "i < length a" by simp
  then show "xor_bytes (xor_bytes a k) (xor_bytes b k) ! i = xor_bytes a b ! i"
    using assms by (simp add: xor_bytes_nth xor_cancel)
qed (use assms in simp)

lemma xor_bytes_commute: "xor_bytes a b = xor_bytes b a"
  by (rule nth_equalityI) (simp_all add: xor_bytes_nth xor.commute)

lemma xor_bytes_twice: "length k = length a \<Longrightarrow> xor_bytes (xor_bytes a k) k = a"
  by (rule nth_equalityI) (simp_all add: xor_bytes_nth xor.assoc)

text \<open>An instance of the sealing for the witnesses: a public key is the secret itself, the shared
  bytes their exclusive or, and the key stream repeats one byte.\<close>

definition demo_stream :: "bytes \<Rightarrow> bytes \<Rightarrow> nat \<Rightarrow> bytes" where
  "demo_stream k n l = replicate l (foldr (XOR) k 0)"

definition demo_seal :: "nat seal_suite" where
  "demo_seal = \<lparr> x25519_public = (\<lambda>s. s), x25519_shared = xor_bytes, seal_sha256 = (\<lambda>b. b),
     aead_encrypt = (\<lambda>k n m. Some (xor_bytes m (demo_stream k n (length m)))),
     aead_decrypt = (\<lambda>k n c. Some (xor_bytes c (demo_stream k n (length c)))),
     fill_bytes = (\<lambda>n r. (replicate n (of_nat r), Suc r)) \<rparr>"

lemma demo_seal_laws: "seal_laws demo_seal"
proof -
  have "xor_bytes (xor_bytes m (replicate (length m) w)) (replicate (length m) w) = m" for m w
    by (rule xor_bytes_twice) simp
  moreover have "xor_bytes a b = xor_bytes b a" for a b by (rule xor_bytes_commute)
  ultimately show ?thesis
    by (simp add: seal_laws_def demo_seal_def demo_stream_def)
qed

lemma demo_stream_cipher: "stream_cipher demo_seal demo_stream"
  by (simp add: stream_cipher_def demo_seal_def demo_stream_def)

lemma demo_round2_laws: "round2_laws demo_suite"
  by (auto simp: round2_laws_def demo_suite_def)


text \<open>Two packages travel under one key and one nonce. The comment on \<open>seal\<close> calls the key unique
  to a sender and a recipient; the exchange is symmetric, so what A seals to B and what B seals
  to A are encrypted with the same key and the same all-zero nonce, and with a stream cipher
  whoever carries both ciphertexts learns the exclusive or of the two secret packages.\<close>

theorem sealing_reuses_key_and_nonce:
  assumes "seal_laws X" and "stream_cipher X ks" and "well_keyed X a" and "well_keyed X b"
    and "length m' = length m"
  shows "\<exists>c c'. seal X a (sk_public b) m = Ok c \<and> seal X b (sk_public a) m' = Ok c' \<and>
    xor_bytes (take (length m) c) (take (length m) c') = xor_bytes m m'"
proof -
  let ?k = "cipher X (sk_secret a) (sk_public b)"
  have len: "length (ks k n l) = l" for k n l using assms(2) unfolding stream_cipher_def by blast
  obtain t where t: "aead_encrypt X ?k (zeros 12) m = Some (xor_bytes m (ks ?k (zeros 12) (length m)) @ t)"
    using assms(2) unfolding stream_cipher_def by blast
  obtain t' where t': "aead_encrypt X ?k (zeros 12) m' = Some (xor_bytes m' (ks ?k (zeros 12) (length m')) @ t')"
    using assms(2) unfolding stream_cipher_def by blast
  have "seal X b (sk_public a) m' = Ok (xor_bytes m' (ks ?k (zeros 12) (length m')) @ t')"
    unfolding seal_def cipher_symmetric [OF assms(1,4,3)] t' by simp
  moreover have "seal X a (sk_public b) m = Ok (xor_bytes m (ks ?k (zeros 12) (length m)) @ t)"
    unfolding seal_def t by simp
  ultimately show ?thesis
    using xor_bytes_cancel [of m' m "ks ?k (zeros 12) (length m)"] assms(5) by (simp add: len)
qed

theorem sealing_reuses_key_and_nonce_witness:
  "\<exists>c c'. seal demo_seal \<lparr> sk_secret = [1], sk_public = [1] \<rparr> [2] [65, 66] = Ok c \<and>
    seal demo_seal \<lparr> sk_secret = [2], sk_public = [2] \<rparr> [1] [67, 68] = Ok c' \<and>
    xor_bytes (take 2 c) (take 2 c') = [2, 6]"
proof -
  have "well_keyed demo_seal \<lparr> sk_secret = s, sk_public = s \<rparr>" for s
    by (simp add: well_keyed_def demo_seal_def)
  from sealing_reuses_key_and_nonce [OF demo_seal_laws demo_stream_cipher this [of "[1]"] this [of "[2]"],
      of "[67, 68]" "[65, 66]"]
  show ?thesis by (simp add: xor_bytes_def numeral_2_eq_2)
qed

text \<open>Round two seals to whatever sealing key was announced under a recipient's name.\<close>

lemma seal_packages_entry:
  "seal_packages S X key pubs p2 m = Ok sealed \<Longrightarrow> bm_get sealed to = Some ct \<Longrightarrow>
    bm_get m to = Some ct \<or>
    (\<exists>x b peer. (to, x) \<in> set p2 \<and> fr_ser_round2 S x = Some b \<and> bm_get pubs to = Some peer \<and> seal X key peer b = Ok ct)"
proof (induction p2 arbitrary: m)
  case (Cons e p2)
  obtain a y where e: "e = (a, y)" by (cases e)
  obtain b peer ct' where b: "fr_ser_round2 S y = Some b" "bm_get pubs a = Some peer" "seal X key peer b = Ok ct'"
    and r: "seal_packages S X key pubs p2 (bm_insert a ct' m) = Ok sealed"
    using Cons.prems(1) by (auto simp: e result_simps)
  from Cons.IH [OF r Cons.prems(2)] b show ?case by (auto simp: e split: if_splits)
qed simp

text \<open>A round-two package is readable by whoever's sealing key was announced under the
  recipient's name. Sealing keys arrive in the relayed broadcasts and nothing ties them to a
  participant, so a relay that puts its own key in a broadcast opens the secret package meant
  for that participant, although the module's documentation has it relay ciphertext it cannot
  open.\<close>

theorem package_opens_under_announced_key:
  assumes "seal_laws X" and "well_keyed X eve" and "well_keyed X (dp_seal p)"
    and "dkg_part2 S X others p = (p', Ok sealed)" and "bm_get sealed to = Some ct"
    and "\<exists>b \<in> set others. bc_id b = to" and "\<forall>b \<in> set others. bc_id b = to \<longrightarrow> bc_seal_public b = sk_public eve"
  shows "\<exists>secret s2 p2 x b. dp_r1_secret p = Some secret \<and>
    fr_part2 S secret (others_than (dp_id p) (dp_r1_all (learn others p))) = Some (s2, p2) \<and>
    (to, x) \<in> set p2 \<and> fr_ser_round2 S x = Some b \<and> unseal X eve (sk_public (dp_seal p)) ct = Ok b"
proof -
  obtain secret s2 p2 where s: "dp_r1_secret p = Some secret"
    and p2: "fr_part2 S secret (others_than (dp_id p) (dp_r1_all (learn others p))) = Some (s2, p2)"
    and sealed: "seal_packages S X (dp_seal p) (dp_seal_pubs (learn others p)) p2 bm_empty = Ok sealed"
    using assms(4)
    by (auto simp: dkg_part2_def Let_def learn_def split: if_splits option.splits)
  have "bm_get (fold (\<lambda>b m. bm_insert (bc_id b) (bc_seal_public b) m) bs m) to = Some (sk_public eve)"
    if "\<forall>b \<in> set bs. bc_id b = to \<longrightarrow> bc_seal_public b = sk_public eve"
      "(\<exists>b \<in> set bs. bc_id b = to) \<or> bm_get m to = Some (sk_public eve)" for bs m
    using that by (induction bs arbitrary: m) auto
  from this [OF assms(7), of "dp_seal_pubs p"] assms(6)
  have "bm_get (dp_seal_pubs (learn others p)) to = Some (sk_public eve)" by (simp add: learn_def)
  with seal_packages_entry [OF sealed assms(5)] obtain x b where
    x: "(to, x) \<in> set p2" "fr_ser_round2 S x = Some b" and c: "seal X (dp_seal p) (sk_public eve) b = Ok ct"
    by auto
  have "ct = sealed_to X (dp_seal p) eve b" using c seal_Ok [OF assms(1)] by simp
  then have "unseal X eve (sk_public (dp_seal p)) ct = Ok b"
    using unseal_sealed [OF assms(1,3,2)] by simp
  with s p2 x show ?thesis by blast
qed

definition demo_first :: "(u16, bytes) dkg_participant" where
  "demo_first = started 2 2 (\<lambda>_. [0, 1]) (\<lambda>_. [0]) (\<lambda>_. \<lparr> sk_secret = [1], sk_public = [1] \<rparr>) 1"

definition demo_forged :: "(u16, bytes) broadcast" where
  "demo_forged = \<lparr> bc_id = 2, bc_package = [0], bc_seal_public = [6] \<rparr>"

theorem package_opens_under_announced_key_witness:
  "\<exists>p' sealed ct b. dkg_part2 demo_suite demo_seal [demo_forged] demo_first = (p', Ok sealed) \<and>
    bm_get sealed 2 = Some ct \<and> unseal demo_seal \<lparr> sk_secret = [6], sk_public = [6] \<rparr> [1] ct = Ok b"
proof -
  have k: "well_keyed demo_seal \<lparr> sk_secret = s, sk_public = s \<rparr>" for s
    by (simp add: well_keyed_def demo_seal_def)
  have seal: "dp_seal demo_first = \<lparr> sk_secret = [1], sk_public = [1] \<rparr>"
    by (simp add: demo_first_def started_def)
  have "case dkg_part2 demo_suite demo_seal [demo_forged] demo_first of
      (p', r) \<Rightarrow> (case r of Inl _ \<Rightarrow> False | Inr sealed \<Rightarrow> bm_get sealed 2 \<noteq> None)"
    by code_simp
  then obtain p' sealed ct where d: "dkg_part2 demo_suite demo_seal [demo_forged] demo_first = (p', Ok sealed)"
    and ct: "bm_get sealed 2 = Some ct"
    by (auto split: prod.splits sum.splits)
  from package_opens_under_announced_key [OF demo_seal_laws k [of "[6]"] _ d ct] k [of "[1]"] d ct
  show ?thesis by (auto simp: seal demo_forged_def)
qed

section \<open>The relay delivers\<close>

text \<open>A broadcast that survives the wire.\<close>

definition broadcast_wire :: "('id, 'x, 'r) suite \<Rightarrow> ('id, 'x) broadcast \<Rightarrow> bool" where
  "broadcast_wire S b \<longleftrightarrow>
    fr_id_de S (fr_id_ser S (bc_id b)) = Some (bc_id b) \<and> length (fr_id_ser S (bc_id b)) < 2 ^ 32 \<and>
    (\<exists>pkg. fr_ser_round1 S (bc_package b) = Some pkg \<and> fr_de_round1 S pkg = Some (bc_package b) \<and>
      length (fr_id_ser S (bc_id b)) + length pkg + 44 < 2 ^ 32) \<and> length (bc_seal_public b) = 32"

definition wire_form :: "('id, 'x, 'r) suite \<Rightarrow> ('id, 'x) broadcast \<Rightarrow> bytes" where
  "wire_form S b = put_bytes (fr_id_ser S (bc_id b)) @ put_bytes (the (fr_ser_round1 S (bc_package b)))
    @ put_bytes (bc_seal_public b)"

lemma length_put_bytes [simp]: "length (put_bytes b) = 4 + length b"
  by (simp add: put_bytes_def)

lemma broadcast_round_trip:
  assumes "broadcast_wire S b"
  shows "encode_broadcast S b = Ok (wire_form S b)" and "decode_broadcast S (wire_form S b) = Some b"
    and "length (wire_form S b) < 2 ^ 32" and "rd_bytes (wire_form S b) \<noteq> None"
    and "fst (the (rd_bytes (wire_form S b))) = fr_id_ser S (bc_id b)"
proof -
  obtain pkg where pkg: "fr_ser_round1 S (bc_package b) = Some pkg" "fr_de_round1 S pkg = Some (bc_package b)"
    "length (fr_id_ser S (bc_id b)) + length pkg + 44 < 2 ^ 32" using assms by (auto simp: broadcast_wire_def)
  have rd: "rd_bytes (put_bytes x @ r) = Some (x, r)" if "length x < 2 ^ 32" for x r
    using that by (rule bytes_codec.get_put)
  have rd_end: "rd_bytes (put_bytes x) = Some (x, [])" if "length x < 2 ^ 32" for x
    using that by (rule bytes_codec.get_put_end)
  have id: "fr_id_de S (fr_id_ser S (bc_id b)) = Some (bc_id b)" "length (fr_id_ser S (bc_id b)) < 2 ^ 32"
    and k: "length (bc_seal_public b) = 32" using assms by (simp_all add: broadcast_wire_def)
  show "encode_broadcast S b = Ok (wire_form S b)" by (simp add: encode_broadcast_def wire_form_def pkg)
  show "decode_broadcast S (wire_form S b) = Some b"
    using rd [OF id(2)] rd [of pkg] rd_end [of "bc_seal_public b"] pkg k
    by (simp add: decode_broadcast_def wire_form_def id)
  show "length (wire_form S b) < 2 ^ 32" using pkg k by (simp add: wire_form_def)
  show "rd_bytes (wire_form S b) \<noteq> None" "fst (the (rd_bytes (wire_form S b))) = fr_id_ser S (bc_id b)"
    using rd [OF id(2)] by (simp_all add: wire_form_def)
qed

text \<open>Every participant posts its broadcast, in some order.\<close>

definition post_round1 :: "bytes \<Rightarrow> bytes" where
  "post_round1 enc = [OP_POST_R1] @ put_bytes enc"

definition posted :: "('id, 'x, 'r) suite \<Rightarrow> ('id, 'x) broadcast list \<Rightarrow> relay \<Rightarrow> relay" where
  "posted S bs relay = fold (\<lambda>b r. fst (relay_handle (post_round1 (wire_form S b)) r)) bs relay"

lemma handle_post:
  assumes "broadcast_wire S b"
  shows "relay_handle (post_round1 (wire_form S b)) r
    = (r \<lparr> re_r1 := bm_insert (fr_id_ser S (bc_id b)) (wire_form S b) (re_r1 r) \<rparr>, S_OK, [])"
proof -
  note t = broadcast_round_trip [OF assms]
  obtain rest where rest: "rd_bytes (wire_form S b) = Some (fr_id_ser S (bc_id b), rest)"
    using t(4,5) by (cases "rd_bytes (wire_form S b)") auto
  have "rd_bytes (put_bytes (wire_form S b)) = Some (wire_form S b, [])"
    by (rule bytes_codec.get_put_end [OF t(3)])
  with rest show ?thesis by (simp add: relay_handle_def post_round1_def)
qed

lemma posted_r1:
  assumes "list_all (broadcast_wire S) bs"
  shows "posted S bs r = r \<lparr> re_r1 :=
    fold (\<lambda>e m. bm_insert (fst e) (snd e) m) (map (\<lambda>b. (fr_id_ser S (bc_id b), wire_form S b)) bs) (re_r1 r) \<rparr>"
  using assms by (induction bs arbitrary: r) (simp_all add: posted_def handle_post)

lemma read_others_all:
  assumes "list_all (broadcast_wire S) bs"
  shows "read_others S pid (length bs) (concat (map (put_bytes \<circ> wire_form S) bs) @ r)
    = Ok (filter (\<lambda>b. bc_id b \<noteq> pid) bs)"
  using assms
proof (induction bs)
  case (Cons b bs)
  then have "broadcast_wire S b" by simp
  note t = broadcast_round_trip [OF this]
  have "rd_bytes (put_bytes (wire_form S b) @ r') = Some (wire_form S b, r')" for r'
    by (rule bytes_codec.get_put [OF t(3)])
  with Cons t(2) show ?case by simp
qed simp

text \<open>Round one completes exactly when everyone has posted, and loses nobody. Until the last of
  the expected participants has posted its broadcast the relay answers \<open>S_WAIT\<close>; from then on
  every participant reads back the broadcasts of all the others, unaltered and in the order of
  their identifiers.\<close>

theorem relay_completes_round_one:
  assumes "list_all (broadcast_wire S) bs" and "distinct (map (\<lambda>b. fr_id_ser S (bc_id b)) bs)"
    and "length bs < 2 ^ 32" and "k \<le> length bs"
  shows "case relay_handle [OP_GET_R1] (posted S (take k bs) (relay_new (length bs))) of
    (_, status, body) \<Rightarrow>
      if k < length bs then status = S_WAIT \<and> body = []
      else status = S_OK \<and> (\<exists>n r. (rd_be 4 :: u32 reader) body = Some (n, r) \<and> unat n = length bs \<and>
        read_others S pid (unat n) r
          = Ok (filter (\<lambda>b. bc_id b \<noteq> pid) (sort_key (\<lambda>b. fr_id_ser S (bc_id b)) bs)))"
proof -
  let ?key = "\<lambda>b. fr_id_ser S (bc_id b)"
  have wire: "list_all (broadcast_wire S) (take k bs)"
    using assms(1) by (auto simp: list_all_iff dest: in_set_takeD)
  have "distinct (map ?key (take k bs))" using assms(2) by (simp add: take_map [symmetric])
  note sorted = bm_of_map [OF this, of "wire_form S"]
  have r: "posted S (take k bs) (relay_new (length bs)) = \<lparr> re_expected = length bs,
      re_r1 = map (\<lambda>b. (?key b, wire_form S b)) (sort_key ?key (take k bs)), re_r2 = bm_empty \<rparr>"
    unfolding posted_r1 [OF wire] using sorted by (simp add: relay_new_def bm_of_def)
  show ?thesis
  proof (cases "k < length bs")
    case True
    then show ?thesis by (simp add: relay_handle_def relay_ops r)
  next
    case False
    with assms(4) have k: "take k bs = bs" by simp
    let ?bs = "sort_key ?key bs"
    have "list_all (broadcast_wire S) ?bs" using assms(1) by (simp add: list_all_iff)
    note others = read_others_all [OF this, of pid "[]"]
    have n: "(rd_be 4 :: u32 reader) (be_bytes 4 (length bs) @ r') = Some (of_nat (length bs), r')" for r'
      by (rule rd_be32_length [OF assms(3)])
    have "bm_values (map (\<lambda>b. (?key b, wire_form S b)) ?bs) = map (wire_form S) ?bs"
      by (simp add: bm_values_def)
    then show ?thesis
      using others n False assms(3)
      by (simp add: relay_handle_def relay_ops k r [unfolded k] put_list_be_def unat_of_nat_u32 comp_def)
  qed
qed

definition demo_announcements :: "(u16, bytes) broadcast list" where
  "demo_announcements = [\<lparr> bc_id = 2, bc_package = [5], bc_seal_public = zeros 32 \<rparr>,
    \<lparr> bc_id = 1, bc_package = [4], bc_seal_public = zeros 32 \<rparr>]"

theorem relay_completes_round_one_witness:
  "case relay_handle [OP_GET_R1] (posted demo_suite demo_announcements (relay_new 2)) of
    (_, status, body) \<Rightarrow> status = S_OK \<and> (\<exists>n r. (rd_be 4 :: u32 reader) body = Some (n, r) \<and>
      read_others demo_suite 2 (unat n) r
        = Ok [\<lparr> bc_id = 1, bc_package = [4], bc_seal_public = zeros 32 \<rparr>])"
proof -
  have l: "length demo_announcements = 2" by (simp add: demo_announcements_def)
  have "list_all (broadcast_wire demo_suite) demo_announcements"
    by (simp add: demo_announcements_def broadcast_wire_def demo_suite_def zeros_def be_val_be_bytes)
  moreover have "distinct (map (\<lambda>b. fr_id_ser demo_suite (bc_id b)) demo_announcements)" by code_simp
  moreover have "length demo_announcements < 2 ^ 32" "2 \<le> length demo_announcements" by (simp_all add: l)
  ultimately have *: "case relay_handle [OP_GET_R1] (posted demo_suite (take 2 demo_announcements) (relay_new (length demo_announcements))) of
    (_, status, body) \<Rightarrow>
      if 2 < length demo_announcements then status = S_WAIT \<and> body = []
      else status = S_OK \<and> (\<exists>n r. (rd_be 4 :: u32 reader) body = Some (n, r) \<and> unat n = length demo_announcements \<and>
        read_others demo_suite 2 (unat n) r
          = Ok (filter (\<lambda>b. bc_id b \<noteq> 2) (sort_key (\<lambda>b. fr_id_ser demo_suite (bc_id b)) demo_announcements)))"
    by (rule relay_completes_round_one)
  have "filter (\<lambda>b. bc_id b \<noteq> 2) (sort_key (\<lambda>b. fr_id_ser demo_suite (bc_id b)) demo_announcements)
      = [\<lparr> bc_id = 1, bc_package = [4], bc_seal_public = zeros 32 \<rparr>]"
    by code_simp
  moreover have "take 2 demo_announcements = demo_announcements" by (simp add: l)
  ultimately show ?thesis using * by (auto simp: l split: prod.splits)
qed

end
