(* ===== verification/Quorums.thy ===== *)
theory Quorums
  imports Custody_Net
begin

text \<open>
  The traits \<open>Quorum\<close> and \<open>Ed25519Quorum\<close> of signing.rs: what a coordinator calls, and what it
  relies on. Each is a locale, interpreted on the in-process quorum (share-holders and their
  random source) and on the networked one (whatever the network answers).
\<close>

section \<open>Orchard spends\<close>

definition all_entries :: "('k \<Rightarrow> 'v \<Rightarrow> bool) \<Rightarrow> ('k, 'v) bmap \<Rightarrow> bool" where
  "all_entries P m \<longleftrightarrow> (\<forall>e \<in> set m. P (fst e) (snd e))"

lemma all_entries_insert [simp]: "all_entries P m \<Longrightarrow> P k v \<Longrightarrow> all_entries P (bm_insert k v m)"
  using set_bm_insert_le [of k v m] by (auto simp: all_entries_def)

lemma all_entries_empty [simp]: "all_entries P bm_empty"
  by (simp add: all_entries_def bm_empty_def)

lemma all_entriesD: "all_entries P m \<Longrightarrow> bm_get m k = Some v \<Longrightarrow> P k v"
  using bm_get_SomeD [of m k v] by (auto simp: all_entries_def)

locale share_quorum =
  fixes q_round1 :: "u64 \<Rightarrow> bytes \<Rightarrow> 'x list \<Rightarrow> u64 \<Rightarrow> 'q \<Rightarrow> 'q \<times> ('id::linorder, 'x list) bmap"
    and q_round2 :: "u64 \<Rightarrow> 'id list \<Rightarrow> 'x list \<Rightarrow> 'q \<Rightarrow> 'q \<times> ('id, 'x list) bmap"
    and q_inv :: "'q \<Rightarrow> bool"
  assumes round1_law: "q_inv q \<Longrightarrow> q_round1 request sighash alphas now q = (q', m) \<Longrightarrow>
      q_inv q' \<and> bm_ok m \<and> all_entries (\<lambda>_ cs. length cs = length alphas) m"
    and round2_law: "q_inv q \<Longrightarrow> q_round2 request chosen packages q = (q', m) \<Longrightarrow>
      q_inv q' \<and> bm_ok m \<and> all_entries (\<lambda>i shares. i \<in> set chosen \<and> length shares = length packages) m"
begin

text \<open>The first \<open>t\<close> to answer round one each have a commitment for every action.\<close>

lemma chosen_have_commitments:
  assumes "q_inv q" and "q_round1 request sighash alphas now q = (q', m)"
    and "i \<in> set (take t (bm_keys m))"
  shows "\<exists>cs. bm_get m i = Some cs \<and> length cs = length alphas"
proof -
  have "bm_contains m i" using in_set_takeD [OF assms(3)] by (simp add: bm_contains_iff)
  then obtain cs where cs: "bm_get m i = Some cs" by (auto simp: bm_contains_def)
  have "all_entries (\<lambda>_ cs. length cs = length alphas) m" using round1_law [OF assms(1,2)] by blast
  from all_entriesD [OF this cs] cs show ?thesis by blast
qed

lemma answers_are_chosen:
  assumes "q_inv q" and "q_round2 request chosen packages q = (q', m)" and "bm_get m i = Some shares"
  shows "i \<in> set chosen \<and> length shares = length packages"
  using round2_law [OF assms(1,2)] all_entriesD [OF _ assms(3)] by blast

end

definition lq_round1 ::
  "('id::linorder, 'x, 'r) suite \<Rightarrow> u64 \<Rightarrow> bytes \<Rightarrow> 'x list \<Rightarrow> u64 \<Rightarrow> ('id, 'x) participant list \<times> 'r
    \<Rightarrow> (('id, 'x) participant list \<times> 'r) \<times> ('id, 'x list) bmap" where
  "lq_round1 S request sighash alphas now q =
    (case local_round1 S request sighash alphas now (fst q) (snd q) bm_empty of
       (ps, rng, out) \<Rightarrow> ((ps, rng), out))"

definition lq_round2 ::
  "('id::linorder, 'x, 'r) suite \<Rightarrow> u64 \<Rightarrow> 'id list \<Rightarrow> 'x list \<Rightarrow> ('id, 'x) participant list \<times> 'r
    \<Rightarrow> (('id, 'x) participant list \<times> 'r) \<times> ('id, 'x list) bmap" where
  "lq_round2 S request chosen packages q =
    (case local_round2 S request chosen packages (fst q) bm_empty of
       (ps, out) \<Rightarrow> ((ps, snd q), out))"

definition lq_inv :: "('id, 'x) participant list \<times> 'r \<Rightarrow> bool" where
  "lq_inv q \<longleftrightarrow> (\<forall>p \<in> set (fst q). participant_ok p)"

lemma participant_ok_round2:
  assumes "participant_ok p" and "round2 S request packages p = (p', res)"
  shows "participant_ok p'"
proof -
  have "pa_live p' = pa_live p \<or> (\<exists>r. pa_live p' = bm_remove r (pa_live p))"
    using assms(2) by (auto simp: round2_def split: option.splits if_splits)
  with assms(1) show ?thesis by (auto simp: participant_ok_def set_bm_remove)
qed

lemma round2_id: "round2 S request packages p = (p', res) \<Longrightarrow> participant_id S p' = participant_id S p"
  by (auto simp: round2_def participant_id_def split: option.splits if_splits)

lemma local_round1_law:
  "local_round1 S request sighash alphas now ps rng out = (ps', rng', out') \<Longrightarrow>
    \<forall>p \<in> set ps. participant_ok p \<Longrightarrow> bm_ok out \<Longrightarrow> all_entries (\<lambda>_ cs. length cs = length alphas) out \<Longrightarrow>
    (\<forall>p \<in> set ps'. participant_ok p) \<and> bm_ok out' \<and> all_entries (\<lambda>_ cs. length cs = length alphas) out'"
proof (induction ps arbitrary: ps' rng out)
  case (Cons p ps)
  obtain p1 rng1 res where r: "round1 S request sighash alphas now p rng = (p1, rng1, res)" by (metis prod.exhaust)
  let ?out = "case res of Inl _ \<Rightarrow> out | Inr cs \<Rightarrow> bm_insert (participant_id S p1) cs out"
  obtain ps1 where l: "local_round1 S request sighash alphas now ps rng1 ?out = (ps1, rng', out')"
    and ps': "ps' = p1 # ps1" using Cons.prems(1) r by (auto split: prod.splits)
  have "participant_ok p1" using participant_ok_round1 [OF _ r] Cons.prems(2) by simp
  moreover have "bm_ok ?out" using Cons.prems(3) by (simp split: sum.splits)
  moreover have "all_entries (\<lambda>_ cs. length cs = length alphas) ?out"
    using Cons.prems(4) round1_length [of S request sighash alphas now p rng p1 rng1] r
    by (simp split: sum.splits)
  moreover have "\<forall>p \<in> set ps. participant_ok p" using Cons.prems(2) by simp
  ultimately show ?case using Cons.IH [OF l] by (simp add: ps')
qed simp

lemma local_round2_law:
  "local_round2 S request chosen packages ps out = (ps', out') \<Longrightarrow>
    \<forall>p \<in> set ps. participant_ok p \<Longrightarrow> bm_ok out \<Longrightarrow>
    all_entries (\<lambda>i shares. i \<in> set chosen \<and> length shares = length packages) out \<Longrightarrow>
    (\<forall>p \<in> set ps'. participant_ok p) \<and> bm_ok out' \<and>
    all_entries (\<lambda>i shares. i \<in> set chosen \<and> length shares = length packages) out'"
proof (induction ps arbitrary: ps' out)
  case (Cons p ps)
  have ps: "\<forall>p \<in> set ps. participant_ok p" "participant_ok p" using Cons.prems(2) by simp_all
  show ?case
  proof (cases "participant_id S p \<in> set chosen")
    case True
    obtain p1 res where r: "round2 S request packages p = (p1, res)" by fastforce
    let ?out = "case res of Inl _ \<Rightarrow> out | Inr shares \<Rightarrow> bm_insert (participant_id S p1) shares out"
    obtain ps1 where l: "local_round2 S request chosen packages ps ?out = (ps1, out')" and ps': "ps' = p1 # ps1"
      using Cons.prems(1) r True by (auto split: prod.splits)
    have "participant_ok p1" by (rule participant_ok_round2 [OF ps(2) r])
    moreover have "bm_ok ?out" using Cons.prems(3) by (simp split: sum.splits)
    moreover have "all_entries (\<lambda>i shares. i \<in> set chosen \<and> length shares = length packages) ?out"
      using Cons.prems(4) round2_shape [OF ps(2), of S request packages p1] r True round2_id [OF r]
      by (simp split: sum.splits)
    ultimately show ?thesis using Cons.IH [OF l ps(1)] by (simp add: ps')
  next
    case False
    obtain ps1 where l: "local_round2 S request chosen packages ps out = (ps1, out')" and ps': "ps' = p # ps1"
      using Cons.prems(1) False by (auto split: prod.splits)
    show ?thesis using Cons.IH [OF l ps(1) Cons.prems(3,4)] ps(2) by (simp add: ps')
  qed
qed simp

interpretation lq: share_quorum "lq_round1 S" "lq_round2 S" lq_inv for S :: "('id::linorder, 'x, 'r) suite"
proof
  fix q q' :: "('id, 'x) participant list \<times> 'r" and request sighash alphas now m
  assume "lq_inv q" "lq_round1 S request sighash alphas now q = (q', m)"
  then show "lq_inv q' \<and> bm_ok m \<and> all_entries (\<lambda>_ cs. length cs = length alphas) m"
    using local_round1_law [of S request sighash alphas now "fst q" "snd q" bm_empty]
    by (auto simp: lq_round1_def lq_inv_def split: prod.splits)
next
  fix q q' :: "('id, 'x) participant list \<times> 'r" and request chosen packages m
  assume "lq_inv q" "lq_round2 S request chosen packages q = (q', m)"
  then show "lq_inv q' \<and> bm_ok m \<and> all_entries (\<lambda>i shares. i \<in> set chosen \<and> length shares = length packages) m"
    using local_round2_law [of S request chosen packages "fst q" bm_empty]
    by (auto simp: lq_round2_def lq_inv_def split: prod.splits)
qed

lemma remote_collect1_law:
  "remote_collect1 S call frame actions addrs net out = (net', out') \<Longrightarrow> bm_ok out \<Longrightarrow>
    all_entries (\<lambda>_ cs. length cs = actions) out \<Longrightarrow> bm_ok out' \<and> all_entries (\<lambda>_ cs. length cs = actions) out'"
proof (induction addrs arbitrary: net out)
  case (Cons a addrs)
  obtain net1 reply where c: "call a frame net = (net1, reply)" by fastforce
  let ?out = "case Option.bind reply (decode_commitments S) of
      Some (pid, cs) \<Rightarrow> if length cs = actions then bm_insert pid cs out else out | None \<Rightarrow> out"
  have "bm_ok ?out" "all_entries (\<lambda>_ cs. length cs = actions) ?out"
    using Cons.prems(2,3) by (simp_all split: option.splits prod.splits)
  with Cons.IH [of net1 ?out] Cons.prems(1) show ?case by (simp add: c)
qed simp

lemma remote_collect2_law:
  "remote_collect2 S call frame chosen actions addrs net out = (net', out') \<Longrightarrow> bm_ok out \<Longrightarrow>
    all_entries (\<lambda>i shares. i \<in> set chosen \<and> length shares = actions) out \<Longrightarrow>
    bm_ok out' \<and> all_entries (\<lambda>i shares. i \<in> set chosen \<and> length shares = actions) out'"
proof (induction addrs arbitrary: net out)
  case (Cons a addrs)
  obtain net1 reply where c: "call a frame net = (net1, reply)" by fastforce
  let ?out = "case Option.bind reply (decode_shares S) of
      Some (pid, cs) \<Rightarrow> if pid \<in> set chosen \<and> length cs = actions then bm_insert pid cs out else out | None \<Rightarrow> out"
  have "bm_ok ?out" "all_entries (\<lambda>i shares. i \<in> set chosen \<and> length shares = actions) ?out"
    using Cons.prems(2,3) by (simp_all split: option.splits prod.splits)
  with Cons.IH [of net1 ?out] Cons.prems(1) show ?case by (simp add: c)
qed simp

interpretation rq: share_quorum "\<lambda>request sighash alphas now. remote_round1 S call custodians request sighash alphas"
    "remote_round2 S call custodians" "\<lambda>_. True"
  for S :: "('id::linorder, 'x, 'r) suite" and call :: "('a, 'n) network_call" and custodians
proof
  fix net net' :: 'n and request sighash alphas now m
  assume "remote_round1 S call custodians request sighash alphas net = (net', m)"
  then show "True \<and> bm_ok m \<and> all_entries (\<lambda>_ cs. length cs = length alphas) m"
    using remote_collect1_law [of S call _ "length alphas" custodians net bm_empty net' m]
    by (auto simp: remote_round1_def)
next
  fix net net' :: 'n and request chosen packages m
  assume "remote_round2 S call custodians request chosen packages net = (net', m)"
  then show "True \<and> bm_ok m \<and> all_entries (\<lambda>i shares. i \<in> set chosen \<and> length shares = length packages) m"
    using remote_collect2_law [of S call _ chosen "length packages" custodians net bm_empty net' m]
    by (auto simp: remote_round2_def split: sum.splits)
qed

section \<open>Ed25519\<close>

locale ed_quorum =
  fixes e_round1 :: "u64 \<Rightarrow> bytes \<Rightarrow> u64 \<Rightarrow> 'q \<Rightarrow> 'q \<times> ('id::linorder, 'x) bmap"
    and e_round2 :: "u64 \<Rightarrow> 'id list \<Rightarrow> 'x \<Rightarrow> 'q \<Rightarrow> 'q \<times> ('id, 'x) bmap"
  assumes ed_round1_law: "e_round1 request message now q = (q', m) \<Longrightarrow> bm_ok m"
    and ed_round2_law: "e_round2 request chosen package q = (q', m) \<Longrightarrow>
      bm_ok m \<and> set (bm_keys m) \<subseteq> set chosen"
begin

text \<open>A coordinator that adds the commitments of the chosen never meets a share of anyone else.\<close>

lemma shares_are_expected:
  assumes "e_round2 request chosen package q = (q', m)"
    and "\<forall>i \<in> set chosen. bm_contains (ag_commitments a) i"
  shows "aggregate S a pkg m public \<noteq> Err UnexpectedSigner"
proof -
  have "list_all (\<lambda>pid. bm_contains (ag_commitments a) pid) (bm_keys m)"
    using ed_round2_law [OF assms(1)] assms(2) by (auto simp: list_all_iff)
  then show ?thesis by (simp add: aggregate_def ok_or_eq)
qed

end

definition leq_round1 ::
  "('id::linorder, 'x, 'r) suite \<Rightarrow> u64 \<Rightarrow> bytes \<Rightarrow> u64 \<Rightarrow> ('id, 'x) ed_participant list \<times> 'r
    \<Rightarrow> (('id, 'x) ed_participant list \<times> 'r) \<times> ('id, 'x) bmap" where
  "leq_round1 S request message now q =
    (case local_ed_round1 S request message now (fst q) (snd q) bm_empty of
       (ps, rng, out) \<Rightarrow> ((ps, rng), out))"

definition leq_round2 ::
  "('id::linorder, 'x, 'r) suite \<Rightarrow> u64 \<Rightarrow> 'id list \<Rightarrow> 'x \<Rightarrow> ('id, 'x) ed_participant list \<times> 'r
    \<Rightarrow> (('id, 'x) ed_participant list \<times> 'r) \<times> ('id, 'x) bmap" where
  "leq_round2 S request chosen package q =
    (case local_ed_round2 S request chosen package (fst q) bm_empty of
       (ps, out) \<Rightarrow> ((ps, snd q), out))"

lemma bm_keys_insert: "set (bm_keys (bm_insert k v m)) = insert k (set (bm_keys m))"
  unfolding bm_keys_def by (rule set_bm_insert_subset)

lemma ed_round2_id: "ed_round2 S request package p = (p', res) \<Longrightarrow> ed_participant_id S p' = ed_participant_id S p"
  by (auto simp: ed_round2_def ed_participant_id_def split: option.splits if_splits)

lemma local_ed_round1_law:
  "local_ed_round1 S request message now ps rng out = (ps', rng', out') \<Longrightarrow> bm_ok out \<Longrightarrow> bm_ok out'"
  by (induction ps arbitrary: ps' rng out) (auto split: prod.splits sum.splits)

lemma local_ed_round2_law:
  "local_ed_round2 S request chosen package ps out = (ps', out') \<Longrightarrow> bm_ok out \<Longrightarrow>
    set (bm_keys out) \<subseteq> set chosen \<Longrightarrow> bm_ok out' \<and> set (bm_keys out') \<subseteq> set chosen"
proof (induction ps arbitrary: ps' out)
  case (Cons p ps)
  obtain p1 res where r: "ed_round2 S request package p = (p1, res)" by fastforce
  let ?out = "if ed_participant_id S p \<in> set chosen
    then (case res of Inl _ \<Rightarrow> out | Inr share \<Rightarrow> bm_insert (ed_participant_id S p1) share out) else out"
  obtain ps1 where "local_ed_round2 S request chosen package ps ?out = (ps1, out')"
    using Cons.prems(1) r by (auto split: prod.splits if_splits)
  moreover have "bm_ok ?out" using Cons.prems(2) by (simp split: sum.splits)
  moreover have "set (bm_keys ?out) \<subseteq> set chosen"
    using Cons.prems(3) ed_round2_id [OF r] by (auto simp: bm_keys_insert split: sum.splits)
  ultimately show ?case using Cons.IH by blast
qed simp

interpretation leq: ed_quorum "leq_round1 S" "leq_round2 S" for S :: "('id::linorder, 'x, 'r) suite"
proof
  fix q q' :: "('id, 'x) ed_participant list \<times> 'r" and request message now m
  assume "leq_round1 S request message now q = (q', m)"
  then show "bm_ok m"
    using local_ed_round1_law [of S request message now "fst q" "snd q" bm_empty]
    by (auto simp: leq_round1_def split: prod.splits)
next
  fix q q' :: "('id, 'x) ed_participant list \<times> 'r" and request chosen package m
  assume "leq_round2 S request chosen package q = (q', m)"
  then show "bm_ok m \<and> set (bm_keys m) \<subseteq> set chosen"
    using local_ed_round2_law [of S request chosen package "fst q" bm_empty]
    by (auto simp: leq_round2_def bm_empty_def bm_keys_def split: prod.splits)
qed

lemma remote_ed_collect_law:
  "remote_ed_collect read keep call frame addrs net out = (net', out') \<Longrightarrow> bm_ok out \<Longrightarrow>
    \<forall>i \<in> set (bm_keys out). keep i \<Longrightarrow> bm_ok out' \<and> (\<forall>i \<in> set (bm_keys out'). keep i)"
proof (induction addrs arbitrary: net out)
  case (Cons a addrs)
  obtain net1 reply where c: "call a frame net = (net1, reply)" by fastforce
  let ?out = "case Option.bind reply read of Some (pid, x) \<Rightarrow> if keep pid then bm_insert pid x out else out | None \<Rightarrow> out"
  have "bm_ok ?out" using Cons.prems(2) by (simp split: option.splits prod.splits)
  moreover have "\<forall>i \<in> set (bm_keys ?out). keep i"
    using Cons.prems(3) by (auto simp: bm_keys_insert split: option.splits prod.splits)
  ultimately show ?case using Cons.IH [of net1 ?out] Cons.prems(1) by (simp add: c)
qed simp

interpretation req: ed_quorum "\<lambda>request message now. remote_ed_round1 S call custodians request message"
    "remote_ed_round2 S call custodians"
  for S :: "('id::linorder, 'x, 'r) suite" and call :: "('a, 'n) network_call" and custodians
proof
  fix net net' :: 'n and request message now m
  assume "remote_ed_round1 S call custodians request message net = (net', m)"
  then show "bm_ok m"
    using remote_ed_collect_law [of "read_ed25519_commitments S" "\<lambda>_. True" call _ custodians net bm_empty net' m]
    by (auto simp: remote_ed_round1_def)
next
  fix net net' :: 'n and request chosen package m
  assume "remote_ed_round2 S call custodians request chosen package net = (net', m)"
  then show "bm_ok m \<and> set (bm_keys m) \<subseteq> set chosen"
    using remote_ed_collect_law [of "read_ed25519_share S" "\<lambda>i. i \<in> set chosen" call _ custodians net bm_empty net' m]
    by (auto simp: remote_ed_round2_def bm_empty_def bm_keys_def split: sum.splits)
qed

end
