(* ===== verification/Ed25519_Vault.thy ===== *)
theory Ed25519_Vault
  imports Quorums Dkg_Net Account
begin

text \<open>
  ed25519.rs: threshold Ed25519 accounts. Provisioning a treasury, signing with the shares in one
  process, across custodians, and through a quorum. SHA-256 and the strict verifier of
  ed25519-dalek are parameters; \<open>CeremonyCrypto\<close> is \<open>CeremonyError::Crypto\<close>.
\<close>

section \<open>Treasuries\<close>

record ('id, 'x) treasury =
  tr_account :: bytes
  tr_group_key :: bytes
  tr_shares :: "('id, 'x threshold_keys) bmap"

definition group_key_bytes :: "('id, 'x, 'r) suite \<Rightarrow> 'x \<Rightarrow> ceremony_error + bytes" where
  "group_key_bytes S public =
    and_then (ok_or (fr_ser_key S (fr_group_key S public)) CeremonyCrypto) (\<lambda>b.
      if is_array 32 b then Ok b else Err CeremonyCrypto)"

definition account_of_group ::
  "('id, 'x, 'r) suite \<Rightarrow> (bytes \<Rightarrow> bytes) \<Rightarrow> 'x \<Rightarrow> ceremony_error + bytes" where
  "account_of_group S sha256 public = and_then (group_key_bytes S public) (\<lambda>k. Ok (account_of sha256 Ed25519 k))"

definition provision ::
  "('id::linorder, 'x, 'r) suite \<Rightarrow> 'r seal_suite \<Rightarrow> (bytes \<Rightarrow> bytes) \<Rightarrow> u16 \<Rightarrow> u16 \<Rightarrow> 'r
    \<Rightarrow> (ceremony_error + ('id, 'x) treasury) run \<times> 'r" where
  "provision S X sha256 threshold participants rng =
    (if threshold < 2 \<or> participants < threshold then (Some (Err CeremonyCrypto), rng)
     else (case run_in_memory_for S X threshold participants rng of
       (None, rng') \<Rightarrow> (None, rng')
     | (Some r, rng') \<Rightarrow>
         (Some (and_then r (\<lambda>shares.
            case bm_values shares of
              [] \<Rightarrow> Err CeremonyCrypto
            | k # _ \<Rightarrow>
              and_then (group_key_bytes S (tk_public_package k)) (\<lambda>group_key.
              and_then (account_of_group S sha256 (tk_public_package k)) (\<lambda>account.
                Ok \<lparr> tr_account = account, tr_group_key = group_key, tr_shares = shares \<rparr>)))), rng')))"

section \<open>Signing with the shares at hand\<close>

fun commit_all ::
  "('id::linorder, 'x, 'r) suite \<Rightarrow> ('id, 'x threshold_keys) bmap \<Rightarrow> 'id list
    \<Rightarrow> ('id, 'x) bmap \<Rightarrow> ('id, 'x) bmap \<Rightarrow> 'r \<Rightarrow> (ceremony_error + ('id, 'x) bmap \<times> ('id, 'x) bmap) \<times> 'r" where
  "commit_all S shares [] nonces commitments rng = (Ok (nonces, commitments), rng)"
| "commit_all S shares (i # signers) nonces commitments rng =
    (case bm_get shares i of
       None \<Rightarrow> (Err CeremonyCrypto, rng)
     | Some keys \<Rightarrow>
       (case fr_commit S (tk_key_package keys) rng of
          ((n, c), rng') \<Rightarrow> commit_all S shares signers (bm_insert i n nonces) (bm_insert i c commitments) rng'))"

text \<open>\<open>nonces[id]\<close> panics when the entry is missing.\<close>

fun sign_all_shares ::
  "('id::linorder, 'x, 'r) suite \<Rightarrow> ('id, 'x threshold_keys) bmap \<Rightarrow> 'x \<Rightarrow> ('id, 'x) bmap \<Rightarrow> 'id list
    \<Rightarrow> ('id, 'x) bmap \<Rightarrow> (ceremony_error + ('id, 'x) bmap) run" where
  "sign_all_shares S shares package nonces [] out = Some (Ok out)"
| "sign_all_shares S shares package nonces (i # signers) out =
    (case bm_get shares i of
       None \<Rightarrow> Some (Err CeremonyCrypto)
     | Some keys \<Rightarrow>
       (case bm_get nonces i of
          None \<Rightarrow> None
        | Some n \<Rightarrow>
          (case fr_sign S package n (tk_key_package keys) of
             None \<Rightarrow> Some (Err CeremonyCrypto)
           | Some share \<Rightarrow> sign_all_shares S shares package nonces signers (bm_insert i share out))))"

text \<open>The serialised signature, 64 bytes, with the group key.\<close>

definition finish_signature ::
  "('id, 'x, 'r) suite \<Rightarrow> 'x \<Rightarrow> 'x option \<Rightarrow> ceremony_error + bytes \<times> bytes" where
  "finish_signature S public sig =
    and_then (ok_or sig CeremonyCrypto) (\<lambda>sig.
    and_then (ok_or (fr_ser_signature S sig) CeremonyCrypto) (\<lambda>b.
    and_then (if is_array 64 b then Ok b else Err CeremonyCrypto) (\<lambda>b.
    and_then (group_key_bytes S public) (\<lambda>k. Ok (k, b)))))"

definition treasury_sign ::
  "('id::linorder, 'x, 'r) suite \<Rightarrow> ('id, 'x threshold_keys) bmap \<Rightarrow> 'id list \<Rightarrow> bytes \<Rightarrow> 'r
    \<Rightarrow> (ceremony_error + bytes \<times> bytes) run \<times> 'r" where
  "treasury_sign S shares signers message rng =
    (case commit_all S shares signers bm_empty bm_empty rng of
       (Inl e, rng') \<Rightarrow> (Some (Err e), rng')
     | (Inr (nonces, commitments), rng') \<Rightarrow>
       (let package = fr_package S commitments message in
        (case sign_all_shares S shares package nonces signers bm_empty of
           None \<Rightarrow> None
         | Some r \<Rightarrow> Some (and_then r (\<lambda>sig_shares.
             case bm_values shares of
               [] \<Rightarrow> Err CeremonyCrypto
             | k # _ \<Rightarrow> finish_signature S (tk_public_package k)
                 (fr_aggregate S package sig_shares (tk_public_package k))))), rng'))"

section \<open>Signing across custodians\<close>

text \<open>Round one stops as soon as \<open>threshold\<close> custodians have committed.\<close>

fun across_round1 ::
  "('id::linorder, 'x, 'r) suite \<Rightarrow> ('a, 'n) network_call \<Rightarrow> bytes \<Rightarrow> nat \<Rightarrow> 'a list \<Rightarrow> 'n
    \<Rightarrow> ('id, 'x) bmap \<Rightarrow> 'n \<times> ('id, 'x) bmap" where
  "across_round1 S ask frame threshold [] net commitments = (net, commitments)"
| "across_round1 S ask frame threshold (addr # addrs) net commitments =
    (case ask addr frame net of
       (net', None) \<Rightarrow> across_round1 S ask frame threshold addrs net' commitments
     | (net', Some reply) \<Rightarrow>
         (let commitments' = (case read_ed25519_commitments S reply of
              Some (i, c) \<Rightarrow> bm_insert i c commitments | None \<Rightarrow> commitments)
          in if length commitments' = threshold then (net', commitments')
             else across_round1 S ask frame threshold addrs net' commitments'))"

fun across_round2 ::
  "('id::linorder, 'x, 'r) suite \<Rightarrow> ('a, 'n) network_call \<Rightarrow> bytes \<Rightarrow> ('id, 'x) bmap \<Rightarrow> 'a list \<Rightarrow> 'n
    \<Rightarrow> ('id, 'x) bmap \<Rightarrow> 'n \<times> ('id, 'x) bmap" where
  "across_round2 S ask frame commitments [] net shares = (net, shares)"
| "across_round2 S ask frame commitments (addr # addrs) net shares =
    (case ask addr frame net of
       (net', reply) \<Rightarrow> across_round2 S ask frame commitments addrs net'
         (case Option.bind reply (read_ed25519_share S) of
            Some (i, share) \<Rightarrow> if bm_contains commitments i then bm_insert i share shares else shares
          | None \<Rightarrow> shares))"

definition sign_across ::
  "('id::linorder, 'x, 'r) suite \<Rightarrow> ('a, 'n) network_call \<Rightarrow> 'a list \<Rightarrow> 'x \<Rightarrow> nat \<Rightarrow> bytes \<Rightarrow> u64 \<Rightarrow> 'n
    \<Rightarrow> 'n \<times> (ceremony_error + bytes \<times> bytes)" where
  "sign_across S ask custodians public threshold message request net =
    (case across_round1 S ask (encode_treasury_round1 request message) threshold custodians net bm_empty of
       (net', commitments) \<Rightarrow>
         if length commitments < threshold then (net', Err CeremonyCrypto)
         else let package = fr_package S commitments message in
           (case encode_treasury_round2 S request package of
              Inl _ \<Rightarrow> (net', Err CeremonyCrypto)
            | Inr frame \<Rightarrow>
              (case across_round2 S ask frame commitments custodians net' bm_empty of
                 (net'', shares) \<Rightarrow>
                   if length shares < threshold then (net'', Err CeremonyCrypto)
                   else (net'', finish_signature S public (fr_aggregate S package shares public)))))"

section \<open>A vault\<close>

definition vault_ceremony ::
  "('id::linorder, 'x, 'r) suite \<Rightarrow> u16 \<Rightarrow> u16 \<Rightarrow> 'r
    \<Rightarrow> (ceremony_error + ('id, 'x threshold_keys) bmap) \<times> 'r" where
  "vault_ceremony S threshold participants rng =
    (case ceremony_new threshold participants of
       Inl e \<Rightarrow> (Err e, rng)
     | Inr c \<Rightarrow> run_for S c rng)"

text \<open>The vault's address is the group key; \<open>expect\<close> panics where it is not 32 bytes.\<close>

definition vault_address_of :: "('id, 'x, 'r) suite \<Rightarrow> 'x \<Rightarrow> bytes run" where
  "vault_address_of S public = do {
     b \<leftarrow> fr_ser_key S (fr_group_key S public);
     if is_array 32 b then Some b else None
   }"

datatype vault_error = VaultCeremony ceremony_error | VaultSigning signing_error | DoesNotVerify

text \<open>The verifier: whether a key parses, and whether it accepts a signature of a message.\<close>

record dalek =
  dk_key :: "bytes \<Rightarrow> bool"
  dk_verify_strict :: "bytes \<Rightarrow> bytes \<Rightarrow> bytes \<Rightarrow> bool"

definition vault_verify :: "dalek \<Rightarrow> bytes \<Rightarrow> bytes \<Rightarrow> bytes \<Rightarrow> vault_error + unit" where
  "vault_verify D vault message sig =
    (if \<not> dk_key D vault then Err DoesNotVerify
     else if dk_verify_strict D vault message sig then Ok () else Err DoesNotVerify)"

definition from_aggregate :: "signing_error + 'a \<Rightarrow> vault_error + 'a" where
  "from_aggregate r = (case r of Inl e \<Rightarrow> Err (VaultSigning e) | Inr x \<Rightarrow> Ok x)"

text \<open>\<open>sign_with\<close>: both rounds against a quorum, under a fresh request id. \<open>commitments[id]\<close> of a
  chosen id is there, since the chosen are its keys.\<close>

definition collect ::
  "('id::linorder, 'x) bmap \<Rightarrow> 'id list \<Rightarrow> ('id, 'x) aggregator \<Rightarrow> ('id, 'x) aggregator run" where
  "collect commitments chosen coord = fold (\<lambda>i a. do {
     coord \<leftarrow> a; c \<leftarrow> bm_get commitments i; Some (add_commitment i c coord) }) chosen (Some coord)"

definition sign_with ::
  "('id::linorder, 'x, 'r) suite \<Rightarrow> dalek
    \<Rightarrow> (u64 \<Rightarrow> bytes \<Rightarrow> u64 \<Rightarrow> 'q \<Rightarrow> 'q \<times> ('id, 'x) bmap) \<Rightarrow> (u64 \<Rightarrow> 'id list \<Rightarrow> 'x \<Rightarrow> 'q \<Rightarrow> 'q \<times> ('id, 'x) bmap)
    \<Rightarrow> u64 \<Rightarrow> u16 \<Rightarrow> 'x \<Rightarrow> bytes \<Rightarrow> u64 \<Rightarrow> 'q \<Rightarrow> 'q \<times> (vault_error + bytes) run" where
  "sign_with S D q_round1 q_round2 request threshold public message now q =
    (case q_round1 request message now q of
       (q', commitments) \<Rightarrow>
         let want = unat threshold in
         if length commitments < want then (q', Some (Err (VaultSigning BelowThreshold)))
         else let chosen = take want (bm_keys commitments) in
           (case collect commitments chosen (aggregator_new message threshold) of
              None \<Rightarrow> (q', None)
            | Some coord \<Rightarrow>
              (case aggregator_package S coord of
                 Inl e \<Rightarrow> (q', Some (Err (VaultSigning e)))
               | Inr package \<Rightarrow>
                 (case q_round2 request chosen package q' of
                    (q'', shares) \<Rightarrow>
                      if length shares < want then (q'', Some (Err (VaultSigning BelowThreshold)))
                      else (q'',
                        (case and_then (from_aggregate (aggregate S coord package shares public)) (\<lambda>sig.
                            ok_or (do { b \<leftarrow> fr_ser_signature S sig; if is_array 64 b then Some b else None })
                              DoesNotVerify) of
                           Inl e \<Rightarrow> Some (Err e)
                         | Inr b \<Rightarrow>
                           Option.bind (vault_address_of S public) (\<lambda>vault.
                             Some (and_then (vault_verify D vault message b) (\<lambda>_. Ok b)))))))))"

section \<open>A coordinator's outcomes\<close>

lemma collect_chosen:
  assumes "\<forall>i \<in> set chosen. bm_contains commitments i"
  shows "\<exists>coord. collect commitments chosen a = Some coord \<and>
    (\<forall>i \<in> set chosen \<union> set (bm_keys (ag_commitments a)). bm_contains (ag_commitments coord) i) \<and>
    ag_threshold coord = ag_threshold a"
  using assms
proof (induction chosen arbitrary: a)
  case Nil
  then show ?case by (simp add: collect_def bm_contains_iff)
next
  case (Cons i chosen)
  then obtain c where c: "bm_get commitments i = Some c" by (auto simp: bm_contains_def)
  have "collect commitments (i # chosen) a = collect commitments chosen (add_commitment i c a)"
    by (simp add: collect_def c)
  moreover have "set (bm_keys (ag_commitments (add_commitment i c a))) = insert i (set (bm_keys (ag_commitments a)))"
    by (simp add: add_commitment_def bm_keys_insert)
  moreover have "ag_threshold (add_commitment i c a) = ag_threshold a" by (simp add: add_commitment_def)
  ultimately show ?case using Cons.IH [of "add_commitment i c a"] Cons.prems by auto
qed

text \<open>What a call may report, once the vault's key serialises.\<close>

definition vault_outcome :: "dalek \<Rightarrow> bytes \<Rightarrow> bytes \<Rightarrow> vault_error + bytes \<Rightarrow> bool" where
  "vault_outcome D vault message r = (case r of
     Inr sig \<Rightarrow> length sig = 64 \<and> dk_key D vault \<and> dk_verify_strict D vault message sig
   | Inl e \<Rightarrow> e \<in> {VaultSigning BelowThreshold, VaultSigning SigningCrypto, DoesNotVerify})"

context ed_quorum begin

lemma sign_with_outcome:
  fixes S :: "('id, 'x, 'r) suite"
  assumes "vault_address_of S public = Some vault"
  shows "\<exists>q' r. sign_with S D e_round1 e_round2 request threshold public message now q = (q', Some r) \<and>
    vault_outcome D vault message r"
proof -
  obtain q1 commitments where r1: "e_round1 request message now q = (q1, commitments)" by fastforce
  let ?want = "unat threshold" and ?chosen = "take (unat threshold) (bm_keys commitments)"
  show ?thesis
  proof (cases "length commitments < ?want")
    case True
    then show ?thesis by (simp add: sign_with_def r1 vault_outcome_def)
  next
    case False
    have "\<forall>i \<in> set ?chosen. bm_contains commitments i"
      by (auto simp: bm_contains_iff dest: in_set_takeD)
    from collect_chosen [OF this, of "aggregator_new message threshold"] obtain coord where
      coord: "collect commitments ?chosen (aggregator_new message threshold) = Some coord"
      and all: "\<forall>i \<in> set ?chosen. bm_contains (ag_commitments coord) i" by auto
    show ?thesis
    proof (cases "aggregator_package S coord")
      case (Inl e)
      then have "e = BelowThreshold" by (simp add: aggregator_package_def split: if_splits)
      then show ?thesis using Inl False by (simp add: sign_with_def r1 coord vault_outcome_def)
    next
      case (Inr package)
      obtain q2 shares where r2: "e_round2 request ?chosen package q1 = (q2, shares)" by fastforce
      let ?agg = "aggregate S coord package shares public"
      have "?agg \<noteq> Err UnexpectedSigner" by (rule shares_are_expected [OF r2 all])
      then have "?agg \<in> range Ok \<union> {Err BelowThreshold, Err SigningCrypto}"
        by (auto simp: aggregate_def ok_or_def split: option.splits if_splits)
      then show ?thesis
        using False Inr assms
        by (auto simp: sign_with_def r1 coord r2 vault_outcome_def from_aggregate_def ok_or_def and_then_def
            vault_verify_def is_array_def Option.bind_eq_Some_conv split: option.splits if_splits)
    qed
  qed
qed

end

lemma mem_round3_keys:
  "mem_round3 S X ids parts relayed out = Some (Ok out') \<Longrightarrow> bm_ok out \<Longrightarrow>
    bm_ok out' \<and> set (bm_keys out') = set (bm_keys out) \<union> set ids"
proof (induction ids arbitrary: parts relayed out)
  case (Cons i ids)
  obtain parts' relayed' k where r: "mem_round3 S X ids parts' relayed' (bm_insert i k out) = Some (Ok out')"
    using Cons.prems(1) by (auto split: bind_splits prod.splits sum.splits)
  from Cons.IH [OF r] Cons.prems(2) show ?case by (auto simp: bm_keys_insert)
qed simp

lemma run_in_memory_keys:
  assumes "run_in_memory_for S X t n rng = (Some (Ok out), rng')"
  shows "\<exists>ids. participant_ids S n = Ok ids \<and> bm_ok out \<and> set (bm_keys out) = set ids"
proof -
  obtain ids parts relayed where "participant_ids S n = Ok ids"
    and "mem_round3 S X ids parts relayed bm_empty = Some (Ok out)"
    using assms by (auto simp: run_in_memory_for_def split: sum.splits prod.splits bind_splits)
  from this(1) mem_round3_keys [OF this(2)] show ?thesis by (auto simp: bm_keys_def bm_empty_def)
qed

section \<open>Properties\<close>

text \<open>C20: a vault signature that is returned is one any verifier accepts. Through the in-process
  quorum and through the networked one alike, whatever the share-holders or the network answer,
  \<open>sign_with\<close> returns, and either with 64 bytes the strict verifier accepts for the message under
  the vault's own key, or with one of three errors: too few answers, a failure inside the
  library, or a signature that did not verify. It never panics, and never reports an unexpected
  signer.\<close>

theorem vault_signs_verified_or_refuses:
  assumes "vault_address_of S public = Some vault"
  shows "(\<exists>q' r. sign_with S D (leq_round1 S) (leq_round2 S) request threshold public message now q = (q', Some r) \<and>
      vault_outcome D vault message r) \<and>
    (\<exists>net' r. sign_with S D (\<lambda>request message now. remote_ed_round1 S call custodians request message)
        (remote_ed_round2 S call custodians) request threshold public message now net = (net', Some r) \<and>
      vault_outcome D vault message r)"
  by (intro conjI leq.sign_with_outcome [OF assms] req.sign_with_outcome [OF assms])

definition vault_suite :: "(u16, bytes, nat) suite" where
  "vault_suite = demo_suite \<lparr> fr_ser_key := (\<lambda>k. Some (replicate 32 7)), fr_ser_signature := (\<lambda>_. Some (zeros 64)) \<rparr>"

definition demo_holders :: "(u16, bytes) ed_participant list" where
  "demo_holders = [ed_participant_new \<lparr> tk_key_package = [0, 1], tk_public_package = [7] \<rparr>,
    ed_participant_new \<lparr> tk_key_package = [0, 2], tk_public_package = [7] \<rparr>]"

theorem vault_signs_verified_or_refuses_witness:
  "\<exists>q'. sign_with vault_suite \<lparr> dk_key = (\<lambda>_. True), dk_verify_strict = (\<lambda>k m s. m = [65]) \<rparr>
    (leq_round1 vault_suite) (leq_round2 vault_suite) 9 2 [7] [65] 0 (demo_holders, 0) = (q', Some (Ok (zeros 64)))"
proof -
  let ?D = "\<lparr> dk_key = (\<lambda>_. True), dk_verify_strict = (\<lambda>k m s. m = [65]) \<rparr>"
  have v: "vault_address_of vault_suite [7] = Some (replicate 32 7)" by code_simp
  have c: "(case snd (sign_with vault_suite ?D (leq_round1 vault_suite) (leq_round2 vault_suite) 9 2 [7] [65] 0 (demo_holders, 0)) of
      Some (Inr b) \<Rightarrow> b = zeros 64 | _ \<Rightarrow> False)"
    by code_simp
  obtain q' r where s: "sign_with vault_suite ?D (leq_round1 vault_suite) (leq_round2 vault_suite) 9 2 [7] [65] 0 (demo_holders, 0)
      = (q', Some r)"
    using vault_signs_verified_or_refuses [where D = ?D and request = 9 and threshold = 2
        and message = "[65]" and now = 0 and q = "(demo_holders, 0)", OF v, THEN conjunct1] by blast
  with c show ?thesis by (auto split: sum.splits)
qed

text \<open>A provisioned treasury is complete. Provisioning refuses a threshold below two or above the
  number of holders; what it returns holds one share for each holder, an account that is the
  account of an ordinary Ed25519 key, and that key, 32 bytes, is the group key of the first share.\<close>

theorem provisioned_treasury_is_complete:
  assumes "provision S X sha256 threshold participants rng = (Some (Ok t), rng')"
  shows "2 \<le> threshold \<and> threshold \<le> participants \<and> length (tr_group_key t) = 32 \<and>
    tr_account t = account_of sha256 Ed25519 (tr_group_key t) \<and>
    (\<exists>ids k ks. participant_ids S participants = Ok ids \<and> length ids = unat participants \<and>
      set (bm_keys (tr_shares t)) = set ids \<and> bm_values (tr_shares t) = k # ks \<and>
      fr_ser_key S (group_key S k) = Some (tr_group_key t))"
proof -
  have bounds: "2 \<le> threshold" "threshold \<le> participants"
    using assms by (auto simp: provision_def not_less split: if_splits)
  then obtain shares where run: "run_in_memory_for S X threshold participants rng = (Some (Ok shares), rng')"
    using assms by (auto simp: provision_def and_then_ok split: prod.splits option.splits if_splits)
  from assms bounds run obtain k ks where v: "bm_values shares = k # ks" and t: "tr_shares t = shares"
    and key: "group_key_bytes S (tk_public_package k) = Ok (tr_group_key t)"
    and acc: "account_of_group S sha256 (tk_public_package k) = Ok (tr_account t)"
    by (cases "bm_values shares") (auto simp: provision_def and_then_ok split: if_splits)
  from run_in_memory_keys [OF run] obtain ids where ids: "participant_ids S participants = Ok ids"
    "set (bm_keys shares) = set ids" by blast
  have "fr_ser_key S (group_key S k) = Some (tr_group_key t)" "length (tr_group_key t) = 32"
    using key by (auto simp: group_key_bytes_def group_key_def result_simps is_array_def split: if_splits)
  moreover have "tr_account t = account_of sha256 Ed25519 (tr_group_key t)"
    using acc key by (simp add: account_of_group_def)
  ultimately show ?thesis
    using bounds ids participant_ids_length [OF ids(1)] v t by auto
qed

lemma demo_treasury:
  "case fst (provision vault_suite demo_seal (\<lambda>b. b) 2 4 0) of
     Some (Inr t) \<Rightarrow> bm_keys (tr_shares t) = [1, 2, 3, 4] | _ \<Rightarrow> False"
  by code_simp

theorem provisioned_treasury_is_complete_witness:
  "\<exists>t. fst (provision vault_suite demo_seal (\<lambda>b. b) 2 4 0) = Some (Ok t) \<and>
    length (tr_group_key t) = 32 \<and> tr_account t = account_of (\<lambda>b. b) Ed25519 (tr_group_key t)"
proof -
  obtain t rng' where t: "provision vault_suite demo_seal (\<lambda>b. b) 2 4 0 = (Some (Ok t), rng')"
    using demo_treasury by (cases "provision vault_suite demo_seal (\<lambda>b. b) 2 4 0")
      (auto split: option.splits sum.splits)
  from provisioned_treasury_is_complete [OF t] t show ?thesis by auto
qed

text \<open>A treasury does not keep the rule of a vault. \<open>Ceremony::new\<close> refuses a threshold two disjoint
  quorums can reach; provisioning accepts it, here two of four holders.\<close>

theorem treasury_accepts_disjoint_quorums:
  "(\<exists>t. fst (provision vault_suite demo_seal (\<lambda>b. b) 2 4 0) = Some (Ok t) \<and> bm_keys (tr_shares t) = [1, 2, 3, 4]) \<and>
    ceremony_new 2 4 = Err ThresholdNotAMajority"
proof
  show "\<exists>t. fst (provision vault_suite demo_seal (\<lambda>b. b) 2 4 0) = Some (Ok t) \<and> bm_keys (tr_shares t) = [1, 2, 3, 4]"
    using demo_treasury by (auto split: option.splits sum.splits)
  show "ceremony_new 2 4 = Err ThresholdNotAMajority" by code_simp
qed

end
