(* ===== verification/Shares.thy ===== *)
theory Shares
  imports Ceremony Text
begin

text \<open>
  shares.rs: shares on disk. A directory is its mode and its files in name order, a file its mode
  and its bytes; opening a file that is there keeps its mode, creating one takes the requested
  mode less the process umask. Failures of the disk itself are outside the model; a missing
  file and a serialisation that fails are its errors.
\<close>

type_synonym mode = u16

record directory =
  di_mode :: mode
  di_files :: "(bytes, mode \<times> bytes) bmap"

datatype io_error = NotFound | InvalidData

text \<open>\<open>OpenOptions\<close> with write, create and truncate, then \<open>write_all\<close>.\<close>

definition open_write :: "mode \<Rightarrow> mode \<Rightarrow> bytes \<Rightarrow> bytes \<Rightarrow> directory \<Rightarrow> directory" where
  "open_write umask requested name content d = d \<lparr> di_files := bm_insert name
     (case bm_get (di_files d) name of
        None \<Rightarrow> (requested AND NOT umask, content)
      | Some (m, _) \<Rightarrow> (m, content)) (di_files d) \<rparr>"

definition write_secret :: "mode \<Rightarrow> bytes \<Rightarrow> bytes \<Rightarrow> directory \<Rightarrow> directory" where
  "write_secret umask name content d = open_write umask 0x180 name content d"

text \<open>\<open>std::fs::write\<close> creates with mode 0666.\<close>

definition fs_write :: "mode \<Rightarrow> bytes \<Rightarrow> bytes \<Rightarrow> directory \<Rightarrow> directory" where
  "fs_write umask name content d = open_write umask 0x1B6 name content d"

definition fs_read :: "bytes \<Rightarrow> directory \<Rightarrow> io_error + bytes" where
  "fs_read name d = (case bm_get (di_files d) name of None \<Rightarrow> Err NotFound | Some (_, content) \<Rightarrow> Ok content)"

definition share_name :: "('id, 'x, 'r) suite \<Rightarrow> 'id \<Rightarrow> bytes" where
  "share_name S pid = ascii ''share-'' @ hex_string (fr_id_ser S pid) @ ascii ''.bin''"

definition public_name :: bytes where
  "public_name = ascii ''public.bin''"

fun save_shares ::
  "('id, 'x, 'r) suite \<Rightarrow> mode \<Rightarrow> ('id \<times> 'x threshold_keys) list \<Rightarrow> directory \<Rightarrow> directory \<times> (io_error + unit)" where
  "save_shares S umask [] d = (d, Ok ())"
| "save_shares S umask ((pid, k) # keys) d =
    (case fr_ser_key_package S (tk_key_package k) of
       None \<Rightarrow> (d, Err InvalidData)
     | Some b \<Rightarrow> save_shares S umask keys (write_secret umask (share_name S pid) b d))"

definition save ::
  "('id, 'x, 'r) suite \<Rightarrow> mode \<Rightarrow> ('id \<times> 'x threshold_keys) list \<Rightarrow> directory option
    \<Rightarrow> directory \<times> (io_error + unit)" where
  "save S umask keys dir =
    (let created = (case dir of None \<Rightarrow> \<lparr> di_mode = 0x1FF AND NOT umask, di_files = bm_empty \<rparr> | Some d \<Rightarrow> d);
         d = created \<lparr> di_mode := 0x1C0 \<rparr>
     in case save_shares S umask keys d of
          (d', Inl e) \<Rightarrow> (d', Err e)
        | (d', Inr _) \<Rightarrow>
            (case keys of
               [] \<Rightarrow> (d', Ok ())
             | (_, k) # _ \<Rightarrow>
                 (case fr_ser_public S (tk_public_package k) of
                    None \<Rightarrow> (d', Err InvalidData)
                  | Some b \<Rightarrow> (fs_write umask public_name b d', Ok ()))))"

definition load_public :: "('id, 'x, 'r) suite \<Rightarrow> directory \<Rightarrow> io_error + 'x" where
  "load_public S d = and_then (fs_read public_name d) (\<lambda>b. ok_or (fr_de_public S b) InvalidData)"

definition is_share_name :: "bytes \<Rightarrow> bool" where
  "is_share_name name \<longleftrightarrow> take 6 name = ascii ''share-''"

text \<open>The names come sorted; the files of a directory are already in that order.\<close>

fun load_shares ::
  "('id, 'x, 'r) suite \<Rightarrow> 'x \<Rightarrow> (bytes \<times> mode \<times> bytes) list \<Rightarrow> io_error + ('id \<times> 'x threshold_keys) list" where
  "load_shares S public [] = Ok []"
| "load_shares S public ((name, _, raw) # files) =
    (if \<not> is_share_name name then load_shares S public files
     else and_then (ok_or (fr_de_key_package S raw) InvalidData) (\<lambda>kp.
          and_then (load_shares S public files) (\<lambda>rest.
            Ok ((fr_key_id S kp, \<lparr> tk_key_package = kp, tk_public_package = public \<rparr>) # rest))))"

definition load_dir :: "('id, 'x, 'r) suite \<Rightarrow> directory \<Rightarrow> io_error + ('id \<times> 'x threshold_keys) list" where
  "load_dir S d = and_then (load_public S d) (\<lambda>public. load_shares S public (di_files d))"

section \<open>Lemmas\<close>

lemma is_share_name_share [simp]: "is_share_name (share_name S pid)"
  by (simp add: is_share_name_def share_name_def ascii_def)

lemma not_share_public [simp]: "\<not> is_share_name public_name"
  by (simp add: is_share_name_def public_name_def ascii_def)

text \<open>A file's mode after any write: what it had, or what was asked for.\<close>

definition mode_of :: "bytes \<Rightarrow> directory \<Rightarrow> mode option" where
  "mode_of name d = map_option fst (bm_get (di_files d) name)"

lemma mode_of_open_write:
  "mode_of n (open_write umask requested name content d)
    = (if n = name then Some (case mode_of name d of None \<Rightarrow> requested AND NOT umask | Some m \<Rightarrow> m) else mode_of n d)"
  by (auto simp: mode_of_def open_write_def split: option.splits)

lemma open_write_files: "\<exists>m. di_files (open_write umask requested n c d) = bm_insert n (m, c) (di_files d)"
  by (cases "bm_get (di_files d) n") (auto simp: open_write_def)

lemma and_and_not: "((a :: mode) AND b) AND NOT a = 0"
  by (rule bit_word_eqI) (auto simp: bit_and_iff bit_not_iff)

lemma save_shares_modes:
  "save_shares S umask keys d = (d', r) \<Longrightarrow> di_mode d' = di_mode d \<and>
    (\<forall>n. mode_of n d' = mode_of n d \<or> mode_of n d = None \<and> mode_of n d' = Some (0x180 AND NOT umask))"
proof (induction keys arbitrary: d)
  case (Cons e keys)
  obtain pid k where e: "e = (pid, k)" by (cases e)
  show ?case
  proof (cases "fr_ser_key_package S (tk_key_package k)")
    case None
    with Cons.prems show ?thesis by (simp add: e)
  next
    case (Some b)
    let ?d = "write_secret umask (share_name S pid) b d"
    have "di_mode ?d = di_mode d" by (simp add: write_secret_def open_write_def)
    moreover have "mode_of n ?d = mode_of n d \<or> mode_of n d = None \<and> mode_of n ?d = Some (0x180 AND NOT umask)" for n
      by (auto simp: write_secret_def mode_of_open_write split: option.splits)
    ultimately show ?thesis using Cons.IH [of ?d] Cons.prems by (auto simp: e Some) (metis option.distinct(1))+
  qed
qed simp

text \<open>The files of a save into a fresh directory.\<close>

definition shares_wire :: "('id, 'x, 'r) suite \<Rightarrow> ('id \<times> 'x threshold_keys) list \<Rightarrow> bool" where
  "shares_wire S keys \<longleftrightarrow> (\<forall>(pid, k) \<in> set keys.
     fr_key_id S (tk_key_package k) = pid \<and>
     (\<exists>b. fr_ser_key_package S (tk_key_package k) = Some b \<and> fr_de_key_package S b = Some (tk_key_package k)) \<and>
     (\<exists>b. fr_ser_public S (tk_public_package k) = Some b \<and> fr_de_public S b = Some (tk_public_package k)))"

definition share_file ::
  "('id, 'x, 'r) suite \<Rightarrow> mode \<Rightarrow> 'id \<times> 'x threshold_keys \<Rightarrow> mode \<times> bytes" where
  "share_file S umask e = (0x180 AND NOT umask, the (fr_ser_key_package S (tk_key_package (snd e))))"

lemma save_shares_fresh:
  assumes "shares_wire S keys" and "distinct (map (\<lambda>e. share_name S (fst e)) keys)"
    and "\<forall>e \<in> set keys. bm_get (di_files d) (share_name S (fst e)) = None"
  shows "save_shares S umask keys d = (d \<lparr> di_files :=
    fold (\<lambda>e m. bm_insert (fst e) (snd e) m)
      (map (\<lambda>e. (share_name S (fst e), share_file S umask e)) keys) (di_files d) \<rparr>, Ok ())"
  using assms
proof (induction keys arbitrary: d)
  case (Cons e keys)
  obtain b where b: "fr_ser_key_package S (tk_key_package (snd e)) = Some b"
    using Cons.prems(1) by (auto simp: shares_wire_def)
  let ?d = "write_secret umask (share_name S (fst e)) b d"
  have files: "di_files ?d = bm_insert (share_name S (fst e)) (share_file S umask e) (di_files d)"
    using Cons.prems(3) by (simp add: write_secret_def open_write_def share_file_def b)
  have "?d = d \<lparr> di_files := di_files ?d \<rparr>" by (simp add: write_secret_def open_write_def)
  moreover have "bm_get (di_files ?d) (share_name S (fst x)) = None" if "x \<in> set keys" for x
  proof -
    have "share_name S (fst e) \<notin> (\<lambda>e. share_name S (fst e)) ` set keys" using Cons.prems(2) by simp
    then have "share_name S (fst x) \<noteq> share_name S (fst e)" using that by (metis image_eqI)
    then show ?thesis using Cons.prems(3) that by (simp add: files)
  qed
  moreover have "shares_wire S keys" using Cons.prems(1) by (simp add: shares_wire_def)
  moreover have "distinct (map (\<lambda>e. share_name S (fst e)) keys)" using Cons.prems(2) by simp
  ultimately have "save_shares S umask keys ?d = (d \<lparr> di_files :=
      fold (\<lambda>e m. bm_insert (fst e) (snd e) m)
        (map (\<lambda>e. (share_name S (fst e), share_file S umask e)) keys) (di_files ?d) \<rparr>, Ok ())"
    using Cons.IH [of ?d] by (metis (no_types, lifting) directory.surjective directory.update_convs(2))
  then show ?case using b files by (cases e) simp
qed simp

lemma load_shares_skip:
  "\<not> is_share_name n \<Longrightarrow> load_shares S public (bm_insert n v m) = load_shares S public m"
proof (induction m)
  case Nil
  then show ?case by (cases v) simp
next
  case (Cons e m)
  obtain n' a b where "e = (n', a, b)" by (cases e)
  with Cons show ?case by (cases v) auto
qed

lemma load_shares_saved:
  "shares_wire S keys \<Longrightarrow>
    load_shares S public (map (\<lambda>e. (share_name S (fst e), share_file S umask e)) keys)
      = Ok (map (\<lambda>e. (fst e, \<lparr> tk_key_package = tk_key_package (snd e), tk_public_package = public \<rparr>)) keys)"
proof (induction keys)
  case (Cons e keys)
  then have "shares_wire S keys" by (simp add: shares_wire_def)
  moreover obtain b where "fr_ser_key_package S (tk_key_package (snd e)) = Some b"
    "fr_de_key_package S b = Some (tk_key_package (snd e))" "fr_key_id S (tk_key_package (snd e)) = fst e"
    using Cons.prems by (auto simp: shares_wire_def)
  ultimately show ?case using Cons.IH by (simp add: share_file_def)
qed simp

lemma shares_wire_sort: "shares_wire S keys \<Longrightarrow> shares_wire S (sort_key f keys)"
  by (simp add: shares_wire_def)

section \<open>Properties\<close>

text \<open>What is saved is what is loaded. Saving a ceremony's shares into a new directory and
  loading it gives back every share under its participant's identifier, with the ceremony's
  public package, in the order of the file names, and the public package alone loads too.\<close>

theorem shares_round_trip:
  assumes "shares_wire S keys" and "distinct (map (\<lambda>e. share_name S (fst e)) keys)"
    and "keys = (pid, k) # rest" and "\<forall>e \<in> set keys. tk_public_package (snd e) = tk_public_package k"
  shows "case save S umask keys None of
    (d, r) \<Rightarrow> r = Ok () \<and> load_public S d = Ok (tk_public_package k) \<and>
      load_dir S d = Ok (sort_key (\<lambda>e. share_name S (fst e)) keys)"
proof -
  let ?name = "\<lambda>e. share_name S (fst e)"
  obtain b where b: "fr_ser_public S (tk_public_package k) = Some b" "fr_de_public S b = Some (tk_public_package k)"
    using assms(1,3) by (auto simp: shares_wire_def)
  let ?files = "map (\<lambda>e. (?name e, share_file S umask e)) (sort_key ?name keys)"
  let ?d = "\<lparr> di_mode = 0x1C0, di_files = ?files \<rparr>"
  have "save_shares S umask keys \<lparr> di_mode = 0x1C0, di_files = bm_empty \<rparr> = (?d, Ok ())"
    using save_shares_fresh [OF assms(1,2), of "\<lparr> di_mode = 0x1C0, di_files = bm_empty \<rparr>" umask]
      bm_of_map [OF assms(2), of "share_file S umask"]
    by (simp add: bm_of_def)
  then have save: "save S umask keys None = (fs_write umask public_name b ?d, Ok ())"
    using b by (simp add: save_def assms(3))
  obtain m where files: "di_files (fs_write umask public_name b ?d) = bm_insert public_name (m, b) ?files"
    using open_write_files [of umask "0x1B6" public_name b ?d] by (auto simp: fs_write_def)
  have public: "load_public S (fs_write umask public_name b ?d) = Ok (tk_public_package k)"
    by (simp add: load_public_def fs_read_def files b)
  have "load_shares S (tk_public_package k) ?files
      = Ok (map (\<lambda>e. (fst e, \<lparr> tk_key_package = tk_key_package (snd e), tk_public_package = tk_public_package k \<rparr>))
          (sort_key ?name keys))"
    by (rule load_shares_saved [OF shares_wire_sort [OF assms(1)]])
  also have "map (\<lambda>e. (fst e, \<lparr> tk_key_package = tk_key_package (snd e), tk_public_package = tk_public_package k \<rparr>))
      (sort_key ?name keys) = map (\<lambda>e. e) (sort_key ?name keys)"
  proof (rule map_cong [OF refl])
    fix e
    assume "e \<in> set (sort_key ?name keys)"
    then have "tk_public_package (snd e) = tk_public_package k" using assms(4) by simp
    then show "(fst e, \<lparr> tk_key_package = tk_key_package (snd e), tk_public_package = tk_public_package k \<rparr>) = e"
      by (cases e) (simp add: threshold_keys.surjective)
  qed
  finally have "load_shares S (tk_public_package k) ?files = Ok (sort_key ?name keys)" by simp
  then have "load_dir S (fs_write umask public_name b ?d) = Ok (sort_key ?name keys)"
    by (simp add: load_dir_def public files load_shares_skip)
  with save public show ?thesis by simp
qed

definition demo_shares :: "(u16 \<times> bytes threshold_keys) list" where
  "demo_shares = [(2, \<lparr> tk_key_package = [0, 2], tk_public_package = [7] \<rparr>),
    (1, \<lparr> tk_key_package = [0, 1], tk_public_package = [7] \<rparr>)]"

theorem shares_round_trip_witness:
  "load_dir demo_suite (fst (save demo_suite 0x12 demo_shares None)) = Ok (rev demo_shares)"
proof -
  have "shares_wire demo_suite demo_shares"
    by (simp add: shares_wire_def demo_shares_def demo_suite_def be_val_def)
  moreover have "distinct (map (\<lambda>e. share_name demo_suite (fst e)) demo_shares)" by code_simp
  ultimately have "case save demo_suite 0x12 demo_shares None of
    (d, r) \<Rightarrow> r = Ok () \<and> load_public demo_suite d = Ok (tk_public_package (snd (hd demo_shares))) \<and>
      load_dir demo_suite d = Ok (sort_key (\<lambda>e. share_name demo_suite (fst e)) demo_shares)"
    by (rule shares_round_trip [where pid = 2 and rest = "tl demo_shares"]) (simp_all add: demo_shares_def)
  moreover have "sort_key (\<lambda>e. share_name demo_suite (fst e)) demo_shares = rev demo_shares" by code_simp
  ultimately show ?thesis by (auto split: prod.splits)
qed

text \<open>No share file is created for anyone but its owner. After a save, whatever its result, the
  directory is accessible to its owner alone, and a file that was not there before and is a
  share file has no permission bit outside the owner's read and write.\<close>

theorem new_shares_are_owner_only:
  assumes "mode_of name (fst (save S umask keys dir)) = Some m" and "is_share_name name"
    and "dir = None \<or> mode_of name (the dir) = None"
  shows "di_mode (fst (save S umask keys dir)) = 0x1C0 \<and> m AND NOT 0x180 = 0"
proof -
  define d where "d = (case dir of None \<Rightarrow> \<lparr> di_mode = 0x1FF AND NOT umask, di_files = bm_empty \<rparr> | Some d \<Rightarrow> d) \<lparr> di_mode := 0x1C0 \<rparr>"
  have absent: "mode_of name d = None" using assms(3) by (auto simp: d_def mode_of_def split: option.splits)
  obtain d' r where s: "save_shares S umask keys d = (d', r)" by fastforce
  note modes = save_shares_modes [OF s]
  have "save S umask keys dir = (d', Err InvalidData) \<or> save S umask keys dir = (d', Ok ()) \<or>
      (\<exists>b. save S umask keys dir = (fs_write umask public_name b d', Ok ())) \<or> (\<exists>e. save S umask keys dir = (d', Err e))"
    using s by (auto simp: save_def d_def [symmetric] split: sum.splits list.splits option.splits)
  moreover have "mode_of name (fs_write umask public_name b d') = mode_of name d'"
    "di_mode (fs_write umask public_name b d') = di_mode d'" for b
    using assms(2) by (auto simp: fs_write_def mode_of_open_write) (simp add: open_write_def)
  ultimately have "mode_of name (fst (save S umask keys dir)) = mode_of name d'"
    "di_mode (fst (save S umask keys dir)) = di_mode d'" by auto
  moreover have "di_mode d' = 0x1C0" using modes by (simp add: d_def)
  moreover have "m = 0x180 AND NOT umask"
    using modes absent assms(1) calculation(1) by (metis option.distinct(1) option.inject)
  moreover have "(0x180 AND NOT umask) AND NOT 0x180 = (0 :: mode)"
    by (rule and_and_not)
  ultimately show ?thesis by (simp only: simp_thms)
qed

theorem new_shares_are_owner_only_witness:
  "di_mode (fst (save demo_suite 0 demo_shares None)) = 0x1C0 \<and>
    mode_of (share_name demo_suite 1) (fst (save demo_suite 0 demo_shares None)) = Some 0x180 \<and>
    (0x180 :: mode) AND NOT 0x180 = 0"
proof -
  have m: "mode_of (share_name demo_suite 1) (fst (save demo_suite 0 demo_shares None)) = Some 0x180"
    by code_simp
  from new_shares_are_owner_only [OF m] m show ?thesis by simp
qed

text \<open>A share file that is already there keeps its old mode. The comment on \<open>write_secret\<close> says
  that the mode is set before the bytes are written; it is set only when the file is created, so
  a share written over a file readable by everyone stays readable by everyone.\<close>

theorem overwritten_share_keeps_its_mode:
  "mode_of name (write_secret umask name content \<lparr> di_mode = 0x1C0, di_files = [(name, (m, old))] \<rparr>) = Some m \<and>
    fs_read name (write_secret umask name content \<lparr> di_mode = 0x1C0, di_files = [(name, (m, old))] \<rparr>) = Ok content"
  by (simp add: write_secret_def mode_of_open_write mode_of_def fs_read_def bm_get_Cons)
    (simp add: open_write_def bm_get_Cons)

end
