(* ===== verification/Notes.thy ===== *)
theory Notes
  imports Ordered_Map "HOL-Library.Multiset"
begin

text \<open>
  notes.rs: the vault's spendable notes and the commitment tree that proves them. The crates
  \<open>orchard\<close> and \<open>bridgetree\<close> are the record \<open>note_lib\<close>: a note is an opaque \<open>'n\<close> with a value and
  a nullifier (under the vault's viewing key), a witnessing tree an opaque \<open>'t\<close>. Hashes,
  commitments and nullifiers are their bytes.
\<close>

record ('n, 't) note_lib =
  nl_value :: "'n \<Rightarrow> u64"
  nl_nullifier :: "'n \<Rightarrow> bytes"
  tree_new :: "nat \<Rightarrow> 't"
  tree_append :: "bytes \<Rightarrow> 't \<Rightarrow> 't option"
  tree_mark :: "'t \<Rightarrow> 't \<times> u64 option"
  tree_checkpoint :: "u32 \<Rightarrow> 't \<Rightarrow> 't"
  tree_rewind :: "'t \<Rightarrow> 't option"
  tree_position :: "'t \<Rightarrow> u64 option"
  tree_root :: "'t \<Rightarrow> bytes option"
  tree_witness :: "u64 \<Rightarrow> 't \<Rightarrow> bytes list option"
  tree_read_frontier :: "nat \<Rightarrow> bytes \<Rightarrow> (u64 \<times> 't) option option"

text \<open>\<open>tree_append\<close> and \<open>tree_rewind\<close> are \<open>None\<close> where the calls return false and leave the tree as it
  is; \<open>tree_read_frontier\<close> is \<open>None\<close> for bytes that do not parse, \<open>Some None\<close> for an empty frontier,
  else the frontier's position and the tree seeded with it.\<close>

definition CHECKPOINT_DEPTH :: nat where "CHECKPOINT_DEPTH = 100"
definition DEPTH :: nat where "DEPTH = 32"

record 'n held_note =
  hn_note :: 'n
  hn_position :: u64
  hn_height :: u64
  hn_txid :: bytes

definition held_value :: "('n, 't) note_lib \<Rightarrow> 'n held_note \<Rightarrow> u64" where
  "held_value L h = nl_value L (hn_note h)"

datatype note_error = NoWitness | NoAnchor | Insufficient (insufficient_held: u64) (insufficient_needed: u64) | BadFrontier

record ('n, 't) note_store =
  ns_tree :: 't
  ns_held :: "(u64, 'n held_note) bmap"
  ns_in_flight :: "(u64, 'n held_note) bmap"
  ns_spent :: "bytes list"
  ns_appended :: u64
  ns_synced_to :: "u64 option"

section \<open>The store\<close>

definition store_new :: "('n, 't) note_lib \<Rightarrow> ('n, 't) note_store" where
  "store_new L = \<lparr> ns_tree = tree_new L CHECKPOINT_DEPTH, ns_held = bm_empty, ns_in_flight = bm_empty,
     ns_spent = [], ns_appended = 0, ns_synced_to = None \<rparr>"

definition store_empty_at :: "('n, 't) note_lib \<Rightarrow> u64 \<Rightarrow> ('n, 't) note_store" where
  "store_empty_at L height = (store_new L) \<lparr> ns_synced_to := Some height \<rparr>"

definition from_frontier :: "('n, 't) note_lib \<Rightarrow> bytes \<Rightarrow> u64 \<Rightarrow> note_error + ('n, 't) note_store" where
  "from_frontier L final_state height =
    and_then (ok_or (tree_read_frontier L CHECKPOINT_DEPTH final_state) BadFrontier) (\<lambda>frontier.
      let appended = (case frontier of Some (position, _) \<Rightarrow> position + 1 | None \<Rightarrow> 0);
          tree = (case frontier of Some (_, t) \<Rightarrow> t | None \<Rightarrow> tree_new L CHECKPOINT_DEPTH)
      in Ok \<lparr> ns_tree = tree, ns_held = bm_empty, ns_in_flight = bm_empty, ns_spent = [],
           ns_appended = appended, ns_synced_to = Some height \<rparr>)"

definition root_bytes :: "('n, 't) note_lib \<Rightarrow> ('n, 't) note_store \<Rightarrow> bytes option" where
  "root_bytes L s = tree_root L (ns_tree s)"

definition finish_block :: "u64 \<Rightarrow> ('n, 't) note_store \<Rightarrow> ('n, 't) note_store" where
  "finish_block height s = s \<lparr> ns_synced_to := Some height \<rparr>"

definition store_append ::
  "('n, 't) note_lib \<Rightarrow> bytes \<Rightarrow> bool \<Rightarrow> ('n, 't) note_store \<Rightarrow> ('n, 't) note_store \<times> u64 option" where
  "store_append L cmx ours s =
    (case tree_append L cmx (ns_tree s) of
       None \<Rightarrow> (s, None)
     | Some t \<Rightarrow>
       let s' = s \<lparr> ns_tree := t, ns_appended := ns_appended s + 1 \<rparr>
       in if ours then (case tree_mark L t of (t', position) \<Rightarrow> (s' \<lparr> ns_tree := t' \<rparr>, position))
          else (s', None))"

definition hold :: "'n \<Rightarrow> u64 \<Rightarrow> u64 \<Rightarrow> bytes \<Rightarrow> ('n, 't) note_store \<Rightarrow> ('n, 't) note_store" where
  "hold note position height txid s = s \<lparr> ns_held := bm_insert position
     \<lparr> hn_note = note, hn_position = position, hn_height = height, hn_txid = txid \<rparr> (ns_held s) \<rparr>"

definition begin_block :: "('n, 't) note_lib \<Rightarrow> u64 \<Rightarrow> ('n, 't) note_store \<Rightarrow> ('n, 't) note_store" where
  "begin_block L height s = s \<lparr> ns_tree := tree_checkpoint L (ucast height) (ns_tree s) \<rparr>"

definition rewind :: "('n, 't) note_lib \<Rightarrow> ('n, 't) note_store \<Rightarrow> ('n, 't) note_store \<times> bool" where
  "rewind L s =
    (case tree_rewind L (ns_tree s) of
       None \<Rightarrow> (s, False)
     | Some t \<Rightarrow>
       let live = tree_position L t
       in (s \<lparr> ns_tree := t,
               ns_held := (case live of None \<Rightarrow> bm_empty | Some mx \<Rightarrow> bm_retain (\<lambda>p _. p \<le> mx) (ns_held s)),
               ns_appended := (case live of Some m \<Rightarrow> m + 1 | None \<Rightarrow> 0) \<rparr>, True))"

definition store_anchor :: "('n, 't) note_lib \<Rightarrow> ('n, 't) note_store \<Rightarrow> note_error + bytes" where
  "store_anchor L s = ok_or (tree_root L (ns_tree s)) NoAnchor"

definition store_witness ::
  "('n, 't) note_lib \<Rightarrow> u64 \<Rightarrow> ('n, 't) note_store \<Rightarrow> note_error + u32 \<times> bytes list" where
  "store_witness L position s =
    and_then (ok_or (tree_witness L position (ns_tree s)) NoWitness) (\<lambda>path.
      if length path = DEPTH then Ok (ucast position, path) else Err NoWitness)"

definition balance :: "('n, 't) note_lib \<Rightarrow> ('n, 't) note_store \<Rightarrow> u64" where
  "balance L s = sum_words (map (held_value L) (bm_values (ns_held s)))"

definition in_flight_balance :: "('n, 't) note_lib \<Rightarrow> ('n, 't) note_store \<Rightarrow> u64" where
  "in_flight_balance L s = sum_words (map (held_value L) (bm_values (ns_in_flight s)))"

text \<open>\<open>select\<close>: by value, the largest first, ties by position.\<close>

definition candidates :: "('n, 't) note_lib \<Rightarrow> ('n, 't) note_store \<Rightarrow> 'n held_note list" where
  "candidates L s = sort_key (\<lambda>h. (- int (unat (held_value L h)), hn_position h)) (bm_values (ns_held s))"

fun pick ::
  "('n, 't) note_lib \<Rightarrow> u64 \<Rightarrow> 'n held_note list \<Rightarrow> u64 \<Rightarrow> 'n held_note list \<Rightarrow> 'n held_note list \<times> u64" where
  "pick L amount [] acc chosen = (chosen, acc)"
| "pick L amount (n # ns) acc chosen =
    (if amount \<le> acc then (chosen, acc)
     else pick L amount ns (saturating_add acc (held_value L n)) (chosen @ [n]))"

definition select :: "('n, 't) note_lib \<Rightarrow> u64 \<Rightarrow> ('n, 't) note_store \<Rightarrow> note_error + 'n held_note list" where
  "select L amount s =
    (case pick L amount (candidates L s) 0 [] of
       (chosen, acc) \<Rightarrow> if acc < amount then Err (Insufficient acc amount) else Ok chosen)"

definition with_nullifier :: "('n, 't) note_lib \<Rightarrow> bytes \<Rightarrow> (u64, 'n held_note) bmap \<Rightarrow> 'n held_note option" where
  "with_nullifier L nf m = List.find (\<lambda>h. nl_nullifier L (hn_note h) = nf) (bm_values m)"

definition spend_nullifier ::
  "('n, 't) note_lib \<Rightarrow> bytes \<Rightarrow> ('n, 't) note_store \<Rightarrow> ('n, 't) note_store \<times> 'n held_note option" where
  "spend_nullifier L nf s =
    (case with_nullifier L nf (ns_in_flight s) of
       Some h \<Rightarrow>
         (let gone = bm_get (ns_in_flight s) (hn_position h);
              s' = s \<lparr> ns_in_flight := bm_remove (hn_position h) (ns_in_flight s) \<rparr>
          in (if gone \<noteq> None then s' \<lparr> ns_spent := bs_insert nf (ns_spent s) \<rparr> else s', gone))
     | None \<Rightarrow>
         (case with_nullifier L nf (ns_held s) of
            None \<Rightarrow> (s, None)
          | Some h \<Rightarrow>
            (let gone = bm_get (ns_held s) (hn_position h);
                 s' = s \<lparr> ns_held := bm_remove (hn_position h) (ns_held s) \<rparr>
             in (if gone \<noteq> None then s' \<lparr> ns_spent := bs_insert nf (ns_spent s) \<rparr> else s', gone))))"

definition holds_nullifier :: "('n, 't) note_lib \<Rightarrow> bytes \<Rightarrow> ('n, 't) note_store \<Rightarrow> bool" where
  "holds_nullifier L nf s \<longleftrightarrow> nf \<in> set (ns_spent s) \<or>
    list_ex (\<lambda>h. nl_nullifier L (hn_note h) = nf) (bm_values (ns_held s) @ bm_values (ns_in_flight s))"

definition spend :: "u64 \<Rightarrow> ('n, 't) note_store \<Rightarrow> ('n, 't) note_store \<times> 'n held_note option" where
  "spend position s =
    (case bm_get (ns_held s) position of
       None \<Rightarrow> (s, None)
     | Some h \<Rightarrow>
       (s \<lparr> ns_held := bm_remove position (ns_held s), ns_in_flight := bm_insert position h (ns_in_flight s) \<rparr>,
        Some h))"

section \<open>Choosing notes\<close>

definition note_values :: "('n, 't) note_lib \<Rightarrow> 'n held_note list \<Rightarrow> nat" where
  "note_values L ns = sum_list (map (\<lambda>h. unat (held_value L h)) ns)"

lemma note_values_simps [simp]:
  "note_values L [] = 0" "note_values L (n # ns) = unat (held_value L n) + note_values L ns"
  "note_values L (ms @ ns) = note_values L ms + note_values L ns"
  by (simp_all add: note_values_def)

definition cap :: "nat \<Rightarrow> nat" where
  "cap n = min n (2 ^ 64 - 1)"

text \<open>The picking loop takes a prefix: the shortest one that covers the amount, or everything.\<close>

lemma pick_prefix:
  assumes "unat acc = cap (note_values L chosen)"
  shows "\<exists>k. fst (pick L amount ns acc chosen) = chosen @ take k ns \<and>
    unat (snd (pick L amount ns acc chosen)) = cap (note_values L (chosen @ take k ns)) \<and>
    (\<forall>j < k. note_values L (chosen @ take j ns) < unat amount) \<and> k \<le> length ns \<and>
    (k < length ns \<longrightarrow> unat amount \<le> note_values L (chosen @ take k ns))"
  using assms
proof (induction ns arbitrary: acc chosen)
  case Nil
  then show ?case by simp
next
  case (Cons n ns)
  have am: "unat amount < 2 ^ 64" using unat_less_64 [of amount] by simp
  show ?case
  proof (cases "amount \<le> acc")
    case True
    then have "unat amount \<le> note_values L chosen"
      using Cons.prems by (simp add: word_le_nat_alt cap_def)
    then show ?thesis using True Cons.prems by (intro exI [of _ 0]) simp
  next
    case False
    have "unat (saturating_add acc (held_value L n)) = cap (note_values L (chosen @ [n]))"
      using Cons.prems by (auto simp: unat_saturating_add cap_def)
    from Cons.IH [OF this] obtain k where k:
      "fst (pick L amount ns (saturating_add acc (held_value L n)) (chosen @ [n])) = (chosen @ [n]) @ take k ns"
      "unat (snd (pick L amount ns (saturating_add acc (held_value L n)) (chosen @ [n])))
        = cap (note_values L ((chosen @ [n]) @ take k ns))"
      "\<forall>j < k. note_values L ((chosen @ [n]) @ take j ns) < unat amount" "k \<le> length ns"
      "k < length ns \<longrightarrow> unat amount \<le> note_values L ((chosen @ [n]) @ take k ns)"
      by blast
    have "note_values L chosen < unat amount"
      using False Cons.prems am by (auto simp: word_le_nat_alt cap_def)
    then have "\<forall>j < Suc k. note_values L (chosen @ take j (n # ns)) < unat amount"
      using k(3) by (auto simp: less_Suc_eq_0_disj)
    then show ?thesis using k False by (intro exI [of _ "Suc k"]) simp
  qed
qed

text \<open>Among descending values, no \<open>j\<close> elements are worth more than the first \<open>j\<close>.\<close>

lemma subset_remove1:
  assumes "mset ys \<subseteq># mset (x # xs)"
  shows "mset (remove1 x ys) \<subseteq># mset xs"
proof (rule mset_subset_eqI)
  fix a
  show "count (mset (remove1 x ys)) a \<le> count (mset xs) a"
    using mset_subset_eq_count [OF assms, of a] by (cases "a = x") auto
qed

lemma subset_without:
  assumes "mset ys \<subseteq># mset (x # xs)" and "x \<notin> set ys"
  shows "mset ys \<subseteq># mset xs"
  using subset_remove1 [OF assms(1)] assms(2) by (simp add: remove1_idem)

lemma top_values:
  "sorted_wrt (\<lambda>a b. unat (held_value L b) \<le> unat (held_value L a)) xs \<Longrightarrow> mset ys \<subseteq># mset xs \<Longrightarrow>
    note_values L ys \<le> note_values L (take (length ys) xs)"
proof (induction xs arbitrary: ys)
  case (Cons x xs)
  show ?case
  proof (cases "ys = []")
    case False
    define y where "y = (if x \<in> set ys then x else hd ys)"
    have y: "y \<in> set ys" using False by (simp add: y_def)
    have sub: "mset (remove1 y ys) \<subseteq># mset xs"
    proof (cases "x \<in> set ys")
      case True
      then show ?thesis using subset_remove1 [OF Cons.prems(2)] by (simp add: y_def)
    next
      case notin: False
      then have "mset ys \<subseteq># mset xs" by (rule subset_without [OF Cons.prems(2)])
      then show ?thesis by (metis diff_subset_eq_self mset_remove1 subset_mset.order_trans)
    qed
    have "unat (held_value L y) \<le> unat (held_value L x)"
      using y Cons.prems mset_subset_eqD [OF Cons.prems(2), of y] by auto
    moreover have "note_values L (remove1 y ys) \<le> note_values L (take (length ys - 1) xs)"
      using Cons.IH [OF _ sub] Cons.prems(1) y by (simp add: length_remove1)
    moreover have "note_values L ys = unat (held_value L y) + note_values L (remove1 y ys)"
      using y by (simp add: note_values_def sum_list_map_remove1)
    moreover have "take (length ys) (x # xs) = x # take (length ys - 1) xs"
      using False by (cases ys) auto
    ultimately show ?thesis by simp
  qed simp
qed simp

lemma candidates_descend:
  "sorted_wrt (\<lambda>a b. unat (held_value L b) \<le> unat (held_value L a)) (candidates L s)"
proof -
  let ?key = "\<lambda>h. (- int (unat (held_value L h)), hn_position h)"
  have "sorted (map ?key (candidates L s))" by (simp add: candidates_def)
  then have "sorted_wrt (\<lambda>a b. ?key a \<le> ?key b) (candidates L s)" by (simp add: sorted_wrt_map)
  then show ?thesis by (rule sorted_wrt_mono_rel [rotated]) (auto simp: less_eq_prod_def simp flip: word_le_def word_less_def word_le_nat_alt)
qed

lemma mset_candidates [simp]: "mset (candidates L s) = mset (bm_values (ns_held s))"
  by (simp add: candidates_def)

lemma note_values_mset: "mset xs = mset ys \<Longrightarrow> note_values L xs = note_values L ys"
  unfolding note_values_def by (metis mset_map sum_mset_sum_list)

section \<open>The ledger of a store\<close>

text \<open>The operations that move notes, with what each brings in and lets out.\<close>

datatype 'n store_op =
  Hold 'n u64 u64 bytes | Spend u64 | SpendNullifier bytes | Append bytes bool | BeginBlock u64 | FinishBlock u64

fun store_step ::
  "('n, 't) note_lib \<Rightarrow> 'n store_op \<Rightarrow> ('n, 't) note_store \<Rightarrow> ('n, 't) note_store \<times> 'n held_note list" where
  "store_step L (Hold n p h txid) s = (hold n p h txid s, [])"
| "store_step L (Spend p) s = (fst (spend p s), [])"
| "store_step L (SpendNullifier nf) s = (case spend_nullifier L nf s of
     (s', None) \<Rightarrow> (s', []) | (s', Some h) \<Rightarrow> (s', [h]))"
| "store_step L (Append cmx ours) s = (fst (store_append L cmx ours s), [])"
| "store_step L (BeginBlock h) s = (begin_block L h s, [])"
| "store_step L (FinishBlock h) s = (finish_block h s, [])"

fun store_run ::
  "('n, 't) note_lib \<Rightarrow> 'n store_op list \<Rightarrow> ('n, 't) note_store \<Rightarrow> ('n, 't) note_store \<times> 'n held_note list" where
  "store_run L [] s = (s, [])"
| "store_run L (op # ops) s = (case store_step L op s of
     (s', out) \<Rightarrow> (case store_run L ops s' of (s'', outs) \<Rightarrow> (s'', out @ outs)))"

fun brought_in :: "'n store_op list \<Rightarrow> 'n held_note list" where
  "brought_in [] = []"
| "brought_in (Hold n p h txid # ops) =
    \<lparr> hn_note = n, hn_position = p, hn_height = h, hn_txid = txid \<rparr> # brought_in ops"
| "brought_in (_ # ops) = brought_in ops"

text \<open>Notes sit under their positions, and no position is both held and in flight.\<close>

definition keyed :: "(u64, 'n held_note) bmap \<Rightarrow> bool" where
  "keyed m \<longleftrightarrow> bm_ok m \<and> (\<forall>p h. bm_get m p = Some h \<longrightarrow> hn_position h = p)"

definition known_at :: "('n, 't) note_store \<Rightarrow> u64 \<Rightarrow> bool" where
  "known_at s p \<longleftrightarrow> bm_contains (ns_held s) p \<or> bm_contains (ns_in_flight s) p"

definition store_ok :: "('n, 't) note_store \<Rightarrow> bool" where
  "store_ok s \<longleftrightarrow> keyed (ns_held s) \<and> keyed (ns_in_flight s) \<and>
    (\<forall>p. \<not> (bm_contains (ns_held s) p \<and> bm_contains (ns_in_flight s) p))"

definition known :: "('n, 't) note_store \<Rightarrow> 'n held_note multiset" where
  "known s = mset (bm_values (ns_held s)) + mset (bm_values (ns_in_flight s))"

lemma keyed_insert [simp]: "keyed m \<Longrightarrow> hn_position h = p \<Longrightarrow> keyed (bm_insert p h m)"
  by (auto simp: keyed_def split: if_splits)

lemma keyed_remove [simp]: "keyed m \<Longrightarrow> keyed (bm_remove p m)"
  by (auto simp: keyed_def split: if_splits)

lemma keyed_ok: "keyed m \<Longrightarrow> bm_ok m"
  by (simp add: keyed_def)

lemma keyed_position: "keyed m \<Longrightarrow> bm_get m p = Some h \<Longrightarrow> hn_position h = p"
  by (simp add: keyed_def)

lemma store_ok_keyed: "store_ok s \<Longrightarrow> keyed (ns_held s) \<and> keyed (ns_in_flight s)"
  by (simp add: store_ok_def)

lemma keyed_empty [simp]: "keyed bm_empty"
  by (simp add: keyed_def)

lemma bm_contains_insert [simp]: "bm_contains (bm_insert k v m) r \<longleftrightarrow> r = k \<or> bm_contains m r"
  by (simp add: bm_contains_def)

lemma bm_contains_remove [simp]: "bm_contains (bm_remove k m) r \<longleftrightarrow> r \<noteq> k \<and> bm_contains m r"
  by (simp add: bm_contains_def)

lemma values_insert:
  "\<not> bm_contains m k \<Longrightarrow> mset (bm_values (bm_insert k v m)) = add_mset v (mset (bm_values m))"
proof (induction m)
  case (Cons e m)
  obtain k' v' where e: "e = (k', v')" by (cases e)
  have "k \<noteq> k'" "\<not> bm_contains m k"
    using Cons.prems by (auto simp: e bm_contains_def bm_get_Cons split: if_splits)
  with Cons.IH show ?case by (simp add: e bm_values_def)
qed (simp add: bm_values_def)

lemma values_remove:
  assumes "bm_ok m" and "bm_get m k = Some v"
  shows "mset (bm_values m) = add_mset v (mset (bm_values (bm_remove k m)))"
proof -
  have "bm_insert k v (bm_remove k m) = m"
    by (rule bm_ext) (use assms in auto)
  moreover have "mset (bm_values (bm_insert k v (bm_remove k m))) = add_mset v (mset (bm_values (bm_remove k m)))"
    by (rule values_insert) simp
  ultimately show ?thesis by simp
qed

lemma with_nullifier_Some:
  assumes "keyed m" and "with_nullifier L nf m = Some h"
  shows "bm_get m (hn_position h) = Some h \<and> nl_nullifier L (hn_note h) = nf"
proof -
  from assms(2) have "h \<in> set (bm_values m)" "nl_nullifier L (hn_note h) = nf"
    by (auto simp: with_nullifier_def find_Some_iff)
  then obtain p where "(p, h) \<in> set m" by (auto simp: bm_values_def)
  then have "bm_get m p = Some h" using assms(1) by (simp add: keyed_def bm_get_Some_iff)
  moreover have "hn_position h = p" using calculation assms(1) by (simp add: keyed_def)
  ultimately show ?thesis using \<open>nl_nullifier L (hn_note h) = nf\<close> by simp
qed

lemma spend_nullifier_cases:
  assumes "store_ok s"
  obtains (in_flight) h where "bm_get (ns_in_flight s) (hn_position h) = Some h" "nl_nullifier L (hn_note h) = nf"
      "spend_nullifier L nf s = (s \<lparr> ns_in_flight := bm_remove (hn_position h) (ns_in_flight s),
        ns_spent := bs_insert nf (ns_spent s) \<rparr>, Some h)"
    | (held) h where "bm_get (ns_held s) (hn_position h) = Some h" "nl_nullifier L (hn_note h) = nf"
      "spend_nullifier L nf s = (s \<lparr> ns_held := bm_remove (hn_position h) (ns_held s),
        ns_spent := bs_insert nf (ns_spent s) \<rparr>, Some h)"
    | (neither) "spend_nullifier L nf s = (s, None)"
proof (cases "with_nullifier L nf (ns_in_flight s)")
  case (Some h)
  have "keyed (ns_in_flight s)" using assms by (simp add: store_ok_def)
  from with_nullifier_Some [OF this Some] Some show thesis
    by (intro in_flight) (simp_all add: spend_nullifier_def)
next
  case none: None
  show thesis
  proof (cases "with_nullifier L nf (ns_held s)")
    case (Some h)
    have "keyed (ns_held s)" using assms by (simp add: store_ok_def)
    from with_nullifier_Some [OF this Some] Some none show thesis
      by (intro held) (simp_all add: spend_nullifier_def)
  next
    case None
    with none show thesis by (intro neither) (simp add: spend_nullifier_def)
  qed
qed

lemma holds_nullifier_iff:
  "holds_nullifier L nf s \<longleftrightarrow> nf \<in> set (ns_spent s) \<or> (\<exists>h \<in># known s. nl_nullifier L (hn_note h) = nf)"
  by (auto simp: holds_nullifier_def known_def list_ex_iff)

text \<open>Each operation keeps the store well-formed and the books balanced, and what it lets out is
  recorded as spent.\<close>

definition op_fresh :: "'n store_op \<Rightarrow> ('n, 't) note_store \<Rightarrow> bool" where
  "op_fresh op s = (case op of Hold n p h txid \<Rightarrow> \<not> known_at s p | _ \<Rightarrow> True)"

lemma store_append_notes:
  "ns_held (fst (store_append L cmx ours s)) = ns_held s"
  "ns_in_flight (fst (store_append L cmx ours s)) = ns_in_flight s"
  "ns_spent (fst (store_append L cmx ours s)) = ns_spent s"
  by (auto simp: store_append_def Let_def split: option.splits prod.splits)

lemma store_ok_forget:
  assumes "store_ok s"
  shows "store_ok (s \<lparr> ns_in_flight := bm_remove p (ns_in_flight s), ns_spent := x \<rparr>)"
    and "store_ok (s \<lparr> ns_held := bm_remove p (ns_held s), ns_spent := x \<rparr>)"
  using assms by (simp_all add: store_ok_def)

lemma store_step_ledger:
  assumes "store_ok s" and "op_fresh op s" and "store_step L op s = (s', out)"
  shows "store_ok s' \<and> known s' + mset out = known s + mset (brought_in [op]) \<and>
    set (ns_spent s') = set (ns_spent s) \<union> nl_nullifier L ` hn_note ` set out"
proof (cases op)
  case (Hold n p h txid)
  with assms show ?thesis by (auto simp: hold_def store_ok_def known_def op_fresh_def known_at_def values_insert)
next
  case (Spend p)
  show ?thesis
  proof (cases "bm_get (ns_held s) p")
    case None
    then show ?thesis using assms by (simp add: Spend spend_def)
  next
    case (Some h)
    have "bm_contains (ns_held s) p" using Some by (simp add: bm_contains_def)
    then have "\<not> bm_contains (ns_in_flight s) p" using assms(1) unfolding store_ok_def by blast
    moreover have "keyed (ns_held s)" "keyed (ns_in_flight s)" using assms(1) by (simp_all add: store_ok_def)
    moreover have "hn_position h = p" using calculation(2) Some by (simp add: keyed_def)
    ultimately have keyed: "keyed (ns_held s)" "keyed (ns_in_flight s)" "\<not> bm_contains (ns_in_flight s) p" "hn_position h = p"
      by blast+
    have "mset (bm_values (ns_held s)) = add_mset h (mset (bm_values (bm_remove p (ns_held s))))"
      by (rule values_remove [OF keyed_ok [OF keyed(1)] Some])
    moreover have "s' = s \<lparr> ns_held := bm_remove p (ns_held s), ns_in_flight := bm_insert p h (ns_in_flight s) \<rparr>"
      and out: "out = []" using assms(3) Some by (simp_all add: Spend spend_def)
    moreover have "mset (bm_values (bm_insert p h (ns_in_flight s))) = add_mset h (mset (bm_values (ns_in_flight s)))"
      by (rule values_insert [OF keyed(3)])
    moreover have "\<not> (bm_contains (bm_remove p (ns_held s)) q \<and> bm_contains (bm_insert p h (ns_in_flight s)) q)" for q
      using assms(1) by (simp add: store_ok_def)
    ultimately show ?thesis using keyed by (simp add: Spend store_ok_def known_def)
  qed
next
  case (SpendNullifier nf)
  from assms(1) show ?thesis
  proof (cases rule: spend_nullifier_cases [where L = L and nf = nf])
    case (in_flight h)
    have "mset (bm_values (ns_in_flight s)) = add_mset h (mset (bm_values (bm_remove (hn_position h) (ns_in_flight s))))"
      by (rule values_remove [OF keyed_ok [OF store_ok_keyed [OF assms(1), THEN conjunct2]] in_flight(1)])
    moreover have out: "out = [h]" and s': "s' = s \<lparr> ns_in_flight := bm_remove (hn_position h) (ns_in_flight s),
        ns_spent := bs_insert nf (ns_spent s) \<rparr>"
      using assms(3) in_flight(3) by (simp_all add: SpendNullifier)
    moreover have "store_ok s'"
      unfolding s' by (rule store_ok_forget [OF assms(1)])
    moreover have "set (ns_spent s') = insert nf (set (ns_spent s))" by (simp add: s')
    ultimately show ?thesis using in_flight(2) by (simp add: SpendNullifier known_def)
  next
    case (held h)
    have "mset (bm_values (ns_held s)) = add_mset h (mset (bm_values (bm_remove (hn_position h) (ns_held s))))"
      by (rule values_remove [OF keyed_ok [OF store_ok_keyed [OF assms(1), THEN conjunct1]] held(1)])
    moreover have out: "out = [h]" and s': "s' = s \<lparr> ns_held := bm_remove (hn_position h) (ns_held s),
        ns_spent := bs_insert nf (ns_spent s) \<rparr>"
      using assms(3) held(3) by (simp_all add: SpendNullifier)
    moreover have "store_ok s'"
      unfolding s' by (rule store_ok_forget [OF assms(1)])
    moreover have "set (ns_spent s') = insert nf (set (ns_spent s))" by (simp add: s')
    ultimately show ?thesis using held(2) by (simp add: SpendNullifier known_def)
  next
    case neither
    then show ?thesis using assms by (simp add: SpendNullifier)
  qed
next
  case (Append cmx ours)
  with assms show ?thesis by (auto simp: store_ok_def known_def store_append_notes)
next
  case (BeginBlock h)
  with assms show ?thesis by (auto simp: store_ok_def known_def begin_block_def)
next
  case (FinishBlock h)
  with assms show ?thesis by (auto simp: store_ok_def known_def finish_block_def)
qed

text \<open>Every note a run brings in arrives at a position of its own.\<close>

fun run_fresh :: "('n, 't) note_lib \<Rightarrow> 'n store_op list \<Rightarrow> ('n, 't) note_store \<Rightarrow> bool" where
  "run_fresh L [] s \<longleftrightarrow> True"
| "run_fresh L (op # ops) s \<longleftrightarrow> op_fresh op s \<and> run_fresh L ops (fst (store_step L op s))"

lemma brought_in_Cons: "mset (brought_in (op # ops)) = mset (brought_in [op]) + mset (brought_in ops)"
  by (cases op) simp_all

lemma store_run_ledger:
  "store_ok s \<Longrightarrow> run_fresh L ops s \<Longrightarrow> store_run L ops s = (s', out) \<Longrightarrow>
    store_ok s' \<and> known s' + mset out = known s + mset (brought_in ops) \<and>
    set (ns_spent s') = set (ns_spent s) \<union> nl_nullifier L ` hn_note ` set out"
proof (induction ops arbitrary: s out)
  case (Cons op ops)
  obtain s1 out1 where step: "store_step L op s = (s1, out1)" by fastforce
  obtain out2 where run: "store_run L ops s1 = (s', out2)" and out: "out = out1 @ out2"
    using Cons.prems(3) by (auto simp: step split: prod.splits)
  note one = store_step_ledger [OF Cons.prems(1) _ step]
  have fresh: "op_fresh op s" "run_fresh L ops s1" using Cons.prems(2) by (simp_all add: step)
  have rest: "store_ok s' \<and> known s' + mset out2 = known s1 + mset (brought_in ops) \<and>
      set (ns_spent s') = set (ns_spent s1) \<union> nl_nullifier L ` hn_note ` set out2"
    by (rule Cons.IH [OF conjunct1 [OF one [OF fresh(1)]] fresh(2) run])
  have "known s' + mset out = (known s1 + mset out1) + mset (brought_in ops)"
    using rest by (simp add: out ac_simps)
  then have "known s' + mset out = known s + mset (brought_in (op # ops))"
    using one [OF fresh(1)] brought_in_Cons [of op ops] by (simp add: ac_simps)
  moreover have "set (ns_spent s') = set (ns_spent s) \<union> nl_nullifier L ` hn_note ` set out"
    using rest one [OF fresh(1)] unfolding out set_append image_Un by blast
  ultimately show ?case using rest by blast
qed simp

section \<open>An instance of the library\<close>

text \<open>A tree that keeps its leaves, and at each checkpoint its number and the leaves it had; a note is
  its value and its nullifier.\<close>

type_synonym demo_tree = "bytes list \<times> (u32 \<times> bytes list) list"

definition demo_notes :: "(u64 \<times> bytes, demo_tree) note_lib" where
  "demo_notes = \<lparr>
     nl_value = fst, nl_nullifier = snd,
     tree_new = (\<lambda>n. ([], [])),
     tree_append = (\<lambda>x t. Some (fst t @ [x], snd t)),
     tree_mark = (\<lambda>t. (t, if fst t = [] then None else Some (of_nat (length (fst t) - 1)))),
     tree_checkpoint = (\<lambda>i t. (fst t, take 100 ((i, fst t) # snd t))),
     tree_rewind = (\<lambda>t. case snd t of [] \<Rightarrow> None | c # cs \<Rightarrow> Some (snd c, cs)),
     tree_position = (\<lambda>t. if fst t = [] then None else Some (of_nat (length (fst t) - 1))),
     tree_root = (\<lambda>t. Some (zeros 32)),
     tree_witness = (\<lambda>p t. if unat p < length (fst t) then Some (replicate 32 (zeros 32)) else None),
     tree_read_frontier = (\<lambda>n b. if b = [] then Some None else Some (Some (of_nat (length b - 1), (map (\<lambda>x. [x]) b, [])))) \<rparr>"

definition demo_store :: "(u64 \<times> bytes, demo_tree) note_store" where
  "demo_store = fst (store_run demo_notes
     [Append [1] True, Hold (5, [11]) 0 7 [], Append [2] True, Hold (9, [12]) 1 7 [], Append [3] True, Hold (4, [13]) 2 7 []]
     (store_new demo_notes))"

lemma demo_store_notes:
  "ns_held demo_store = [(0, \<lparr> hn_note = (5, [11]), hn_position = 0, hn_height = 7, hn_txid = [] \<rparr>),
      (1, \<lparr> hn_note = (9, [12]), hn_position = 1, hn_height = 7, hn_txid = [] \<rparr>),
      (2, \<lparr> hn_note = (4, [13]), hn_position = 2, hn_height = 7, hn_txid = [] \<rparr>)]" "ns_in_flight demo_store = []"
  by code_simp+

text \<open>What \<open>select\<close> hands out is held and covers the amount.\<close>

lemma select_Ok:
  assumes "select L amount s = Ok chosen"
  shows "mset chosen \<subseteq># mset (bm_values (ns_held s)) \<and> unat amount \<le> note_values L chosen"
proof -
  obtain acc where p: "pick L amount (candidates L s) 0 [] = (chosen, acc)" and "\<not> acc < amount"
    using assms by (auto simp: select_def split: prod.splits if_splits)
  moreover obtain k where k: "chosen = take k (candidates L s)" "unat acc = cap (note_values L chosen)"
    using pick_prefix [of 0 L "[]" amount "candidates L s"] by (auto simp: p cap_def)
  ultimately have "unat amount \<le> note_values L chosen" by (auto simp: word_less_nat_alt cap_def)
  moreover have "mset chosen \<subseteq># mset (candidates L s)"
    unfolding k(1) by (metis append_take_drop_id mset_append mset_subset_eq_add_left)
  ultimately show ?thesis by simp
qed

section \<open>Properties\<close>

text \<open>C22: note selection covers the amount with the fewest notes. When \<open>select\<close> returns, it returns
  notes that are held, each at most once, worth at least the amount, and no choice of held notes
  worth the amount is smaller, so the bundle has the fewest actions. It refuses only when all
  held notes together are worth less, and then reports exactly what is held.\<close>

theorem select_covers_with_fewest:
  "case select L amount s of
     Inr chosen \<Rightarrow> mset chosen \<subseteq># mset (bm_values (ns_held s)) \<and> unat amount \<le> note_values L chosen \<and>
       (\<forall>other. mset other \<subseteq># mset (bm_values (ns_held s)) \<and> unat amount \<le> note_values L other \<longrightarrow>
         length chosen \<le> length other)
   | Inl e \<Rightarrow> note_values L (bm_values (ns_held s)) < unat amount \<and>
       e = Insufficient (of_nat (note_values L (bm_values (ns_held s)))) amount"
proof -
  let ?c = "candidates L s"
  obtain chosen acc where p: "pick L amount ?c 0 [] = (chosen, acc)" by fastforce
  obtain k where k: "chosen = take k ?c" "unat acc = cap (note_values L (take k ?c))"
    "\<forall>j < k. note_values L (take j ?c) < unat amount" "k \<le> length ?c"
    "k < length ?c \<longrightarrow> unat amount \<le> note_values L (take k ?c)"
    using pick_prefix [of 0 L "[]" amount ?c] by (auto simp: p cap_def)
  have am: "unat amount < 2 ^ 64" using unat_less_64 [of amount] by simp
  show ?thesis
  proof (cases "acc < amount")
    case True
    then have short: "note_values L (take k ?c) < unat amount"
      using k(2) am by (simp add: word_less_nat_alt cap_def)
    then have "take k ?c = ?c" using k(4,5) by auto
    then have "unat acc = note_values L ?c" using k(2) short am by (simp add: cap_def)
    then have acc: "acc = of_nat (note_values L ?c)" using ucast_of_nat_unat [of acc, where 'b = 64] by simp
    have "note_values L ?c = note_values L (bm_values (ns_held s))" by (rule note_values_mset) simp
    then show ?thesis using True short acc \<open>take k ?c = ?c\<close> by (simp add: select_def p)
  next
    case False
    then have enough: "unat amount \<le> note_values L chosen"
      using k(1,2) by (auto simp: word_less_nat_alt cap_def)
    have "mset chosen \<subseteq># mset ?c"
      unfolding k(1) by (metis append_take_drop_id mset_append mset_subset_eq_add_left)
    moreover have "length chosen \<le> length other"
      if "mset other \<subseteq># mset ?c" "unat amount \<le> note_values L other" for other
    proof (rule ccontr)
      assume "\<not> length chosen \<le> length other"
      then have "length other < k" using k(1) by simp
      then have "note_values L (take (length other) ?c) < unat amount" using k(3) by blast
      moreover have "note_values L other \<le> note_values L (take (length other) ?c)"
        by (rule top_values [OF candidates_descend that(1)])
      ultimately show False using that(2) by simp
    qed
    ultimately show ?thesis using False enough by (simp add: select_def p)
  qed
qed

theorem select_covers_with_fewest_witness:
  "select demo_notes 10 demo_store = Ok [\<lparr> hn_note = (9, [12]), hn_position = 1, hn_height = 7, hn_txid = [] \<rparr>,
      \<lparr> hn_note = (5, [11]), hn_position = 0, hn_height = 7, hn_txid = [] \<rparr>] \<and>
    \<not> unat (10 :: u64) \<le> note_values demo_notes [\<lparr> hn_note = (9, [12]), hn_position = 1, hn_height = 7, hn_txid = [] \<rparr>]"
proof -
  let ?a = "\<lparr> hn_note = (9 :: u64, [12] :: bytes), hn_position = 1, hn_height = 7, hn_txid = [] \<rparr>" and
    ?b = "\<lparr> hn_note = (5 :: u64, [11] :: bytes), hn_position = 0, hn_height = 7, hn_txid = [] \<rparr>"
  have s: "select demo_notes 10 demo_store = Ok [?a, ?b]"
    by (simp add: select_def candidates_def demo_store_notes bm_values_def held_value_def demo_notes_def
        saturating_add_def)
  have "?a \<in> set (bm_values (ns_held demo_store))" by (simp add: demo_store_notes bm_values_def)
  then have sub: "mset [?a] \<subseteq># mset (bm_values (ns_held demo_store))" by simp
  note t = select_covers_with_fewest [where L = demo_notes and amount = 10 and s = demo_store, unfolded s sum.case]
  have "length [?a, ?b] \<le> length [?a]" if "unat (10 :: u64) \<le> note_values demo_notes [?a]"
    by (rule t [THEN conjunct2, THEN conjunct2, rule_format, OF conjI [OF sub that]])
  then have "\<not> unat (10 :: u64) \<le> note_values demo_notes [?a]" by (metis Suc_n_not_le_n length_Cons list.size(3))
  with s show ?thesis by blast
qed



end
