(* ===== verification/Shielded.thy ===== *)
theory Shielded
  imports Notes Zebra Memo
begin

text \<open>
  shielded.rs: seeing shielded deposits. What one viewing key makes of a transaction, whose the
  notes are, and the scanner that feeds the note trees and reports deposits. Parsing and trial
  decryption are the parameter \<open>vault_keys\<close>: they give a transaction's Orchard and Ironwood
  actions, ours with the note and its 512-byte memo. Memo parsing can panic, so a scan is a
  \<open>run\<close>. The node's answers are a record; the scanner's stores are passed as state. Locks are not
  modelled: one thread scans.
\<close>

section \<open>Scanning a transaction\<close>

record 'n raw_action =
  ra_cmx :: bytes
  ra_nullifier :: bytes
  ra_note :: "('n \<times> bytes) option"

record 'n vault_keys =
  vk_read :: "bytes \<Rightarrow> ('n raw_action list \<times> 'n raw_action list) option"
  vk_value :: "'n \<Rightarrow> u64"
  vk_index :: "'n \<Rightarrow> bytes option"
  vk_sha256 :: "bytes \<Rightarrow> bytes"

datatype scan_error = Undecodable | UnaddressedDeposit fixed

record app_payment_output =
  ap_txid :: txid
  ap_height :: u64
  ap_output_index :: u32
  ap_amount :: fixed
  ap_payment :: app_payment_memo

record 'n scanned_action =
  sa_pool :: value_pool
  sa_cmx :: bytes
  sa_nullifier :: bytes
  sa_ours :: "'n option"
  sa_account :: "account_id option"
  sa_memo :: "bytes option"
  sa_to_index :: "bytes option"
  sa_anchor :: bool
  sa_forced :: "bytes option"
  sa_app_payment :: "app_payment_memo option"
  sa_app_reserved :: bool

record 'n scanned =
  sn_deposits :: "observed_deposit list"
  sn_actions :: "'n scanned_action list"
  sn_forced :: "forced_sighting list"
  sn_app_payments :: "app_payment_output list"

definition scanned_empty :: "'n scanned" where
  "scanned_empty = \<lparr> sn_deposits = [], sn_actions = [], sn_forced = [], sn_app_payments = [] \<rparr>"

text \<open>\<open>Fixed(note.value().inner() as i128 * ZAT)\<close>\<close>

definition note_amount :: "'n vault_keys \<Rightarrow> 'n \<Rightarrow> fixed" where
  "note_amount V n = Fixed (ucast (vk_value V n) * ZAT)"

definition deposit_to :: "txid \<Rightarrow> u64 \<Rightarrow> fixed \<Rightarrow> account_id \<Rightarrow> observed_deposit" where
  "deposit_to txid height amount account = \<lparr> od_txid = txid, od_account = account, od_amount = amount,
     od_height = height, od_asset = None \<rparr>"

definition push_action :: "'n scanned_action \<Rightarrow> 'n scanned \<Rightarrow> 'n scanned" where
  "push_action a out = out \<lparr> sn_actions := sn_actions out @ [a] \<rparr>"

definition scan_deposit :: "observed_deposit \<Rightarrow> 'n scanned \<Rightarrow> 'n scanned" where
  "scan_deposit d out = out \<lparr> sn_deposits := sn_deposits out @ [d] \<rparr>"

text \<open>\<open>take\<close>: one action.\<close>

definition take_action ::
  "'n vault_keys \<Rightarrow> (txid, account_id) bmap \<Rightarrow> bool \<Rightarrow> txid \<Rightarrow> u64 \<Rightarrow> value_pool \<Rightarrow> u32 \<Rightarrow> 'n raw_action
    \<Rightarrow> 'n scanned \<Rightarrow> (scan_error + 'n scanned) run" where
  "take_action V attributions lenient txid height pool output_index act out =
    (let base = \<lparr> sa_pool = pool, sa_cmx = ra_cmx act, sa_nullifier = ra_nullifier act, sa_ours = None,
           sa_account = None, sa_memo = None, sa_to_index = None, sa_anchor = False, sa_forced = None,
           sa_app_payment = None, sa_app_reserved = False \<rparr>
     in case ra_note act of
          None \<Rightarrow> Some (Ok (push_action base out))
        | Some (note, memo) \<Rightarrow>
          let mine = base \<lparr> sa_to_index := vk_index V note, sa_ours := Some note, sa_memo := Some memo \<rparr>;
              amount = note_amount V note
          in if is_anchor memo \<or> is_publication memo then Some (Ok (push_action (mine \<lparr> sa_anchor := True \<rparr>) out))
             else (case decode_app_payment memo of
               Inr payment \<Rightarrow>
                 Some (Ok (push_action (mine \<lparr> sa_app_payment := Some payment, sa_app_reserved := True \<rparr>)
                   (out \<lparr> sn_app_payments := sn_app_payments out @ [\<lparr> ap_txid = txid, ap_height = height,
                      ap_output_index = output_index, ap_amount = amount, ap_payment = payment \<rparr>] \<rparr>)))
             | Inl _ \<Rightarrow>
               if has_app_payment_tag memo then
                 (if \<not> lenient then Some (Err (UnaddressedDeposit amount))
                  else Some (Ok (push_action (mine \<lparr> sa_app_reserved := True \<rparr>) out)))
               else (case Option.bind (forced_frame memo) (\<lambda>frame. map_option (Pair frame) (forced_account (vk_sha256 V) frame)) of
                 Some (frame, account) \<Rightarrow>
                   Some (Ok (push_action (mine \<lparr> sa_account := Some account, sa_forced := Some frame \<rparr>)
                     ((scan_deposit (deposit_to txid height amount account) out) \<lparr> sn_forced := sn_forced out @
                        [\<lparr> fs_txid = txid, fs_height = height, fs_amount = amount, fs_frame = frame \<rparr>] \<rparr>)))
               | None \<Rightarrow>
                 do {
                   decoded \<leftarrow> decode memo;
                   (case (case decoded of
                       Inr account \<Rightarrow> Ok (Some account)
                     | Inl _ \<Rightarrow>
                         (case bm_get attributions txid of
                            Some a \<Rightarrow> Ok (Some a)
                          | None \<Rightarrow> if lenient then Ok None else Err (UnaddressedDeposit amount))) of
                      Inl e \<Rightarrow> Some (Err e)
                    | Inr account \<Rightarrow>
                        Some (Ok (push_action (mine \<lparr> sa_account := account \<rparr>)
                          (case account of
                             Some a \<Rightarrow> scan_deposit (deposit_to txid height amount a) out
                           | None \<Rightarrow> out))))
                 })))"

fun take_actions ::
  "'n vault_keys \<Rightarrow> (txid, account_id) bmap \<Rightarrow> bool \<Rightarrow> txid \<Rightarrow> u64 \<Rightarrow> value_pool \<Rightarrow> 'n raw_action list \<Rightarrow> u32
    \<Rightarrow> 'n scanned \<Rightarrow> (scan_error + u32 \<times> 'n scanned) run" where
  "take_actions V attributions lenient txid height pool [] i out = Some (Ok (i, out))"
| "take_actions V attributions lenient txid height pool (a # as) i out = do {
     r \<leftarrow> take_action V attributions lenient txid height pool i a out;
     (case and_then r (\<lambda>out'. and_then (ok_or (checked_add i 1) Undecodable) (\<lambda>i'. Ok (i', out'))) of
        Inl e \<Rightarrow> Some (Err e)
      | Inr (i', out') \<Rightarrow> take_actions V attributions lenient txid height pool as i' out')
   }"

definition scan_inner ::
  "'n vault_keys \<Rightarrow> bytes \<Rightarrow> txid \<Rightarrow> u64 \<Rightarrow> (txid, account_id) bmap \<Rightarrow> bool \<Rightarrow> (scan_error + 'n scanned) run" where
  "scan_inner V raw txid height attributions lenient =
    (case vk_read V raw of
       None \<Rightarrow> Some (Err Undecodable)
     | Some (orchard, ironwood) \<Rightarrow> do {
         r \<leftarrow> take_actions V attributions lenient txid height Orchard orchard 0 scanned_empty;
         (case r of
            Inl e \<Rightarrow> Some (Err e)
          | Inr (i, out) \<Rightarrow> do {
              r' \<leftarrow> take_actions V attributions lenient txid height Ironwood ironwood i out;
              Some (and_then r' (\<lambda>(_, out'). Ok out'))
            })
       })"

definition scan_actions_with ::
  "'n vault_keys \<Rightarrow> bytes \<Rightarrow> txid \<Rightarrow> u64 \<Rightarrow> (txid, account_id) bmap \<Rightarrow> (scan_error + 'n scanned) run" where
  "scan_actions_with V raw txid height attributions = scan_inner V raw txid height attributions False"

definition scan_actions :: "'n vault_keys \<Rightarrow> bytes \<Rightarrow> txid \<Rightarrow> u64 \<Rightarrow> (scan_error + 'n scanned) run" where
  "scan_actions V raw txid height = scan_actions_with V raw txid height bm_empty"

definition scan_transaction ::
  "'n vault_keys \<Rightarrow> bytes \<Rightarrow> txid \<Rightarrow> u64 \<Rightarrow> (scan_error + observed_deposit list) run" where
  "scan_transaction V raw txid height =
    map_option (\<lambda>r. and_then r (\<lambda>s. Ok (sn_deposits s))) (scan_actions V raw txid height)"

definition scan_actions_lenient :: "'n vault_keys \<Rightarrow> bytes \<Rightarrow> txid \<Rightarrow> u64 \<Rightarrow> (scan_error + 'n scanned) run" where
  "scan_actions_lenient V raw txid height = scan_inner V raw txid height bm_empty True"

section \<open>Whose notes they are\<close>

definition deposit_index :: "(bytes \<Rightarrow> bytes) \<Rightarrow> account_id \<Rightarrow> bytes" where
  "deposit_index sha256 account =
    (let idx = take 11 (sha256 (ascii ''zec.deposit.index.v1'' @ account))
     in if idx = zeros 11 then idx[0 := 1] else idx)"

definition VAULT_INDEX :: bytes where "VAULT_INDEX = zeros 11"

fun classify_actions ::
  "'n vault_keys \<Rightarrow> bool \<Rightarrow> account_id option \<Rightarrow> txid \<Rightarrow> u64 \<Rightarrow> (bytes, account_id) bmap
    \<Rightarrow> 'n scanned_action list \<Rightarrow> observed_deposit list \<Rightarrow> fixed + observed_deposit list" where
  "classify_actions V spends_ours attributed txid height handed_out [] out = Ok out"
| "classify_actions V spends_ours attributed txid height handed_out (a # as) out =
    (let go = classify_actions V spends_ours attributed txid height handed_out as
     in case sa_ours a of
          None \<Rightarrow> go out
        | Some note \<Rightarrow>
          if sa_anchor a \<or> sa_app_payment a \<noteq> None then go out
          else let amount = note_amount V note
            in if sa_app_reserved a then Err amount
            else (case (case sa_to_index a of
                  Some i \<Rightarrow> if i \<noteq> VAULT_INDEX then bm_get handed_out i else None
                | None \<Rightarrow> None) of
               Some account \<Rightarrow>
                 go (if account \<noteq> zeros 32 then out @ [deposit_to txid height amount account] else out)
             | None \<Rightarrow>
                 (case (sa_account a, spends_ours, attributed) of
                    (Some account, _, _) \<Rightarrow>
                      if account = zeros 32 then go out else go (out @ [deposit_to txid height amount account])
                  | (None, True, _) \<Rightarrow> go out
                  | (None, False, Some account) \<Rightarrow>
                      if account = zeros 32 then go out else go (out @ [deposit_to txid height amount account])
                  | (None, False, None) \<Rightarrow> Err amount)))"

definition classify_addressed ::
  "'n vault_keys \<Rightarrow> 'n scanned \<Rightarrow> bool \<Rightarrow> account_id option \<Rightarrow> txid \<Rightarrow> u64 \<Rightarrow> (bytes, account_id) bmap
    \<Rightarrow> fixed + observed_deposit list" where
  "classify_addressed V scanned spends_ours attributed txid height handed_out =
    classify_actions V spends_ours attributed txid height handed_out (sn_actions scanned) []"

definition classify ::
  "'n vault_keys \<Rightarrow> 'n scanned \<Rightarrow> bool \<Rightarrow> account_id option \<Rightarrow> txid \<Rightarrow> u64 \<Rightarrow> fixed + observed_deposit list" where
  "classify V scanned spends_ours attributed txid height =
    classify_addressed V scanned spends_ours attributed txid height bm_empty"

section \<open>The scanner\<close>

text \<open>What the scanner asks of the node.\<close>

record node =
  nd_block_count :: "rpc_error + u64"
  nd_block_txids :: "u64 \<Rightarrow> rpc_error + bytes list"
  nd_raw :: "bytes \<Rightarrow> rpc_error + bytes"
  nd_tree_state :: "u64 \<Rightarrow> value_pool \<Rightarrow> rpc_error + node_tree_state"

text \<open>The node behind the client of zebra.rs.\<close>

definition zebra_node :: "'j json_ops \<Rightarrow> 'j rpc \<Rightarrow> node" where
  "zebra_node J rpc = \<lparr>
     nd_block_count = block_count J rpc,
     nd_block_txids = (\<lambda>h. block_txids J rpc (decimal (unat h))),
     nd_raw = raw_transaction_bytes J rpc,
     nd_tree_state = (\<lambda>h pool. tree_state_of J rpc h (decimal (unat h)) pool) \<rparr>"

record ('n, 't) pool_stores =
  ps_orchard :: "('n, 't) note_store"
  ps_ironwood :: "('n, 't) note_store"

definition pool_of :: "value_pool \<Rightarrow> ('n, 't) pool_stores \<Rightarrow> ('n, 't) note_store" where
  "pool_of pool st = (case pool of Orchard \<Rightarrow> ps_orchard st | Ironwood \<Rightarrow> ps_ironwood st)"

definition pool_update ::
  "value_pool \<Rightarrow> (('n, 't) note_store \<Rightarrow> ('n, 't) note_store) \<Rightarrow> ('n, 't) pool_stores \<Rightarrow> ('n, 't) pool_stores" where
  "pool_update pool f st = (case pool of
     Orchard \<Rightarrow> st \<lparr> ps_orchard := f (ps_orchard st) \<rparr>
   | Ironwood \<Rightarrow> st \<lparr> ps_ironwood := f (ps_ironwood st) \<rparr>)"

definition both_pools ::
  "(('n, 't) note_store \<Rightarrow> ('n, 't) note_store) \<Rightarrow> ('n, 't) pool_stores \<Rightarrow> ('n, 't) pool_stores" where
  "both_pools f st = \<lparr> ps_orchard = f (ps_orchard st), ps_ironwood = f (ps_ironwood st) \<rparr>"

definition stores_synced_to :: "('n, 't) pool_stores \<Rightarrow> u64 option" where
  "stores_synced_to st = do { a \<leftarrow> ns_synced_to (ps_orchard st); b \<leftarrow> ns_synced_to (ps_ironwood st); Some (min a b) }"

datatype scan_range_error = ScanRpc rpc_error | Unattributable u64 fixed

definition from_rpc :: "rpc_error + 'a \<Rightarrow> scan_range_error + 'a" where
  "from_rpc r = (case r of Inl e \<Rightarrow> Err (ScanRpc e) | Inr x \<Rightarrow> Ok x)"

record scanner =
  sr_from_height :: u64
  sr_max_blocks :: u64
  sr_tree_lag :: u64
  sr_attributions :: "(txid, account_id) bmap"
  sr_addresses :: "(bytes, account_id) bmap"

definition scanner_new :: "u64 \<Rightarrow> u64 \<Rightarrow> scanner" where
  "scanner_new from_height max_blocks = \<lparr> sr_from_height = from_height, sr_max_blocks = max max_blocks 1,
     sr_tree_lag = 0, sr_attributions = bm_empty, sr_addresses = bm_empty \<rparr>"

text \<open>The displayed hex is back to front.\<close>

definition txid_bytes :: "bytes \<Rightarrow> txid option" where
  "txid_bytes hex =
    (if length hex \<noteq> 64 then None
     else map_option rev (collect_options
       (map (\<lambda>i. do { p \<leftarrow> str_get (i * 2) (i * 2 + 2) hex; hex_u8 p }) [0..<32])))"

definition spends_ours :: "('n, 't) note_lib \<Rightarrow> ('n, 't) pool_stores \<Rightarrow> 'n scanned \<Rightarrow> bool" where
  "spends_ours L st scanned \<longleftrightarrow>
    list_ex (\<lambda>a. holds_nullifier L (sa_nullifier a) (pool_of (sa_pool a) st)) (sn_actions scanned)"

text \<open>Forgetting the notes a transaction spends, and appending its commitments.\<close>

definition apply_spends ::
  "('n, 't) note_lib \<Rightarrow> 'n scanned_action list \<Rightarrow> ('n, 't) pool_stores \<Rightarrow> ('n, 't) pool_stores" where
  "apply_spends L acts st =
    fold (\<lambda>a. pool_update (sa_pool a) (\<lambda>s. fst (spend_nullifier L (sa_nullifier a) s))) acts st"

definition append_action ::
  "('n, 't) note_lib \<Rightarrow> u64 \<Rightarrow> txid \<Rightarrow> 'n scanned_action \<Rightarrow> ('n, 't) note_store \<Rightarrow> ('n, 't) note_store" where
  "append_action L height txid a s =
    (case store_append L (sa_cmx a) (sa_ours a \<noteq> None) s of
       (s', position) \<Rightarrow>
         (case (sa_ours a, position) of
            (Some note, Some p) \<Rightarrow> hold note p height txid s'
          | _ \<Rightarrow> s'))"

definition apply_appends ::
  "('n, 't) note_lib \<Rightarrow> u64 \<Rightarrow> txid \<Rightarrow> 'n scanned_action list \<Rightarrow> ('n, 't) pool_stores \<Rightarrow> ('n, 't) pool_stores" where
  "apply_appends L height txid acts st =
    fold (\<lambda>a. pool_update (sa_pool a) (append_action L height txid a)) acts st"

fun feed_txs ::
  "('n, 't) note_lib \<Rightarrow> 'n vault_keys \<Rightarrow> node \<Rightarrow> (txid, account_id) bmap \<Rightarrow> u64 \<Rightarrow> bytes list
    \<Rightarrow> observed_deposit list \<Rightarrow> forced_sighting list \<Rightarrow> ('n, 't) pool_stores
    \<Rightarrow> ((scan_range_error + observed_deposit list \<times> forced_sighting list) \<times> ('n, 't) pool_stores) run" where
  "feed_txs L V N attributions height [] deposits forced st = Some (Ok (deposits, forced), st)"
| "feed_txs L V N attributions height (hex # hexes) deposits forced st =
    (case nd_raw N hex of
       Inl e \<Rightarrow> Some (Err (ScanRpc e), st)
     | Inr raw \<Rightarrow>
       (case txid_bytes hex of
          None \<Rightarrow> feed_txs L V N attributions height hexes deposits forced st
        | Some txid \<Rightarrow>
          Option.bind (scan_actions_lenient V raw txid height) (\<lambda>r.
            case r of
              Inl _ \<Rightarrow> feed_txs L V N attributions height hexes deposits forced st
            | Inr scanned \<Rightarrow>
              let ours = spends_ours L st scanned;
                  st' = apply_spends L (sn_actions scanned) st
              in (case classify V scanned ours (bm_get attributions txid) txid height of
                    Inl amount \<Rightarrow> Some (Err (Unattributable height amount), st')
                  | Inr ds \<Rightarrow>
                    feed_txs L V N attributions height hexes (deposits @ ds) (forced @ sn_forced scanned)
                      (apply_appends L height txid (sn_actions scanned) st')))))"

definition feed_block ::
  "('n, 't) note_lib \<Rightarrow> 'n vault_keys \<Rightarrow> node \<Rightarrow> (txid, account_id) bmap \<Rightarrow> u64 \<Rightarrow> ('n, 't) pool_stores
    \<Rightarrow> ((scan_range_error + observed_deposit list \<times> forced_sighting list) \<times> ('n, 't) pool_stores) run" where
  "feed_block L V N attributions height st =
    (let finished = (case (ns_synced_to (ps_orchard st), ns_synced_to (ps_ironwood st)) of
           (Some a, Some b) \<Rightarrow> height \<le> min a b
         | _ \<Rightarrow> False)
     in if finished then Some (Ok ([], []), st)
        else let st1 = both_pools (begin_block L height) st
          in do {
            (result, st2) \<leftarrow> (case nd_block_txids N height of
               Inl e \<Rightarrow> Some (Err (ScanRpc e), st1)
             | Inr hexes \<Rightarrow> feed_txs L V N attributions height hexes [] [] st1);
            (case result of
               Inr d \<Rightarrow> Some (Ok d, both_pools (finish_block height) st2)
             | Inl e \<Rightarrow> Some (Err e, both_pools (\<lambda>s. fst (rewind L s)) st2))
          })"

section \<open>Classification\<close>

text \<open>What the doc comments of \<open>classify_addressed\<close> promise, as a table: \<open>None\<close> stops the scan,
  \<open>Some None\<close> holds the note uncredited, \<open>Some (Some a)\<close> credits \<open>a\<close>. The address speaks first, then
  the memo, then change, then the operator; the all-zero account is nobody.\<close>

definition nobody_held :: "account_id \<Rightarrow> account_id option" where
  "nobody_held account = (if account = zeros 32 then None else Some account)"

definition address_owner :: "(bytes, account_id) bmap \<Rightarrow> 'n scanned_action \<Rightarrow> account_id option" where
  "address_owner handed_out a = Option.bind (sa_to_index a) (\<lambda>i. if i = VAULT_INDEX then None else bm_get handed_out i)"

definition ruling ::
  "bool \<Rightarrow> account_id option \<Rightarrow> (bytes, account_id) bmap \<Rightarrow> 'n scanned_action \<Rightarrow> account_id option option" where
  "ruling ours attributed handed_out a =
    (if sa_anchor a \<or> sa_app_payment a \<noteq> None then Some None
     else if sa_app_reserved a then None
     else case (address_owner handed_out a, sa_account a) of
       (Some account, _) \<Rightarrow> Some (nobody_held account)
     | (None, Some account) \<Rightarrow> Some (nobody_held account)
     | (None, None) \<Rightarrow> if ours then Some None else map_option nobody_held attributed)"

definition own_notes :: "'n scanned \<Rightarrow> ('n scanned_action \<times> 'n) list" where
  "own_notes s = List.map_filter (\<lambda>a. map_option (Pair a) (sa_ours a)) (sn_actions s)"

definition ruled_deposits ::
  "'n vault_keys \<Rightarrow> ('n scanned_action \<Rightarrow> account_id option option) \<Rightarrow> txid \<Rightarrow> u64
    \<Rightarrow> ('n scanned_action \<times> 'n) list \<Rightarrow> observed_deposit list" where
  "ruled_deposits V rule txid height own = List.map_filter (\<lambda>(a, n).
     case rule a of Some (Some account) \<Rightarrow> Some (deposit_to txid height (note_amount V n) account) | _ \<Rightarrow> None) own"

lemma classify_actions_rules:
  "classify_actions V ours attributed txid height handed_out as out =
    (let own = List.map_filter (\<lambda>a. map_option (Pair a) (sa_ours a)) as
     in case List.find (\<lambda>(a, n). ruling ours attributed handed_out a = None) own of
          Some (a, n) \<Rightarrow> Err (note_amount V n)
        | None \<Rightarrow> Ok (out @ ruled_deposits V (ruling ours attributed handed_out) txid height own))"
proof (induction "as" arbitrary: out)
  case Nil
  show ?case by (simp add: ruled_deposits_def map_filter_simps)
next
  case (Cons a as)
  show ?case
  proof (cases "sa_ours a")
    case None
    with Cons show ?thesis by (simp add: map_filter_simps)
  next
    case (Some n)
    with Cons show ?thesis
      by (cases "sa_to_index a"; cases "sa_account a"; cases attributed)
        (auto simp: map_filter_simps ruled_deposits_def ruling_def address_owner_def nobody_held_def Let_def
           split: option.splits if_splits)
  qed
qed

definition amounts_of :: "'n vault_keys \<Rightarrow> ('n scanned_action \<times> 'n) list \<Rightarrow> fixed list" where
  "amounts_of V own = map (\<lambda>(a, n). note_amount V n) own"

definition app_outputs_ok :: "'n vault_keys \<Rightarrow> 'n scanned \<Rightarrow> bool" where
  "app_outputs_ok V s \<longleftrightarrow>
    map ap_amount (sn_app_payments s) = amounts_of V (filter (\<lambda>(a, n). sa_app_payment a \<noteq> None) (own_notes s)) \<and>
    list_all (\<lambda>a. sa_app_payment a \<noteq> None \<longrightarrow> \<not> sa_anchor a) (sn_actions s)"

lemma own_notes_push [simp]:
  "own_notes (push_action a s) = own_notes s @ (case sa_ours a of None \<Rightarrow> [] | Some n \<Rightarrow> [(a, n)])"
  by (simp add: own_notes_def push_action_def List.map_filter_def split: option.split)

lemma push_action_fields [simp]:
  "sn_actions (push_action a s) = sn_actions s @ [a]" "sn_app_payments (push_action a s) = sn_app_payments s"
  "sn_forced (push_action a s) = sn_forced s" "sn_deposits (push_action a s) = sn_deposits s"
  by (simp_all add: push_action_def)

lemma own_notes_other [simp]:
  "own_notes (scan_deposit d s) = own_notes s"
  "own_notes (s \<lparr> sn_forced := f \<rparr>) = own_notes s"
  "own_notes (s \<lparr> sn_app_payments := p \<rparr>) = own_notes s"
  by (simp_all add: own_notes_def scan_deposit_def)

lemma app_outputs_push:
  "app_outputs_ok V (push_action a s) \<longleftrightarrow>
    map ap_amount (sn_app_payments s) = amounts_of V (filter (\<lambda>(a, n). sa_app_payment a \<noteq> None) (own_notes s))
      @ (case sa_ours a of None \<Rightarrow> [] | Some n \<Rightarrow> if sa_app_payment a = None then [] else [note_amount V n]) \<and>
    list_all (\<lambda>a. sa_app_payment a \<noteq> None \<longrightarrow> \<not> sa_anchor a) (sn_actions s) \<and>
    (sa_app_payment a \<noteq> None \<longrightarrow> \<not> sa_anchor a)"
  by (cases "sa_ours a") (auto simp: app_outputs_ok_def amounts_of_def)

lemma take_action_outputs:
  assumes "take_action V attributions lenient txid height pool i act out = Some (Ok out')"
    and "app_outputs_ok V out"
  shows "app_outputs_ok V out'"
  using assms
  by (auto simp: take_action_def Let_def app_outputs_push scan_deposit_def app_outputs_ok_def [of V out] own_notes_def amounts_of_def
      split: option.splits if_splits sum.splits bind_splits prod.splits)

lemma take_actions_outputs:
  assumes "take_actions V attributions lenient txid height pool acts i out = Some (Ok (j, out'))"
    and "app_outputs_ok V out"
  shows "app_outputs_ok V out'"
  using assms
proof (induction acts arbitrary: i out)
  case (Cons a acts)
  then show ?case
    by (auto simp: result_simps split: option.splits sum.splits bind_splits
        dest: take_action_outputs)
qed simp

lemma scan_inner_outputs:
  assumes "scan_inner V raw txid height attributions lenient = Some (Ok s)"
  shows "app_outputs_ok V s"
proof -
  have e: "app_outputs_ok V scanned_empty"
    by (simp add: app_outputs_ok_def scanned_empty_def own_notes_def map_filter_simps amounts_of_def)
  from assms obtain orchard ironwood i mid j where
    o: "take_actions V attributions lenient txid height Orchard orchard 0 scanned_empty = Some (Ok (i, mid))" and
    i: "take_actions V attributions lenient txid height Ironwood ironwood i mid = Some (Ok (j, s))"
    by (auto simp: scan_inner_def result_simps split: option.splits sum.splits bind_splits)
  show ?thesis by (rule take_actions_outputs [OF i take_actions_outputs [OF o e]])
qed

lemma mset_partition3:
  "(\<And>x. x \<in> set xs \<Longrightarrow> (if P x then 1 else 0) + (if Q x then 1 else 0) + (if R x then 1 else 0) = (1::nat)) \<Longrightarrow>
    mset (map f xs) = mset (map f (filter P xs)) + mset (map f (filter Q xs)) + mset (map f (filter R xs))"
proof (induction xs)
  case (Cons a xs)
  have "(if P a then 1 else 0) + (if Q a then 1 else 0) + (if R a then 1 else 0) = (1::nat)" by (rule Cons.prems) simp
  moreover have "mset (map f xs) = mset (map f (filter P xs)) + mset (map f (filter Q xs)) + mset (map f (filter R xs))"
    by (rule Cons.IH) (simp add: Cons.prems)
  ultimately show ?case by (auto split: if_splits)
qed simp

lemma ruled_deposits_amounts:
  "map od_amount (ruled_deposits V rule txid height own)
    = amounts_of V (filter (\<lambda>(a, n). \<exists>account. rule a = Some (Some account)) own)"
  by (induction own) (auto simp: ruled_deposits_def amounts_of_def map_filter_simps deposit_to_def split: option.splits)

lemma ruled_deposits_fields:
  "d \<in> set (ruled_deposits V (ruling ours attributed handed_out) txid height own) \<Longrightarrow>
    od_account d \<noteq> zeros 32 \<and> od_txid d = txid \<and> od_height d = height"
  by (auto simp: ruled_deposits_def List.map_filter_def deposit_to_def ruling_def nobody_held_def
      split: option.splits if_splits)

text \<open>One vault key for the witnesses: it reads every transaction as the same actions, and a note is its
  value and the address index it arrived at.\<close>

definition demo_vault :: "(u64 \<times> bytes) raw_action list \<Rightarrow> (u64 \<times> bytes) vault_keys" where
  "demo_vault acts = \<lparr> vk_read = (\<lambda>raw. Some (acts, [])), vk_value = fst, vk_index = (\<lambda>n. Some (snd n)), vk_sha256 = (\<lambda>b. b) \<rparr>"

definition demo_payment :: "bytes \<Rightarrow> (u64 \<times> bytes) raw_action" where
  "demo_payment memo = \<lparr> ra_cmx = [1], ra_nullifier = [2], ra_note = Some ((5, VAULT_INDEX), memo) \<rparr>"

section \<open>Properties\<close>

text \<open>C36: what \<open>classify_addressed\<close> decides is the table \<open>ruling\<close>, note by note. The address a note
  arrived at outranks its memo, a memo outranks change, change outranks the operator's attribution;
  evidence and application payments are never credited and the all-zero account is nobody. The first
  own note nobody can rule on stops the scan with its amount, and nothing is credited.\<close>

theorem classify_follows_the_table:
  "classify_addressed V s ours attributed txid height handed_out =
    (case List.find (\<lambda>(a, n). ruling ours attributed handed_out a = None) (own_notes s) of
       Some (a, n) \<Rightarrow> Err (note_amount V n)
     | None \<Rightarrow> Ok (ruled_deposits V (ruling ours attributed handed_out) txid height (own_notes s)))"
  unfolding classify_addressed_def classify_actions_rules own_notes_def Let_def by (simp split: option.split)

text \<open>C9: a scan accounts for every note once. In a transaction that scans and classifies, the amounts
  of our notes are exactly the amounts credited, the application payments surfaced, and the notes
  held without credit (evidence, change, top-ups): no note is credited twice, none that was surfaced
  as an application payment is credited, and none is lost.\<close>

theorem scan_accounts_for_every_note:
  assumes "scan_actions_lenient V raw txid height = Some (Ok s)"
    and "classify_addressed V s ours attributed txid height handed_out = Ok ds"
  shows "mset (amounts_of V (own_notes s)) = mset (map od_amount ds) + mset (map ap_amount (sn_app_payments s))
      + mset (amounts_of V (filter (\<lambda>(a, n). sa_app_payment a = None \<and> ruling ours attributed handed_out a = Some None) (own_notes s)))
    \<and> (\<forall>d \<in> set ds. od_account d \<noteq> zeros 32 \<and> od_txid d = txid \<and> od_height d = height)"
proof -
  let ?r = "ruling ours attributed handed_out"
  have ds: "ds = ruled_deposits V ?r txid height (own_notes s)" and none: "List.find (\<lambda>(a, n). ?r a = None) (own_notes s) = None"
    using assms(2) unfolding classify_follows_the_table by (auto split: option.splits)
  have fields: "\<forall>d \<in> set ds. od_account d \<noteq> zeros 32 \<and> od_txid d = txid \<and> od_height d = height"
    unfolding ds using ruled_deposits_fields by blast
  have app: "map ap_amount (sn_app_payments s) = amounts_of V (filter (\<lambda>(a, n). sa_app_payment a \<noteq> None) (own_notes s))"
    using scan_inner_outputs [OF assms(1) [unfolded scan_actions_lenient_def]] by (simp add: app_outputs_ok_def)
  have "mset (amounts_of V (own_notes s)) = mset (map od_amount ds) + mset (map ap_amount (sn_app_payments s))
      + mset (amounts_of V (filter (\<lambda>(a, n). sa_app_payment a = None \<and> ?r a = Some None) (own_notes s)))"
    unfolding app ds ruled_deposits_amounts amounts_of_def
  proof (rule mset_partition3, clarify)
    fix a n assume "(a, n) \<in> set (own_notes s)"
    with none have "?r a \<noteq> None" by (auto simp: find_None_iff)
    moreover have "sa_app_payment a \<noteq> None \<Longrightarrow> ?r a = Some None" by (simp add: ruling_def)
    ultimately show "(if \<exists>account. ?r a = Some (Some account) then 1 else 0) + (if sa_app_payment a \<noteq> None then 1 else 0)
        + (if sa_app_payment a = None \<and> ?r a = Some None then 1 else 0) = (1::nat)"
      by (cases "sa_app_payment a") auto
  qed
  with fields show ?thesis by blast
qed

definition paid_memo :: bytes where
  "paid_memo = encode (replicate 32 7)"

lemma paid_memo_facts:
  "decode paid_memo = Some (Ok (replicate 32 7))" "\<not> is_anchor paid_memo" "\<not> is_publication paid_memo"
  "\<not> is_ok (decode_app_payment paid_memo)" "\<not> has_app_payment_tag paid_memo" "forced_frame paid_memo = None"
  by code_simp+

lemma first_output [simp]: "checked_add (0 :: u32) 1 = Some 1"
  by (simp add: checked_add_def)

theorem scan_accounts_for_every_note_witness:
  "\<exists>s. scan_actions_lenient (demo_vault [demo_payment paid_memo]) [] (zeros 32) 9 = Some (Ok s) \<and>
    classify_addressed (demo_vault [demo_payment paid_memo]) s False None (zeros 32) 9 bm_empty
      = Ok [deposit_to (zeros 32) 9 (Fixed 50000000000) (replicate 32 7)] \<and>
    size (mset (amounts_of (demo_vault [demo_payment paid_memo]) (own_notes s))) = 1"
proof -
  let ?V = "demo_vault [demo_payment paid_memo]"
  obtain e where e: "decode_app_payment paid_memo = Err e"
    using paid_memo_facts(4) by (cases "decode_app_payment paid_memo") auto
  have z: "replicate 32 7 \<noteq> zeros 32" by code_simp
  obtain s where s: "scan_actions_lenient ?V [] (zeros 32) 9 = Some (Ok s)" "sn_app_payments s = []"
    "map sa_ours (sn_actions s) = [Some (5, VAULT_INDEX)]" "map sa_account (sn_actions s) = [Some (replicate 32 7)]"
    "map sa_to_index (sn_actions s) = [Some VAULT_INDEX]" "map sa_anchor (sn_actions s) = [False]"
    "map sa_app_payment (sn_actions s) = [None]" "map sa_app_reserved (sn_actions s) = [False]"
    by (simp add: scan_actions_lenient_def scan_inner_def take_action_def Let_def demo_vault_def demo_payment_def
        paid_memo_facts e push_action_def scanned_empty_def scan_deposit_def)
  then obtain a where a: "sn_actions s = [a]" by (cases "sn_actions s") auto
  have own: "own_notes s = [(a, (5, VAULT_INDEX))]" using s a by (simp add: own_notes_def map_filter_simps)
  have am: "note_amount ?V (5, VAULT_INDEX) = Fixed 50000000000"
    by (simp add: note_amount_def demo_vault_def ZAT_def)
  have c: "classify_addressed ?V s False None (zeros 32) 9 bm_empty
      = Ok [deposit_to (zeros 32) 9 (Fixed 50000000000) (replicate 32 7)]"
    using s a z am by (simp add: classify_addressed_def)
  have "filter (\<lambda>(a, n). sa_app_payment a = None \<and> ruling False None bm_empty a = Some None) (own_notes s) = []"
    unfolding own using s a z by (simp add: ruling_def address_owner_def nobody_held_def)
  then have "size (mset (amounts_of ?V (own_notes s))) = 1"
    using scan_accounts_for_every_note [OF s(1) c, THEN conjunct1] s(2) by (simp add: amounts_of_def)
  with s(1) c show ?thesis by blast
qed

definition crafted_memo :: bytes where
  "crafted_memo = memo_field (ascii ''ZEC1:0'' @ [0xC3, 0xA9] @ replicate 61 0x30)"

definition published_memo :: bytes where
  "published_memo = encode_publication (replicate 32 9)"

lemma crafted_memo_facts:
  "decode crafted_memo = None" "\<not> is_anchor crafted_memo" "\<not> is_publication crafted_memo"
  "\<not> is_ok (decode_app_payment crafted_memo)" "\<not> has_app_payment_tag crafted_memo" "forced_frame crafted_memo = None"
  by code_simp+


text \<open>A publication is reported as an anchor. A note whose memo publishes a digest is flagged
  \<open>anchor\<close> by the scan, although \<open>is_anchor\<close> refuses its memo, so a replica that asks for the vault's
  anchors is given the digest's bytes as one; nothing in the scan looks at who sent the note, so a
  stranger's note is taken for the vault's own self-send in the same way.\<close>

theorem publication_is_scanned_as_anchor:
  "\<exists>s. scan_actions_lenient (V \<lparr> vk_read := \<lambda>raw. Some ([act \<lparr> ra_note := Some (note, published_memo) \<rparr>], []) \<rparr>)
      raw txid height = Some (Ok s) \<and>
    map sa_anchor (sn_actions s) = [True] \<and> map sa_memo (sn_actions s) = [Some published_memo] \<and>
    \<not> is_anchor published_memo"
proof -
  have n: "\<not> is_anchor published_memo" "is_publication published_memo" by code_simp+
  show ?thesis
    by (simp add: scan_actions_lenient_def scan_inner_def take_action_def Let_def n push_action_def scanned_empty_def)
qed

end
