(* ===== verification/Feeding.thy ===== *)
theory Feeding
  imports Shielded
begin

text \<open>
  What \<open>feed_block\<close> of shielded.rs keeps of the commitment trees. The documented behaviour of the
  bridgetree crate is \<open>tree_laws\<close>: a tree is its leaves and a stack of checkpoints, each a number and
  the leaves it had.
\<close>

section \<open>The trees\<close>

definition tree_laws ::
  "('n, 't) note_lib \<Rightarrow> ('t \<Rightarrow> bytes list) \<Rightarrow> ('t \<Rightarrow> (u32 \<times> bytes list) list) \<Rightarrow> bool" where
  "tree_laws L leaves marks \<longleftrightarrow>
    (\<forall>x t. case tree_append L x t of
       Some t' \<Rightarrow> leaves t' = leaves t @ [x] \<and> marks t' = marks t
     | None \<Rightarrow> 2 ^ DEPTH \<le> length (leaves t)) \<and>
    (\<forall>t. leaves (fst (tree_mark L t)) = leaves t \<and> marks (fst (tree_mark L t)) = marks t) \<and>
    (\<forall>i t. list_all (\<lambda>c. fst c < i) (marks t) \<longrightarrow> leaves (tree_checkpoint L i t) = leaves t \<and>
       (\<exists>older. marks (tree_checkpoint L i t) = (i, leaves t) # older)) \<and>
    (\<forall>t c older. marks t = c # older \<longrightarrow>
       (\<exists>t'. tree_rewind L t = Some t' \<and> leaves t' = snd c \<and> marks t' = older)) \<and>
    (\<forall>t. tree_position L t = (if leaves t = [] then None else Some (of_nat (length (leaves t) - 1))))"

lemma tree_append_Some:
  assumes "tree_laws L leaves marks" and "tree_append L x t = Some t'"
  shows "leaves t' = leaves t @ [x]" "marks t' = marks t"
  using assms by (auto simp: tree_laws_def dest!: spec [of _ x] split: option.splits)

lemma tree_append_None:
  assumes "tree_laws L leaves marks" and "tree_append L x t = None"
  shows "2 ^ DEPTH \<le> length (leaves t)"
proof -
  from assms(1) have "case tree_append L x t of Some t' \<Rightarrow> leaves t' = leaves t @ [x] \<and> marks t' = marks t
     | None \<Rightarrow> 2 ^ DEPTH \<le> length (leaves t)" unfolding tree_laws_def by blast
  with assms(2) show ?thesis by simp
qed

lemma tree_mark_keeps:
  assumes "tree_laws L leaves marks" and "tree_mark L t = (t', p)"
  shows "leaves t' = leaves t" "marks t' = marks t"
proof -
  have "leaves (fst (tree_mark L t)) = leaves t \<and> marks (fst (tree_mark L t)) = marks t"
    using assms(1) unfolding tree_laws_def by blast
  then show "leaves t' = leaves t" "marks t' = marks t" using assms(2) by auto
qed

lemma tree_checkpoint_pushes:
  assumes "tree_laws L leaves marks" and "list_all (\<lambda>c. fst c < i) (marks t)"
  shows "leaves (tree_checkpoint L i t) = leaves t" "\<exists>older. marks (tree_checkpoint L i t) = (i, leaves t) # older"
  using assms unfolding tree_laws_def by blast+

lemma tree_rewind_pops:
  assumes "tree_laws L leaves marks" and "marks t = c # older"
  shows "\<exists>t'. tree_rewind L t = Some t' \<and> leaves t' = snd c"
  using assms unfolding tree_laws_def by blast

lemma tree_position_last:
  "tree_laws L leaves marks \<Longrightarrow> tree_position L t = (if leaves t = [] then None else Some (of_nat (length (leaves t) - 1)))"
  unfolding tree_laws_def by blast

section \<open>The stores\<close>

definition store_leaves :: "('t \<Rightarrow> bytes list) \<Rightarrow> ('n, 't) note_store \<Rightarrow> bytes list" where
  "store_leaves leaves s = leaves (ns_tree s)"

text \<open>\<open>appended\<close> counts the leaves.\<close>

definition counted :: "('t \<Rightarrow> bytes list) \<Rightarrow> ('n, 't) note_store \<Rightarrow> bool" where
  "counted leaves s \<longleftrightarrow> ns_appended s = of_nat (length (store_leaves leaves s))"

lemma pool_of_update [simp]: "pool_of p (pool_update q f st) = (if p = q then f (pool_of p st) else pool_of p st)"
  by (cases p; cases q) (simp_all add: pool_of_def pool_update_def)

lemma pool_of_both [simp]: "pool_of p (both_pools f st) = f (pool_of p st)"
  by (cases p) (simp_all add: pool_of_def both_pools_def)

lemma spend_nullifier_keeps [simp]:
  "ns_tree (fst (spend_nullifier L nf s)) = ns_tree s" "ns_appended (fst (spend_nullifier L nf s)) = ns_appended s"
  "ns_synced_to (fst (spend_nullifier L nf s)) = ns_synced_to s"
  by (simp_all add: spend_nullifier_def Let_def split: option.split)

lemma apply_spends_keeps [simp]:
  "ns_tree (pool_of p (apply_spends L acts st)) = ns_tree (pool_of p st)"
  "ns_appended (pool_of p (apply_spends L acts st)) = ns_appended (pool_of p st)"
  "ns_synced_to (pool_of p (apply_spends L acts st)) = ns_synced_to (pool_of p st)"
  unfolding apply_spends_def by (induction acts arbitrary: st) simp_all

lemma append_action_keeps:
  assumes "tree_laws L leaves marks"
  shows "marks (ns_tree (append_action L h txid a s)) = marks (ns_tree s)"
    "ns_synced_to (append_action L h txid a s) = ns_synced_to s"
  using tree_append_Some(2) [OF assms] tree_mark_keeps(2) [OF assms]
  by (auto simp: append_action_def store_append_def hold_def Let_def split: option.split prod.split)

lemma append_action_leaves:
  assumes laws: "tree_laws L leaves marks" and "length (store_leaves leaves s) < 2 ^ DEPTH" and "counted leaves s"
  shows "store_leaves leaves (append_action L h txid a s) = store_leaves leaves s @ [sa_cmx a]"
    "counted leaves (append_action L h txid a s)"
proof -
  from assms(2) tree_append_None [OF laws] obtain t where t: "tree_append L (sa_cmx a) (ns_tree s) = Some t"
    unfolding store_leaves_def by (metis not_le option.exhaust)
  note f = tree_append_Some(1) [OF laws t] tree_mark_keeps(1) [OF laws]
  have "store_leaves leaves (append_action L h txid a s) = store_leaves leaves s @ [sa_cmx a] \<and>
    ns_appended (append_action L h txid a s) = ns_appended s + 1"
    using f by (auto simp: append_action_def store_append_def hold_def t store_leaves_def split: option.split prod.split)
  with assms(3) show "store_leaves leaves (append_action L h txid a s) = store_leaves leaves s @ [sa_cmx a]"
    "counted leaves (append_action L h txid a s)" by (simp_all add: counted_def)
qed

lemma apply_appends_keeps:
  assumes "tree_laws L leaves marks"
  shows "marks (ns_tree (pool_of p (apply_appends L h txid acts st))) = marks (ns_tree (pool_of p st))"
    "ns_synced_to (pool_of p (apply_appends L h txid acts st)) = ns_synced_to (pool_of p st)"
  unfolding apply_appends_def using append_action_keeps [OF assms] by (induction acts arbitrary: st) simp_all

definition pool_cmxs :: "value_pool \<Rightarrow> 'n scanned_action list \<Rightarrow> bytes list" where
  "pool_cmxs p acts = map sa_cmx (filter (\<lambda>a. sa_pool a = p) acts)"

lemma apply_appends_leaves:
  assumes laws: "tree_laws L leaves marks"
  shows "length (store_leaves leaves (pool_of p st)) + length (pool_cmxs p acts) \<le> 2 ^ DEPTH \<Longrightarrow> counted leaves (pool_of p st) \<Longrightarrow>
    store_leaves leaves (pool_of p (apply_appends L h txid acts st)) = store_leaves leaves (pool_of p st) @ pool_cmxs p acts \<and>
    counted leaves (pool_of p (apply_appends L h txid acts st))"
proof (induction acts arbitrary: st)
  case Nil
  then show ?case by (simp add: apply_appends_def pool_cmxs_def)
next
  case (Cons a acts)
  let ?st = "pool_update (sa_pool a) (append_action L h txid a) st"
  have e: "apply_appends L h txid (a # acts) st = apply_appends L h txid acts ?st" by (simp add: apply_appends_def)
  show ?case
  proof (cases "sa_pool a = p")
    case True
    then have "length (store_leaves leaves (pool_of p st)) < 2 ^ DEPTH" using Cons.prems(1) by (simp add: pool_cmxs_def)
    from append_action_leaves [OF laws this Cons.prems(2)] True Cons.prems(1) Cons.IH [of ?st]
    show ?thesis unfolding e by (simp add: pool_cmxs_def)
  next
    case False
    with Cons.prems Cons.IH [of ?st] show ?thesis unfolding e by (simp add: pool_cmxs_def)
  qed
qed

section \<open>One block\<close>

text \<open>The transactions of a block that read, in order, and what they commit to in one pool.\<close>

definition scanned_tx :: "'n vault_keys \<Rightarrow> node \<Rightarrow> u64 \<Rightarrow> bytes \<Rightarrow> 'n scanned_action list" where
  "scanned_tx V N height hex = (case (nd_raw N hex, txid_bytes hex) of
     (Inr raw, Some txid) \<Rightarrow> (case scan_actions_lenient V raw txid height of
        Some (Inr s) \<Rightarrow> sn_actions s | _ \<Rightarrow> [])
   | _ \<Rightarrow> [])"

definition block_cmxs :: "'n vault_keys \<Rightarrow> node \<Rightarrow> u64 \<Rightarrow> value_pool \<Rightarrow> bytes list" where
  "block_cmxs V N height p = (case nd_block_txids N height of
     Inr hexes \<Rightarrow> pool_cmxs p (concat (map (scanned_tx V N height) hexes)) | Inl _ \<Rightarrow> [])"

lemma pool_cmxs_append: "pool_cmxs p (xs @ ys) = pool_cmxs p xs @ pool_cmxs p ys"
  by (simp add: pool_cmxs_def)

lemma feed_txs_keeps:
  assumes laws: "tree_laws L leaves marks"
  shows "feed_txs L V N attributions height hexes ds fs st = Some (r, st') \<Longrightarrow>
    marks (ns_tree (pool_of p st')) = marks (ns_tree (pool_of p st)) \<and>
    ns_synced_to (pool_of p st') = ns_synced_to (pool_of p st)"
proof (induction hexes arbitrary: ds fs st)
  case (Cons hex hexes)
  then show ?case
    by (auto simp: Let_def apply_appends_keeps [OF laws] split: sum.splits option.splits bind_splits)
qed simp

lemma feed_txs_leaves:
  assumes laws: "tree_laws L leaves marks"
  shows "feed_txs L V N attributions height hexes ds fs st = Some (Ok d, st') \<Longrightarrow>
    length (store_leaves leaves (pool_of p st)) + length (pool_cmxs p (concat (map (scanned_tx V N height) hexes))) \<le> 2 ^ DEPTH \<Longrightarrow>
    counted leaves (pool_of p st) \<Longrightarrow>
    store_leaves leaves (pool_of p st') = store_leaves leaves (pool_of p st) @ pool_cmxs p (concat (map (scanned_tx V N height) hexes)) \<and>
    counted leaves (pool_of p st')"
proof (induction hexes arbitrary: ds fs st)
  case Nil
  then show ?case by (simp add: pool_cmxs_def)
next
  case (Cons hex hexes)
  have same: "store_leaves leaves (pool_of p (apply_spends L acts st)) = store_leaves leaves (pool_of p st)"
    "counted leaves (pool_of p (apply_spends L acts st)) = counted leaves (pool_of p st)" for acts
    by (simp_all add: store_leaves_def counted_def)
  show ?case
  proof (cases "scanned_tx V N height hex = [] \<and> (\<exists>ds' fs'. feed_txs L V N attributions height hexes ds' fs' st = Some (Ok d, st'))")
    case True
    with Cons.IH Cons.prems(2,3) show ?thesis by (auto simp: pool_cmxs_append)
  next
    case False
    then obtain acts ds' fs' txid where s: "scanned_tx V N height hex = acts"
      "feed_txs L V N attributions height hexes ds' fs'
        (apply_appends L height txid acts (apply_spends L acts st)) = Some (Ok d, st')"
      using Cons.prems(1)
      by (auto simp: Let_def scanned_tx_def split: sum.splits option.splits bind_splits)
    have a: "store_leaves leaves (pool_of p (apply_appends L height txid acts (apply_spends L acts st)))
        = store_leaves leaves (pool_of p st) @ pool_cmxs p acts \<and>
      counted leaves (pool_of p (apply_appends L height txid acts (apply_spends L acts st)))"
      using apply_appends_leaves [OF laws, of p "apply_spends L acts st" acts height txid] Cons.prems(2,3)
      by (simp add: same s(1) pool_cmxs_append)
    from Cons.IH [OF s(2)] Cons.prems(2) show ?thesis
      by (simp add: a s(1) pool_cmxs_append)
  qed
qed

definition already_fed :: "u64 \<Rightarrow> ('n, 't) pool_stores \<Rightarrow> bool" where
  "already_fed height st \<longleftrightarrow> (\<exists>h. stores_synced_to st = Some h \<and> height \<le> h)"

definition block_body ::
  "('n, 't) note_lib \<Rightarrow> 'n vault_keys \<Rightarrow> node \<Rightarrow> (txid, account_id) bmap \<Rightarrow> u64 \<Rightarrow> ('n, 't) pool_stores
    \<Rightarrow> ((scan_range_error + observed_deposit list \<times> forced_sighting list) \<times> ('n, 't) pool_stores) run" where
  "block_body L V N attributions height st = (case nd_block_txids N height of
     Inl e \<Rightarrow> Some (Err (ScanRpc e), st)
   | Inr hexes \<Rightarrow> feed_txs L V N attributions height hexes [] [] st)"

lemma feed_block_eq:
  "feed_block L V N attributions height st =
    (if already_fed height st then Some (Ok ([], []), st)
     else map_option (\<lambda>(r, st2). case r of
        Inr d \<Rightarrow> (Ok d, both_pools (finish_block height) st2)
      | Inl e \<Rightarrow> (Err e, both_pools (\<lambda>s. fst (rewind L s)) st2))
      (block_body L V N attributions height (both_pools (begin_block L height) st)))"
proof -
  have f: "(case (ns_synced_to (ps_orchard st), ns_synced_to (ps_ironwood st)) of
      (Some a, Some b) \<Rightarrow> height \<le> min a b | _ \<Rightarrow> False) = already_fed height st"
    by (auto simp: already_fed_def stores_synced_to_def split: option.split)
  show ?thesis
    unfolding feed_block_def f Let_def block_body_def [symmetric]
    by (auto simp: map_option_case split: option.split prod.split sum.split bind_split)
qed

lemma block_body_keeps:
  assumes "tree_laws L leaves marks" and "block_body L V N attributions height st = Some (r, st')"
  shows "marks (ns_tree (pool_of p st')) = marks (ns_tree (pool_of p st))"
    "ns_synced_to (pool_of p st') = ns_synced_to (pool_of p st)"
  using assms(2) feed_txs_keeps [OF assms(1)] by (auto simp: block_body_def split: sum.splits)

lemma block_body_leaves:
  assumes "tree_laws L leaves marks" and "block_body L V N attributions height st = Some (Ok d, st')"
    and "length (store_leaves leaves (pool_of p st)) + length (block_cmxs V N height p) \<le> 2 ^ DEPTH"
    and "counted leaves (pool_of p st)"
  shows "store_leaves leaves (pool_of p st') = store_leaves leaves (pool_of p st) @ block_cmxs V N height p \<and>
    counted leaves (pool_of p st')"
  using assms(2-4) feed_txs_leaves [OF assms(1)] by (auto simp: block_body_def block_cmxs_def split: sum.splits)

text \<open>Checkpoints are numbered by height, below the one that begins now.\<close>

definition marks_below :: "('t \<Rightarrow> (u32 \<times> bytes list) list) \<Rightarrow> u64 \<Rightarrow> ('n, 't) note_store \<Rightarrow> bool" where
  "marks_below marks height s \<longleftrightarrow> list_all (\<lambda>c. fst c < ucast height) (marks (ns_tree s))"

lemma begun:
  assumes "tree_laws L leaves marks" and "marks_below marks height s"
  shows "store_leaves leaves (begin_block L height s) = store_leaves leaves s"
    "counted leaves (begin_block L height s) = counted leaves s"
    "\<exists>older. marks (ns_tree (begin_block L height s)) = (ucast height, store_leaves leaves s) # older"
  using tree_checkpoint_pushes [OF assms(1) assms(2) [unfolded marks_below_def]]
  by (simp_all add: begin_block_def store_leaves_def counted_def)

lemma rewound:
  assumes laws: "tree_laws L leaves marks" and "marks (ns_tree s) = (i, ls) # older" and "length ls \<le> 2 ^ DEPTH"
  shows "store_leaves leaves (fst (rewind L s)) = ls" "counted leaves (fst (rewind L s))"
    "ns_synced_to (fst (rewind L s)) = ns_synced_to s"
proof -
  from tree_rewind_pops [OF laws assms(2)] obtain t where t: "tree_rewind L (ns_tree s) = Some t" "leaves t = ls" by auto
  have "(of_nat (length ls - 1) :: u64) + 1 = of_nat (length ls)" if "ls \<noteq> []"
    using that by (cases ls) simp_all
  then show "store_leaves leaves (fst (rewind L s)) = ls" "counted leaves (fst (rewind L s))"
    "ns_synced_to (fst (rewind L s)) = ns_synced_to s"
    by (auto simp: rewind_def t Let_def store_leaves_def counted_def tree_position_last [OF laws])
qed

section \<open>Properties\<close>

text \<open>C11: a block is in both trees or in neither. A block that is fed appends, in each pool, exactly the
  commitments of the block's readable transactions in their order, and both stores are complete to
  it; a block that fails leaves the leaves, the count and the height of both stores as they were. So a
  tree never holds half a block, and the positions of later commitments are the chain's.\<close>

theorem feed_block_all_or_nothing:
  assumes "tree_laws L leaves marks" and "feed_block L V N attributions height st = Some (r, st')"
    and "\<not> already_fed height st" and "marks_below marks height (pool_of p st)" and "counted leaves (pool_of p st)"
    and "length (store_leaves leaves (pool_of p st)) + length (block_cmxs V N height p) \<le> 2 ^ DEPTH"
  shows "counted leaves (pool_of p st') \<and>
    (case r of
       Inr d \<Rightarrow> store_leaves leaves (pool_of p st') = store_leaves leaves (pool_of p st) @ block_cmxs V N height p \<and>
         ns_synced_to (pool_of p st') = Some height
     | Inl e \<Rightarrow> store_leaves leaves (pool_of p st') = store_leaves leaves (pool_of p st) \<and>
         ns_synced_to (pool_of p st') = ns_synced_to (pool_of p st))"
proof -
  let ?st1 = "both_pools (begin_block L height) st"
  note b = begun [OF assms(1,4)]
  from assms(2,3) obtain r2 st2 where body: "block_body L V N attributions height ?st1 = Some (r2, st2)"
    and res: "(r, st') = (case r2 of Inr d \<Rightarrow> (Ok d, both_pools (finish_block height) st2)
      | Inl e \<Rightarrow> (Err e, both_pools (\<lambda>s. fst (rewind L s)) st2))"
    unfolding feed_block_eq by auto
  note k = block_body_keeps [OF assms(1) body, of p]
  show ?thesis
  proof (cases r2)
    case (Inr d)
    with block_body_leaves [OF assms(1) body [unfolded Inr], of p] assms(5,6) b res show ?thesis
      by (simp add: finish_block_def store_leaves_def counted_def)
  next
    case (Inl e)
    from b(3) k(1) obtain older where "marks (ns_tree (pool_of p st2)) = (ucast height, store_leaves leaves (pool_of p st)) # older"
      by auto
    from rewound [OF assms(1) this] assms(6) k(2) Inl res show ?thesis by (simp add: begin_block_def)
  qed
qed

definition demo_stores :: "u64 \<Rightarrow> u64 \<Rightarrow> (u64 \<times> bytes, demo_tree) pool_stores" where
  "demo_stores a b = \<lparr> ps_orchard = store_empty_at demo_notes a, ps_ironwood = store_empty_at demo_notes b \<rparr>"

text \<open>A node with one block, of transactions whose first hex digit says what they are.\<close>

definition demo_hex :: "byte \<Rightarrow> bytes" where
  "demo_hex c = c # replicate 63 0x30"

definition demo_node :: "bytes list \<Rightarrow> node" where
  "demo_node hexes = \<lparr> nd_block_count = Ok 8, nd_block_txids = (\<lambda>h. Ok (if h = 8 then hexes else [])),
     nd_raw = (\<lambda>hex. Ok (take 1 hex)), nd_tree_state = (\<lambda>h p. Err NonIntegerAmount) \<rparr>"

definition blank_memo :: bytes where
  "blank_memo = zeros 512"

lemma blank_memo_facts:
  "\<not> is_anchor blank_memo" "\<not> is_publication blank_memo" "\<not> is_ok (decode_app_payment blank_memo)"
  "\<not> has_app_payment_tag blank_memo" "forced_frame blank_memo = None"
  "case decode blank_memo of Some (Inl e) \<Rightarrow> True | _ \<Rightarrow> False"
  by code_simp+

text \<open>Transaction 0 pays no one we know, 1 spends the note with nullifier \<open>[2]\<close>, 2 pays us and says nothing.\<close>

definition demo_reader :: "(u64 \<times> bytes) vault_keys" where
  "demo_reader = demo_vault [] \<lparr> vk_read := \<lambda>raw.
     if raw = [0x30] then Some ([\<lparr> ra_cmx = [7], ra_nullifier = [8], ra_note = None \<rparr>], [])
     else if raw = [0x31] then Some ([\<lparr> ra_cmx = [3], ra_nullifier = [2], ra_note = None \<rparr>], [])
     else Some ([\<lparr> ra_cmx = [4], ra_nullifier = [5], ra_note = Some ((6, VAULT_INDEX), blank_memo) \<rparr>], []) \<rparr>"

lemma demo_txids: "txid_bytes (demo_hex 0x30) \<noteq> None" "txid_bytes (demo_hex 0x31) \<noteq> None" "txid_bytes (demo_hex 0x32) \<noteq> None"
  by code_simp+

lemma demo_reader_scans:
  "scan_actions_lenient demo_reader [0x30] txid height = Some (Ok (scanned_empty \<lparr> sn_actions := [\<lparr> sa_pool = Orchard, sa_cmx = [7],
     sa_nullifier = [8], sa_ours = None, sa_account = None, sa_memo = None, sa_to_index = None, sa_anchor = False,
     sa_forced = None, sa_app_payment = None, sa_app_reserved = False \<rparr>] \<rparr>))"
  "scan_actions_lenient demo_reader [0x31] txid height = Some (Ok (scanned_empty \<lparr> sn_actions := [\<lparr> sa_pool = Orchard, sa_cmx = [3],
     sa_nullifier = [2], sa_ours = None, sa_account = None, sa_memo = None, sa_to_index = None, sa_anchor = False,
     sa_forced = None, sa_app_payment = None, sa_app_reserved = False \<rparr>] \<rparr>))"
  "scan_actions_lenient demo_reader [0x32] txid height = Some (Ok (scanned_empty \<lparr> sn_actions := [\<lparr> sa_pool = Orchard, sa_cmx = [4],
     sa_nullifier = [5], sa_ours = Some (6, VAULT_INDEX), sa_account = None, sa_memo = Some blank_memo,
     sa_to_index = Some VAULT_INDEX, sa_anchor = False, sa_forced = None, sa_app_payment = None, sa_app_reserved = False \<rparr>] \<rparr>))"
proof -
  obtain e where e: "decode_app_payment blank_memo = Err e" using blank_memo_facts(3) by (cases "decode_app_payment blank_memo") auto
  obtain d where d: "decode blank_memo = Some (Err d)" using blank_memo_facts(6) by (auto split: option.splits sum.splits)
  show "scan_actions_lenient demo_reader [0x30] txid height = Some (Ok (scanned_empty \<lparr> sn_actions := [\<lparr> sa_pool = Orchard, sa_cmx = [7],
     sa_nullifier = [8], sa_ours = None, sa_account = None, sa_memo = None, sa_to_index = None, sa_anchor = False,
     sa_forced = None, sa_app_payment = None, sa_app_reserved = False \<rparr>] \<rparr>))"
  "scan_actions_lenient demo_reader [0x31] txid height = Some (Ok (scanned_empty \<lparr> sn_actions := [\<lparr> sa_pool = Orchard, sa_cmx = [3],
     sa_nullifier = [2], sa_ours = None, sa_account = None, sa_memo = None, sa_to_index = None, sa_anchor = False,
     sa_forced = None, sa_app_payment = None, sa_app_reserved = False \<rparr>] \<rparr>))"
  "scan_actions_lenient demo_reader [0x32] txid height = Some (Ok (scanned_empty \<lparr> sn_actions := [\<lparr> sa_pool = Orchard, sa_cmx = [4],
     sa_nullifier = [5], sa_ours = Some (6, VAULT_INDEX), sa_account = None, sa_memo = Some blank_memo,
     sa_to_index = Some VAULT_INDEX, sa_anchor = False, sa_forced = None, sa_app_payment = None, sa_app_reserved = False \<rparr>] \<rparr>))"
    by (simp_all add: scan_actions_lenient_def scan_inner_def take_action_def Let_def demo_reader_def demo_vault_def
        blank_memo_facts e d push_action_def scanned_empty_def)
qed

lemma demo_tree_laws: "tree_laws demo_notes fst snd"
  by (simp add: tree_laws_def demo_notes_def)

lemma demo_raw [simp]: "nd_raw (demo_node hexes) (demo_hex c) = Ok [c]"
  by (simp add: demo_node_def demo_hex_def)

lemma demo_block [simp]: "nd_block_txids (demo_node hexes) 8 = Ok hexes"
  by (simp add: demo_node_def)

lemmas demo_feed = feed_block_def Let_def demo_stores_def spends_ours_def apply_spends_def apply_appends_def
  append_action_def store_append_def both_pools_def pool_update_def pool_of_def classify_def classify_addressed_def
  begin_block_def finish_block_def spend_nullifier_def holds_nullifier_def with_nullifier_def hold_def demo_reader_scans
  store_empty_at_def store_new_def demo_notes_def scanned_empty_def VAULT_INDEX_def rewind_def

theorem feed_block_all_or_nothing_witness:
  "\<exists>d st'. feed_block demo_notes demo_reader (demo_node [demo_hex 0x30]) bm_empty 8 (demo_stores 7 7) = Some (Ok d, st') \<and>
    store_leaves fst (ps_orchard st') = [[7]] \<and> ns_synced_to (ps_orchard st') = Some 8"
proof -
  obtain t where t: "txid_bytes (demo_hex 0x30) = Some t" using demo_txids by blast
  obtain d st' where f: "feed_block demo_notes demo_reader (demo_node [demo_hex 0x30]) bm_empty 8 (demo_stores 7 7) = Some (Ok d, st')"
    by (simp add: demo_feed t)
  have b: "block_cmxs demo_reader (demo_node [demo_hex 0x30]) 8 Orchard = [[7]]"
    by (simp add: block_cmxs_def scanned_tx_def t demo_reader_scans pool_cmxs_def scanned_empty_def)
  have l: "store_leaves fst (pool_of Orchard (demo_stores 7 7)) = []"
    by (simp add: demo_feed store_leaves_def)
  have "store_leaves fst (pool_of Orchard st') = [[7]] \<and> ns_synced_to (pool_of Orchard st') = Some 8"
    using feed_block_all_or_nothing [OF demo_tree_laws f, of Orchard]
    by (simp add: b l already_fed_def stores_synced_to_def marks_below_def counted_def DEPTH_def)
      (simp add: demo_feed)
  with f show ?thesis by (simp add: pool_of_def)
qed

text \<open>A failed block still forgets the notes it saw spent. \<open>feed_block\<close> says it completes a block or
  rewinds it, but the rewind restores only the tree: when a later transaction of the block cannot be
  attributed, the notes an earlier one spent stay out of the store. Here the block spends the one
  note held, then pays us without a memo; the pass is refused with that payment's amount and the
  tree is as before, yet the store holds nothing. If the block is then reorganised away the vault still
  owns the note, and no payout can select it.\<close>

theorem failed_block_forgets_spent_notes:
  "let s = hold (5, [2]) 0 7 (zeros 32) (fst (store_append demo_notes [9] True (store_empty_at demo_notes 7)));
       st = \<lparr> ps_orchard = s, ps_ironwood = store_empty_at demo_notes 7 \<rparr>
   in \<exists>st'. feed_block demo_notes demo_reader (demo_node [demo_hex 0x31, demo_hex 0x32]) bm_empty 8 st
        = Some (Err (Unattributable 8 (Fixed 60000000000)), st') \<and>
      store_leaves fst (ps_orchard st') = store_leaves fst (ps_orchard st) \<and>
      ns_synced_to (ps_orchard st') = Some 7 \<and>
      bm_values (ns_held (ps_orchard st)) \<noteq> [] \<and>
      ns_held (ps_orchard st') = [] \<and> ns_in_flight (ps_orchard st') = []"
proof -
  obtain t where t: "txid_bytes (demo_hex 0x31) = Some t" using demo_txids by blast
  obtain u where u: "txid_bytes (demo_hex 0x32) = Some u" using demo_txids by blast
  have a: "note_amount demo_reader (6, zeros 11) = Fixed 60000000000"
    by (simp add: note_amount_def demo_reader_def demo_vault_def ZAT_def)
  show ?thesis
    by (simp add: demo_feed t u a store_leaves_def bm_empty_def bm_get_def bm_values_def bm_remove_def bm_retain_def
        bs_insert_def insort_insert_key_def)
qed

text \<open>A block is appended once only while the two stores are level. Whether a block is already in is
  read from the lower of the two heights, so a store that is ahead of the other is fed the same block
  again: here both stores take block 8, the Ironwood store is then one that was saved a block earlier,
  and the next pass appends block 8's commitment to the Orchard tree a second time. The doc comment of
  \<open>with_notes\<close> promises a block is appended once however many times it is read.\<close>

theorem uneven_stores_append_a_block_twice:
  "\<exists>d st1 st2. feed_block demo_notes demo_reader (demo_node [demo_hex 0x30]) bm_empty 8 (demo_stores 7 7) = Some (Ok d, st1) \<and>
    feed_block demo_notes demo_reader (demo_node [demo_hex 0x30]) bm_empty 8
      (st1 \<lparr> ps_ironwood := ps_ironwood (demo_stores 7 7) \<rparr>) = Some (Ok d, st2) \<and>
    store_leaves fst (ps_orchard st1) = [[7]] \<and> ns_synced_to (ps_orchard st1) = Some 8 \<and>
    store_leaves fst (ps_orchard st2) = [[7], [7]]"
proof -
  obtain t where t: "txid_bytes (demo_hex 0x30) = Some t" using demo_txids by blast
  show ?thesis by (simp add: demo_feed t store_leaves_def bm_empty_def bm_get_def bm_values_def)
qed

end
