(* ===== verification/Scan_Range.thy ===== *)
theory Scan_Range
  imports Feeding
begin

text \<open>
  shielded.rs: the scanner over a range of blocks. \<open>scan_observe\<close> is what the watcher polls; the
  replica's views (\<open>scan_forced\<close>, \<open>scan_app_payments\<close>, \<open>scan_anchors\<close>) read the same blocks;
  \<open>sync_notes\<close> and \<open>reseed\<close> feed the trees alone. A scanner without note trees has the stores \<open>None\<close>.
\<close>

section \<open>The window of one pass\<close>

text \<open>\<open>start.saturating_add(self.max_blocks).saturating_sub(1)\<close>, cut at a limit.\<close>

definition window_end :: "scanner \<Rightarrow> u64 \<Rightarrow> u64 \<Rightarrow> u64" where
  "window_end sc limit start = min limit (saturating_sub (saturating_add start (sr_max_blocks sc)) 1)"

definition with_tree_lag :: "u64 \<Rightarrow> scanner \<Rightarrow> scanner" where
  "with_tree_lag blocks sc = sc \<lparr> sr_tree_lag := blocks \<rparr>"

definition with_attributions :: "(txid, account_id) bmap \<Rightarrow> scanner \<Rightarrow> scanner" where
  "with_attributions attributions sc = sc \<lparr> sr_attributions := attributions \<rparr>"

definition with_addresses :: "(bytes, account_id) bmap \<Rightarrow> scanner \<Rightarrow> scanner" where
  "with_addresses addresses sc = sc \<lparr> sr_addresses := addresses \<rparr>"

section \<open>Observing\<close>

text \<open>Where the trees go on from: \<open>synced_to().map(|h| h + 1).unwrap_or(from).max(from)\<close>.\<close>

definition tree_start :: "scanner \<Rightarrow> ('n, 't) pool_stores \<Rightarrow> u64" where
  "tree_start sc st = max (case stores_synced_to st of Some h \<Rightarrow> h + 1 | None \<Rightarrow> sr_from_height sc) (sr_from_height sc)"

fun feed_heights ::
  "('n, 't) note_lib \<Rightarrow> 'n vault_keys \<Rightarrow> node \<Rightarrow> (txid, account_id) bmap \<Rightarrow> u64 list
    \<Rightarrow> observed_deposit list \<Rightarrow> forced_sighting list \<Rightarrow> ('n, 't) pool_stores
    \<Rightarrow> ((scan_range_error + observed_deposit list \<times> forced_sighting list) \<times> ('n, 't) pool_stores) run" where
  "feed_heights L V N attributions [] found forced st = Some (Ok (found, forced), st)"
| "feed_heights L V N attributions (height # hs) found forced st = do {
     (r, st') \<leftarrow> feed_block L V N attributions height st;
     (case r of
        Inl e \<Rightarrow> Some (Err e, st')
      | Inr (d, f) \<Rightarrow> feed_heights L V N attributions hs (found @ d) (forced @ f) st')
   }"

text \<open>A block read for its deposits only.\<close>

fun scan_txs ::
  "('n, 't) note_lib \<Rightarrow> 'n vault_keys \<Rightarrow> node \<Rightarrow> scanner \<Rightarrow> ('n, 't) pool_stores option \<Rightarrow> u64 \<Rightarrow> bytes list
    \<Rightarrow> observed_deposit list \<Rightarrow> forced_sighting list
    \<Rightarrow> (scan_range_error + observed_deposit list \<times> forced_sighting list) run" where
  "scan_txs L V N sc st height [] found forced = Some (Ok (found, forced))"
| "scan_txs L V N sc st height (hex # hexes) found forced =
    (case nd_raw N hex of
       Inl e \<Rightarrow> Some (Err (ScanRpc e))
     | Inr raw \<Rightarrow>
       (case txid_bytes hex of
          None \<Rightarrow> scan_txs L V N sc st height hexes found forced
        | Some txid \<Rightarrow>
          Option.bind (scan_actions_lenient V raw txid height) (\<lambda>r.
            case r of
              Inl _ \<Rightarrow> scan_txs L V N sc st height hexes found forced
            | Inr scanned \<Rightarrow>
              (case classify_addressed V scanned (case st of Some s \<Rightarrow> spends_ours L s scanned | None \<Rightarrow> False)
                 (bm_get (sr_attributions sc) txid) txid height (sr_addresses sc) of
                 Inl amount \<Rightarrow> Some (Err (Unattributable height amount))
               | Inr ds \<Rightarrow> scan_txs L V N sc st height hexes (found @ ds) (forced @ sn_forced scanned)))))"

fun scan_heights ::
  "('n, 't) note_lib \<Rightarrow> 'n vault_keys \<Rightarrow> node \<Rightarrow> scanner \<Rightarrow> ('n, 't) pool_stores option \<Rightarrow> (u64 \<times> u64) option
    \<Rightarrow> u64 list \<Rightarrow> observed_deposit list \<Rightarrow> forced_sighting list
    \<Rightarrow> (scan_range_error + observed_deposit list \<times> forced_sighting list) run" where
  "scan_heights L V N sc st fed [] found forced = Some (Ok (found, forced))"
| "scan_heights L V N sc st fed (height # hs) found forced =
    (if (case fed of Some (a, b) \<Rightarrow> a \<le> height \<and> height \<le> b | None \<Rightarrow> False)
     then scan_heights L V N sc st fed hs found forced
     else (case nd_block_txids N height of
        Inl e \<Rightarrow> Some (Err (ScanRpc e))
      | Inr hexes \<Rightarrow> do {
          r \<leftarrow> scan_txs L V N sc st height hexes found forced;
          (case r of
             Inl e \<Rightarrow> Some (Err e)
           | Inr (found', forced') \<Rightarrow> scan_heights L V N sc st fed hs found' forced')
        }))"

text \<open>The trees first, from where they stopped to the ceiling the lag allows.\<close>

definition feed_trees ::
  "('n, 't) note_lib \<Rightarrow> 'n vault_keys \<Rightarrow> node \<Rightarrow> scanner \<Rightarrow> u64 \<Rightarrow> ('n, 't) pool_stores option
    \<Rightarrow> ((scan_range_error + (u64 \<times> u64) option \<times> observed_deposit list \<times> forced_sighting list)
        \<times> ('n, 't) pool_stores option) run" where
  "feed_trees L V N sc chain_tip st =
    (case st of
       None \<Rightarrow> Some (Ok (None, [], []), None)
     | Some s \<Rightarrow>
       let tree_from = tree_start sc s;
           tree_to = window_end sc (saturating_sub chain_tip (sr_tree_lag sc)) tree_from
       in if tree_from \<le> tree_to
          then do {
            (r, s') \<leftarrow> feed_heights L V N (sr_attributions sc) (heights tree_from tree_to) [] [] s;
            Some (and_then r (\<lambda>(found, forced). Ok (Some (tree_from, tree_to), found, forced)), Some s')
          }
          else Some (Ok (None, [], []), st))"

definition scan_observe ::
  "('n, 't) note_lib \<Rightarrow> 'n vault_keys \<Rightarrow> node \<Rightarrow> scanner \<Rightarrow> u64 \<Rightarrow> ('n, 't) pool_stores option
    \<Rightarrow> ((scan_range_error + observed) \<times> ('n, 't) pool_stores option) run" where
  "scan_observe L V N sc from_h st =
    (case nd_block_count N of
       Inl e \<Rightarrow> Some (Err (ScanRpc e), st)
     | Inr chain_tip \<Rightarrow>
       let start = max from_h (sr_from_height sc);
           end_h = window_end sc chain_tip start
       in if end_h < start then Some (Ok (observed_new (min chain_tip end_h) []), st)
          else do {
            (r, st') \<leftarrow> feed_trees L V N sc chain_tip st;
            (case r of
               Inl e \<Rightarrow> Some (Err e, st')
             | Inr (fed, found, forced) \<Rightarrow> do {
                 r' \<leftarrow> scan_heights L V N sc st' fed (heights start end_h) found forced;
                 Some (and_then r' (\<lambda>(found, forced). Ok (set_forced forced (observed_new end_h found))), st')
               })
          })"

section \<open>The replica's views\<close>

text \<open>The loop \<open>forced\<close>, \<open>app_payments\<close> and \<open>anchors\<close> share: every transaction that reads, with its
  place in the block.\<close>

fun view_txs ::
  "'n vault_keys \<Rightarrow> node \<Rightarrow> (nat \<Rightarrow> txid \<Rightarrow> 'n scanned \<Rightarrow> rpc_error + 'v list) \<Rightarrow> u64 \<Rightarrow> (nat \<times> bytes) list
    \<Rightarrow> 'v list \<Rightarrow> (scan_range_error + 'v list) run" where
  "view_txs V N view height [] found = Some (Ok found)"
| "view_txs V N view height ((i, hex) # hexes) found =
    (case nd_raw N hex of
       Inl e \<Rightarrow> Some (Err (ScanRpc e))
     | Inr raw \<Rightarrow>
       (case txid_bytes hex of
          None \<Rightarrow> view_txs V N view height hexes found
        | Some txid \<Rightarrow>
          Option.bind (scan_actions_lenient V raw txid height) (\<lambda>r.
            case r of
              Inl _ \<Rightarrow> view_txs V N view height hexes found
            | Inr scanned \<Rightarrow>
              (case view i txid scanned of
                 Inl e \<Rightarrow> Some (Err (ScanRpc e))
               | Inr vs \<Rightarrow> view_txs V N view height hexes (found @ vs)))))"

fun view_heights ::
  "'n vault_keys \<Rightarrow> node \<Rightarrow> (u64 \<Rightarrow> nat \<Rightarrow> txid \<Rightarrow> 'n scanned \<Rightarrow> rpc_error + 'v list) \<Rightarrow> u64 list
    \<Rightarrow> 'v list \<Rightarrow> (scan_range_error + 'v list) run" where
  "view_heights V N view [] found = Some (Ok found)"
| "view_heights V N view (height # hs) found =
    (case nd_block_txids N height of
       Inl e \<Rightarrow> Some (Err (ScanRpc e))
     | Inr hexes \<Rightarrow> do {
         r \<leftarrow> view_txs V N (view height) height (enumerate 0 hexes) found;
         (case r of
            Inl e \<Rightarrow> Some (Err e)
          | Inr found' \<Rightarrow> view_heights V N view hs found')
       })"

definition view_range ::
  "'n vault_keys \<Rightarrow> node \<Rightarrow> (u64 \<Rightarrow> nat \<Rightarrow> txid \<Rightarrow> 'n scanned \<Rightarrow> rpc_error + 'v list) \<Rightarrow> scanner \<Rightarrow> u64 \<Rightarrow> u64
    \<Rightarrow> (scan_range_error + u64 \<times> 'v list) run" where
  "view_range V N view sc from_h to_h =
    (let start = max from_h (sr_from_height sc);
         end_h = window_end sc to_h start
     in if end_h < start then Some (Ok (min to_h end_h, []))
        else do {
          r \<leftarrow> view_heights V N view (heights start end_h) [];
          Some (and_then r (\<lambda>found. Ok (end_h, found)))
        })"

definition scan_forced ::
  "'n vault_keys \<Rightarrow> node \<Rightarrow> scanner \<Rightarrow> u64 \<Rightarrow> u64 \<Rightarrow> (scan_range_error + u64 \<times> forced_sighting list) run" where
  "scan_forced V N sc from_h to_h = view_range V N (\<lambda>height i txid scanned. Ok (sn_forced scanned)) sc from_h to_h"

record app_payment_sighting =
  as_txid :: txid
  as_height :: u64
  as_tx_index :: u32
  as_output_index :: u32
  as_amount :: fixed
  as_payment :: app_payment_memo

definition app_sightings :: "nat \<Rightarrow> 'n scanned \<Rightarrow> rpc_error + app_payment_sighting list" where
  "app_sightings i scanned =
    (if i < 2 ^ 32 then
       Ok (map (\<lambda>a. \<lparr> as_txid = ap_txid a, as_height = ap_height a, as_tx_index = of_nat i,
         as_output_index = ap_output_index a, as_amount = ap_amount a, as_payment = ap_payment a \<rparr>)
         (sn_app_payments scanned))
     else Err (RpcMalformed ''too many transactions in one block''))"

definition scan_app_payments ::
  "'n vault_keys \<Rightarrow> node \<Rightarrow> scanner \<Rightarrow> u64 \<Rightarrow> u64 \<Rightarrow> (scan_range_error + u64 \<times> app_payment_sighting list) run" where
  "scan_app_payments V N sc from_h to_h =
    view_range V N (\<lambda>height i txid scanned. app_sightings i scanned) sc from_h to_h"

record anchor_sighting =
  an_height :: u64
  an_txid :: txid
  an_memo :: bytes

text \<open>A memo is 512 bytes (\<open>vault_keys\<close>), so the slice \<open>m[..ANCHOR_LEN]\<close> is within it.\<close>

definition anchor_sightings :: "u64 \<Rightarrow> txid \<Rightarrow> 'n scanned \<Rightarrow> anchor_sighting list" where
  "anchor_sightings height txid scanned =
    List.map_filter (\<lambda>a. map_option (\<lambda>m. \<lparr> an_height = height, an_txid = txid, an_memo = take ANCHOR_LEN m \<rparr>) (sa_memo a))
      (filter sa_anchor (sn_actions scanned))"

definition scan_anchors ::
  "'n vault_keys \<Rightarrow> node \<Rightarrow> scanner \<Rightarrow> u64 \<Rightarrow> u64 \<Rightarrow> (scan_range_error + u64 \<times> anchor_sighting list) run" where
  "scan_anchors V N sc from_h to_h =
    view_range V N (\<lambda>height i txid scanned. Ok (anchor_sightings height txid scanned)) sc from_h to_h"

section \<open>Feeding the trees alone\<close>

definition sync_notes ::
  "('n, 't) note_lib \<Rightarrow> 'n vault_keys \<Rightarrow> node \<Rightarrow> scanner \<Rightarrow> u64 \<Rightarrow> ('n, 't) pool_stores option
    \<Rightarrow> ((scan_range_error + u64) \<times> ('n, 't) pool_stores option) run" where
  "sync_notes L V N sc to_h st =
    (case st of
       None \<Rightarrow> Some (Ok to_h, None)
     | Some s \<Rightarrow>
       let start = tree_start sc s;
           end_h = window_end sc to_h start
       in if end_h < start then Some (Ok (min to_h (saturating_sub start 1)), st)
          else do {
            (r, s') \<leftarrow> feed_heights L V N (sr_attributions sc) (heights start end_h) [] [] s;
            Some (and_then r (\<lambda>_. Ok end_h), Some s')
          })"

text \<open>\<open>while synced < to { synced = self.sync_notes(zebra, to)?; }\<close>: \<open>None\<close> is a loop that does not end,
  or a panic.\<close>

partial_function (option) sync_loop ::
  "('n, 't) note_lib \<Rightarrow> 'n vault_keys \<Rightarrow> node \<Rightarrow> scanner \<Rightarrow> u64 \<Rightarrow> u64 \<Rightarrow> ('n, 't) pool_stores
    \<Rightarrow> ((scan_range_error + unit) \<times> ('n, 't) pool_stores option) option" where
  "sync_loop L V N sc to_h synced st =
    (if synced < to_h then
       Option.bind (sync_notes L V N sc to_h (Some st)) (\<lambda>(r, st').
         case (r, st') of
           (Inr synced', Some s) \<Rightarrow> sync_loop L V N sc to_h synced' s
         | (Inl e, _) \<Rightarrow> Some (Err e, st')
         | (Inr _, None) \<Rightarrow> Some (Ok (), None))
     else Some (Ok (), Some st))"

definition other_pool :: "value_pool \<Rightarrow> value_pool" where
  "other_pool pool = (case pool of Orchard \<Rightarrow> Ironwood | Ironwood \<Rightarrow> Orchard)"

definition reseed ::
  "('n, 't) note_lib \<Rightarrow> 'n vault_keys \<Rightarrow> node \<Rightarrow> scanner \<Rightarrow> value_pool \<Rightarrow> u64 \<Rightarrow> ('n, 't) pool_stores option
    \<Rightarrow> ((scan_range_error + u64 \<times> u64 \<times> u64) \<times> ('n, 't) pool_stores option) option" where
  "reseed L V N sc pool to_h st =
    (case st of
       None \<Rightarrow> Some (Ok (0, 0, 0), None)
     | Some s \<Rightarrow>
       let seed_height = saturating_sub (sr_from_height sc) 1;
           old_appended = ns_appended (pool_of pool s);
           old_at = (case ns_synced_to (pool_of pool s) of Some h \<Rightarrow> h | None \<Rightarrow> seed_height)
       in (case nd_tree_state N old_at pool of
             Inl e \<Rightarrow> Some (Err (ScanRpc e), st)
           | Inr at_node \<Rightarrow>
             let node_count = (case from_frontier L (ts_final_state at_node) old_at of
                   Inr f \<Rightarrow> ns_appended f | Inl _ \<Rightarrow> 0)
             in (case nd_tree_state N seed_height pool of
                   Inl e \<Rightarrow> Some (Err (ScanRpc e), st)
                 | Inr ts \<Rightarrow>
                   (case from_frontier L (ts_final_state ts) seed_height of
                      Inl _ \<Rightarrow> Some (Err (ScanRpc (RpcMalformed ''cannot seed from the node's frontier'')), st)
                    | Inr fresh \<Rightarrow>
                      let s1 = pool_update pool (\<lambda>_. fresh) s
                      in (case nd_tree_state N seed_height (other_pool pool) of
                            Inl e \<Rightarrow> Some (Err (ScanRpc e), Some s1)
                          | Inr ts2 \<Rightarrow>
                            let s2 = (case from_frontier L (ts_final_state ts2) seed_height of
                                  Inr fresh2 \<Rightarrow> pool_update (other_pool pool) (\<lambda>_. fresh2) s1
                                | Inl _ \<Rightarrow> s1)
                            in do {
                              (r, st') \<leftarrow> sync_loop L V N sc to_h seed_height s2;
                              Some (and_then r (\<lambda>_. Ok (old_appended, node_count, old_at)), st')
                            })))))"

text \<open>\<open>collect\<close>: deposits by height.\<close>

definition collect_deposits :: "observed_deposit list \<Rightarrow> (u64, observed_deposit list) bmap" where
  "collect_deposits deposits = fold push_deposit deposits bm_empty"

section \<open>Lemmas\<close>

lemma note_amount_value: "raw_value (note_amount V n) = uint (vk_value V n) * 10 ^ 10"
proof -
  have v: "uint (ucast (vk_value V n) :: i128) = uint (vk_value V n)"
    by (rule uint_up_ucast) (simp add: is_up)
  have "uint (vk_value V n) < 2 ^ 64" using uint_lt2p [of "vk_value V n"] by simp
  then have b: "uint (vk_value V n) * 10 ^ 10 < 2 ^ 127" by simp
  have "uint ((ucast (vk_value V n) :: i128) * ZAT) = uint (vk_value V n) * 10 ^ 10"
    using b by (subst uint_mult_lem [THEN iffD1]) (simp_all add: v ZAT_def)
  moreover have "signed_take_bit 127 (uint (vk_value V n) * 10 ^ 10) = uint (vk_value V n) * 10 ^ 10"
    using b by (intro signed_take_bit_int_eq_self) (auto intro: order_trans [of _ 0])
  ultimately have "sint ((ucast (vk_value V n) :: i128) * ZAT) = uint (vk_value V n) * 10 ^ 10"
    by (simp add: sint_uint)
  then show ?thesis by (simp add: note_amount_def raw_value_def)
qed

lemma note_amount_nonneg: "0 \<le> raw_value (note_amount V n)"
  by (simp add: note_amount_value)

lemma classified:
  "classify_addressed V s ours attributed txid height handed_out = Ok ds \<Longrightarrow> d \<in> set ds \<Longrightarrow>
    od_height d = height \<and> 0 \<le> raw_value (od_amount d)"
  unfolding classify_addressed_def classify_actions_rules Let_def
  by (auto simp: ruled_deposits_def List.map_filter_def deposit_to_def note_amount_nonneg split: option.splits)

definition nonneg :: "observed_deposit list \<Rightarrow> bool" where
  "nonneg ds \<longleftrightarrow> (\<forall>d \<in> set ds. 0 \<le> raw_value (od_amount d))"

lemma nonneg_append [simp]: "nonneg (ds @ es) \<longleftrightarrow> nonneg ds \<and> nonneg es"
  by (auto simp: nonneg_def)

lemma nonneg_Nil [simp]: "nonneg []"
  by (simp add: nonneg_def)

lemma classified_nonneg:
  "classify_addressed V s ours attributed txid height handed_out = Ok ds \<Longrightarrow> nonneg ds"
  using classified by (fastforce simp: nonneg_def)

lemma feed_txs_nonneg:
  "feed_txs L V N attributions height hexes ds fs st = Some (Ok (ds', fs'), st') \<Longrightarrow> nonneg ds \<Longrightarrow> nonneg ds'"
proof (induction hexes arbitrary: ds fs st)
  case (Cons hex hexes)
  show ?case
    using Cons.prems
    by (auto simp: Let_def classify_def split: sum.splits option.splits bind_splits
        dest!: classified_nonneg Cons.IH)
qed simp

lemma feed_block_nonneg:
  assumes "feed_block L V N attributions height st = Some (Ok (ds, fs), st')"
  shows "nonneg ds"
proof (cases "already_fed height st")
  case True
  with assms show ?thesis by (simp add: feed_block_eq)
next
  case False
  with assms obtain r st2 where "block_body L V N attributions height (both_pools (begin_block L height) st) = Some (r, st2)"
    and "(case r of Inr d \<Rightarrow> (Ok d, both_pools (finish_block height) st2)
      | Inl e \<Rightarrow> (Err e, both_pools (\<lambda>s. fst (rewind L s)) st2)) = (Ok (ds, fs), st')"
    unfolding feed_block_eq by auto
  then show ?thesis
    by (cases r) (auto simp: block_body_def dest!: feed_txs_nonneg [OF _ nonneg_Nil] split: sum.splits)
qed

lemma feed_heights_nonneg:
  "feed_heights L V N attributions hs ds fs st = Some (Ok (ds', fs'), st') \<Longrightarrow> nonneg ds \<Longrightarrow> nonneg ds'"
proof (induction hs arbitrary: ds fs st)
  case (Cons h hs)
  show ?case
    using Cons.prems by (auto split: sum.splits prod.splits bind_splits dest!: feed_block_nonneg Cons.IH)
qed simp

lemma scan_txs_nonneg:
  "scan_txs L V N sc st height hexes ds fs = Some (Ok (ds', fs')) \<Longrightarrow> nonneg ds \<Longrightarrow> nonneg ds'"
proof (induction hexes arbitrary: ds fs st)
  case (Cons hex hexes)
  show ?case
    using Cons.prems
    by (auto split: sum.splits option.splits bind_splits dest!: classified_nonneg Cons.IH)
qed simp

lemma scan_heights_nonneg:
  "scan_heights L V N sc st fed hs ds fs = Some (Ok (ds', fs')) \<Longrightarrow> nonneg ds \<Longrightarrow> nonneg ds'"
proof (induction hs arbitrary: ds fs fed)
  case (Cons h hs)
  show ?case
    using Cons.prems
    by (auto split: sum.splits option.splits bind_splits prod.splits if_splits dest!: scan_txs_nonneg Cons.IH)
qed simp

lemma scan_observe_ok:
  assumes "scan_observe L V N sc from_h st = Some (Ok ob, st')"
  obtains chain_tip where "nd_block_count N = Ok chain_tip" "observed_ok ob"
    "ob_tip ob = min chain_tip (window_end sc chain_tip (max from_h (sr_from_height sc)))"
proof -
  let ?start = "max from_h (sr_from_height sc)"
  from assms obtain tip where tip: "nd_block_count N = Ok tip"
    by (auto simp: scan_observe_def split: sum.splits)
  have w: "window_end sc tip ?start \<le> tip" by (simp add: window_end_def)
  have "observed_ok ob \<and> ob_tip ob = min tip (window_end sc tip ?start)"
  proof (cases "window_end sc tip ?start < ?start")
    case True
    with assms tip show ?thesis by (auto simp: scan_observe_def Let_def observed_new_def observed_ok_def)
  next
    case False
    with assms tip obtain st2 fed found forced found' forced' where
      f: "feed_trees L V N sc tip st = Some (Ok (fed, found, forced), st2)" and
      s: "scan_heights L V N sc st2 fed (heights ?start (window_end sc tip ?start)) found forced = Some (Ok (found', forced'))" and
      ob: "ob = set_forced forced' (observed_new (window_end sc tip ?start) found')"
      by (auto simp: scan_observe_def Let_def result_simps split: sum.splits bind_splits)
    have "nonneg found"
      using f by (auto simp: feed_trees_def Let_def result_simps split: option.splits bind_splits if_splits dest!: feed_heights_nonneg [OF _ nonneg_Nil])
    with s have "nonneg found'" by (auto dest: scan_heights_nonneg)
    then have "observed_ok ob"
      using observed_ok_new [of found' "window_end sc tip ?start"] by (simp add: ob set_forced_def observed_ok_def nonneg_def)
    with w show ?thesis by (simp add: ob set_forced_def observed_new_def min_absorb2)
  qed
  with tip that show ?thesis by blast
qed

section \<open>A scan without note trees\<close>

text \<open>The deposits of a transaction and of a block, read on their own.\<close>

definition tx_deposits :: "'n vault_keys \<Rightarrow> node \<Rightarrow> scanner \<Rightarrow> u64 \<Rightarrow> bytes \<Rightarrow> observed_deposit list" where
  "tx_deposits V N sc height hex = (case (nd_raw N hex, txid_bytes hex) of
     (Inr raw, Some txid) \<Rightarrow> (case scan_actions_lenient V raw txid height of
        Some (Inr s) \<Rightarrow>
          (case classify_addressed V s False (bm_get (sr_attributions sc) txid) txid height (sr_addresses sc) of
             Inr ds \<Rightarrow> ds | Inl _ \<Rightarrow> [])
      | _ \<Rightarrow> [])
   | _ \<Rightarrow> [])"

definition block_deposits :: "'n vault_keys \<Rightarrow> node \<Rightarrow> scanner \<Rightarrow> u64 \<Rightarrow> observed_deposit list" where
  "block_deposits V N sc height = (case nd_block_txids N height of
     Inr hexes \<Rightarrow> concat (map (tx_deposits V N sc height) hexes) | Inl _ \<Rightarrow> [])"

lemma block_deposits_height:
  "d \<in> set (block_deposits V N sc height) \<Longrightarrow> od_height d = height"
  by (auto simp: block_deposits_def tx_deposits_def split: sum.splits option.splits dest: classified [OF sym])

lemma scan_txs_exact:
  "scan_txs L V N sc None height hexes ds fs = Some (Ok (ds', fs')) \<Longrightarrow>
    ds' = ds @ concat (map (tx_deposits V N sc height) hexes)"
proof (induction hexes arbitrary: ds fs)
  case (Cons hex hexes)
  show ?case
    using Cons.prems by (auto simp: tx_deposits_def split: sum.splits option.splits bind_splits dest!: Cons.IH)
qed simp

lemma scan_heights_exact:
  "scan_heights L V N sc None None hs ds fs = Some (Ok (ds', fs')) \<Longrightarrow>
    ds' = ds @ concat (map (block_deposits V N sc) hs)"
proof (induction hs arbitrary: ds fs)
  case (Cons h hs)
  show ?case
    using Cons.prems
    by (auto simp: block_deposits_def split: sum.splits bind_splits prod.splits dest!: Cons.IH scan_txs_exact)
qed simp

lemma observed_new_at: "observed_deposits_at (observed_new tip ds) h = filter (\<lambda>d. od_height d = h) ds"
proof -
  have "(case bm_get (fold push_deposit ds m) h of None \<Rightarrow> [] | Some es \<Rightarrow> es)
      = (case bm_get m h of None \<Rightarrow> [] | Some es \<Rightarrow> es) @ filter (\<lambda>d. od_height d = h) ds" for m
    by (induction ds arbitrary: m) (auto simp: push_deposit_def split: option.split)
  then show ?thesis by (simp add: observed_deposits_at_def observed_new_def bm_get_def bm_empty_def)
qed

lemma filter_concat_heights:
  assumes "distinct hs" and "\<And>h d. d \<in> set (f h) \<Longrightarrow> od_height d = h"
  shows "filter (\<lambda>d. od_height d = h) (concat (map f hs)) = (if h \<in> set hs then f h else [])"
  using assms(1)
proof (induction hs)
  case (Cons k hs)
  have "filter (\<lambda>d. od_height d = h) (f k) = (if k = h then f k else [])"
    using assms(2) by (auto simp: filter_id_conv filter_empty_conv)
  with Cons show ?case by auto
qed simp

section \<open>Properties\<close>

text \<open>A pass of a scanner without note trees reports exactly the blocks it read. The snapshot's tip
  is the last height of the pass's window, never the chain's beyond it; under each height of the
  window are exactly the deposits of that block, read on its own, in order, and under every other height
  nothing. So the watcher, which takes its safe height from that tip, marks no block scanned that the
  pass did not open.\<close>

theorem pass_reports_exactly_its_window:
  assumes "scan_observe L V N sc from_h None = Some (Ok ob, st')"
  shows "st' = None \<and> (\<exists>chain_tip. nd_block_count N = Ok chain_tip \<and> ob_tip ob \<le> chain_tip \<and>
      ob_tip ob = window_end sc chain_tip (max from_h (sr_from_height sc))) \<and>
    observed_deposits_at ob h =
      (if max from_h (sr_from_height sc) \<le> h \<and> h \<le> ob_tip ob then block_deposits V N sc h else [])"
proof -
  let ?start = "max from_h (sr_from_height sc)"
  from assms obtain tip where tip: "nd_block_count N = Ok tip"
    by (auto simp: scan_observe_def split: sum.splits)
  let ?stop = "window_end sc tip ?start"
  have w: "?stop \<le> tip" by (simp add: window_end_def)
  show ?thesis
  proof (cases "?stop < ?start")
    case True
    then have "\<not> (?start \<le> h \<and> h \<le> ?stop)" using order_trans [of ?start h ?stop] by (meson leD)
    moreover from True assms tip w have "st' = None" "ob = observed_new ?stop []"
      by (auto simp: scan_observe_def Let_def min_absorb2)
    ultimately show ?thesis using tip w by (auto simp: observed_new_at) (simp_all add: observed_new_def)
  next
    case False
    with assms tip obtain found forced where
      s: "scan_heights L V N sc None None (heights ?start ?stop) [] [] = Some (Ok (found, forced))" and
      ob: "ob = set_forced forced (observed_new ?stop found)" "st' = None"
      by (auto simp: scan_observe_def feed_trees_def Let_def result_simps split: sum.splits bind_splits)
    have "observed_deposits_at ob h = filter (\<lambda>d. od_height d = h) found"
      unfolding ob(1) using observed_new_at [of ?stop found h] by (simp add: set_forced_def observed_deposits_at_def)
    also have "\<dots> = (if h \<in> set (heights ?start ?stop) then block_deposits V N sc h else [])"
      unfolding scan_heights_exact [OF s] append_Nil
      by (rule filter_concat_heights [OF distinct_heights block_deposits_height])
    finally show ?thesis using tip w ob by (simp add: set_heights set_forced_def observed_new_def)
  qed
qed

text \<open>C17: credits of shielded deposits are backed and buried, whatever the scanner: with or without note
  trees, and however the pass is cut. Any batch the watcher makes of a pass credits at most the amount it
  attests, and every credited deposit is deep enough under the chain's own tip, not only under the
  snapshot's.\<close>

theorem shielded_credits_backed_and_buried:
  assumes "scan_observe L V N sc from_h st = Some (Ok ob, st')"
    and "poll w (observed_view ob) = (w', Ok (Attest b # acts))"
  shows "credited_total acts \<le> raw_value b \<and>
    (\<exists>chain_tip. nd_block_count N = Ok chain_tip \<and>
      (\<forall>r \<in> set (credited_refs acts). \<exists>d. d \<in> set (observed_deposits_at ob (od_height d)) \<and> od_txid d = r \<and>
        reportable w d \<and> w_scanned_to w < od_height d \<and>
        unat (od_height d) + (unat (w_confirmations w) - 1) \<le> unat chain_tip))"
proof -
  from scan_observe_ok [OF assms(1)] obtain tip where t: "nd_block_count N = Ok tip" "observed_ok ob"
    and "ob_tip ob = min tip (window_end sc tip (max from_h (sr_from_height sc)))" .
  then have le: "unat (ob_tip ob) \<le> unat tip" by (simp add: word_le_nat_alt [symmetric])
  have refs: "credited_refs (Attest b # acts) = credited_refs acts" by simp
  have "\<exists>d. d \<in> set (observed_deposits_at ob (od_height d)) \<and> od_txid d = r \<and> reportable w d \<and>
      w_scanned_to w < od_height d \<and> unat (od_height d) + (unat (w_confirmations w) - 1) \<le> unat tip"
    if "r \<in> set (credited_refs acts)" for r
    using node.credited_buried [OF t(2) assms(2), of r] that le unfolding refs
    by (fastforce simp: observed_view_def)
  with node.attested_covers [OF t(2) assms(2)] t(1) show ?thesis by (auto simp: observed_view_def)
qed

section \<open>The order of application payments\<close>

text \<open>The outputs of a transaction from index \<open>i\<close> on, in order.\<close>

definition outputs_from :: "u32 \<Rightarrow> u64 \<Rightarrow> u32 \<Rightarrow> app_payment_output list \<Rightarrow> bool" where
  "outputs_from i height j ps \<longleftrightarrow> i \<le> j \<and> sorted_wrt (<) (map ap_output_index ps) \<and>
    (\<forall>a \<in> set ps. i \<le> ap_output_index a \<and> ap_output_index a < j \<and> ap_height a = height)"

lemma outputs_from_Nil [simp]: "outputs_from i height i []"
  by (simp add: outputs_from_def)

lemma outputs_from_append:
  "outputs_from i height j ps \<Longrightarrow> outputs_from j height k qs \<Longrightarrow> outputs_from i height k (ps @ qs)"
  by (fastforce simp: outputs_from_def sorted_wrt_append)

lemma take_action_payments:
  assumes "take_action V attributions lenient txid height pool i act out = Some (Ok out')" and "i < j"
  shows "\<exists>ps. sn_app_payments out' = sn_app_payments out @ ps \<and> outputs_from i height j ps"
  using assms
  by (auto simp: take_action_def Let_def scan_deposit_def outputs_from_def
      split: option.splits if_splits sum.splits bind_splits prod.splits)

lemma take_actions_payments:
  "take_actions V attributions lenient txid height pool acts i out = Some (Ok (j, out')) \<Longrightarrow>
    \<exists>ps. sn_app_payments out' = sn_app_payments out @ ps \<and> outputs_from i height j ps"
proof (induction acts arbitrary: i out)
  case (Cons a acts)
  from Cons.prems obtain out1 i1 where t: "take_action V attributions lenient txid height pool i a out = Some (Ok out1)"
    and c: "checked_add i 1 = Some i1" and r: "take_actions V attributions lenient txid height pool acts i1 out1 = Some (Ok (j, out'))"
    by (auto simp: result_simps split: option.splits sum.splits bind_splits)
  from c have "i < i1" by (auto simp: checked_add_def word_less_nat_alt unat_word_ariths split: if_splits)
  from take_action_payments [OF t this] Cons.IH [OF r] show ?case
    by (metis append.assoc outputs_from_append)
qed (auto intro: outputs_from_Nil)

lemma scan_payments:
  assumes "scan_actions_lenient V raw txid height = Some (Ok s)"
  shows "\<exists>j. outputs_from 0 height j (sn_app_payments s)"
proof -
  from assms obtain orchard ironwood i mid j where
    o: "take_actions V bm_empty True txid height Orchard orchard 0 scanned_empty = Some (Ok (i, mid))" and
    i: "take_actions V bm_empty True txid height Ironwood ironwood i mid = Some (Ok (j, s))"
    by (auto simp: scan_actions_lenient_def scan_inner_def result_simps split: option.splits sum.splits bind_splits)
  from take_actions_payments [OF o] take_actions_payments [OF i] show ?thesis
    by (fastforce simp: scanned_empty_def intro: outputs_from_append)
qed

definition coordinate :: "app_payment_sighting \<Rightarrow> u64 \<times> u32 \<times> u32" where
  "coordinate a = (as_height a, as_tx_index a, as_output_index a)"

text \<open>Sightings in order, all before transaction \<open>k\<close> of block \<open>h\<close>, none below \<open>lo\<close>.\<close>

definition sighted_before :: "u64 \<Rightarrow> u64 \<Rightarrow> nat \<Rightarrow> app_payment_sighting list \<Rightarrow> bool" where
  "sighted_before lo h k found \<longleftrightarrow> sorted_wrt (<) (map coordinate found) \<and>
    (\<forall>a \<in> set found. lo \<le> as_height a \<and>
      (as_height a < h \<or> as_height a = h \<and> unat (as_tx_index a) < k))"

lemma sighted_step:
  assumes "sighted_before lo h k found" and "outputs_from 0 h j (sn_app_payments s)" and "app_sightings k s = Ok vs" and "lo \<le> h"
  shows "sighted_before lo h (Suc k) (found @ vs)"
proof -
  from assms(3) have k: "k < 2 ^ 32" and vs: "vs = map (\<lambda>a. \<lparr> as_txid = ap_txid a, as_height = ap_height a, as_tx_index = of_nat k,
         as_output_index = ap_output_index a, as_amount = ap_amount a, as_payment = ap_payment a \<rparr>) (sn_app_payments s)"
    by (auto simp: app_sightings_def split: if_splits)
  have u: "unat (of_nat k :: u32) = k" using k by (simp add: unat_of_nat take_bit_nat_eq_self)
  have new: "as_height v = h" "as_tx_index v = of_nat k" if "v \<in> set vs" for v
    using that assms(2) by (auto simp: vs outputs_from_def)
  have "sorted_wrt (<) (map coordinate vs)"
    using assms(2) unfolding vs outputs_from_def
    by (auto simp: sorted_wrt_map coordinate_def less_prod_simp elim: sorted_wrt_mono_rel [rotated])
  moreover have "coordinate a < coordinate v" if "a \<in> set found" "v \<in> set vs" for a v
    using that new assms(1) u by (auto simp: sighted_before_def coordinate_def less_prod_simp word_less_nat_alt)
  ultimately show ?thesis
    using assms(1,4) new u by (auto simp: sighted_before_def sorted_wrt_append less_Suc_eq)
qed

lemma sighted_skip: "sighted_before lo h k found \<Longrightarrow> sighted_before lo h (Suc k) found"
  by (auto simp: sighted_before_def less_Suc_eq)

lemma view_txs_sighted:
  "view_txs V N (\<lambda>i txid scanned. app_sightings i scanned) h (enumerate k hexes) found = Some (Ok found') \<Longrightarrow>
    sighted_before lo h k found \<Longrightarrow> lo \<le> h \<Longrightarrow> \<exists>k'. sighted_before lo h k' found'"
proof (induction hexes arbitrary: k found)
  case (Cons hex hexes)
  show ?case
  proof (cases "view_txs V N (\<lambda>i txid scanned. app_sightings i scanned) h (enumerate (Suc k) hexes) found = Some (Ok found')")
    case True
    with Cons.IH sighted_skip [OF Cons.prems(2)] Cons.prems(3) show ?thesis by blast
  next
    case False
    with Cons.prems(1) obtain raw txid s vs where "scan_actions_lenient V raw txid h = Some (Ok s)" "app_sightings k s = Ok vs"
      "view_txs V N (\<lambda>i txid scanned. app_sightings i scanned) h (enumerate (Suc k) hexes) (found @ vs) = Some (Ok found')"
      by (auto split: sum.splits option.splits bind_splits)
    with Cons.IH sighted_step [OF Cons.prems(2)] scan_payments Cons.prems(3) show ?thesis by blast
  qed
qed auto

lemma heights_ascend: "sorted_wrt (<) (heights a b)"
  unfolding heights_def sorted_wrt_map
proof (rule sorted_wrt_mono_rel [OF _ sorted_wrt_upt])
  fix x y assume "x \<in> set [unat a..<Suc (unat b)]" "y \<in> set [unat a..<Suc (unat b)]" and xy: "x < y"
  moreover have "unat b < 18446744073709551616" using unsigned_less [of b, where 'a = nat] by simp
  ultimately have "x < 18446744073709551616" "y < 18446744073709551616" by auto
  then have "unat (of_nat x :: u64) = x" "unat (of_nat y :: u64) = y" by (simp_all add: unat_of_nat)
  with xy show "(of_nat x :: u64) < of_nat y" by (simp add: word_less_nat_alt)
qed

lemma sighted_next: "sighted_before lo h k found \<Longrightarrow> h < h' \<Longrightarrow> sighted_before lo h' 0 found"
  by (auto simp: sighted_before_def)

lemma view_heights_sighted:
  "view_heights V N (\<lambda>height i txid scanned. app_sightings i scanned) hs found = Some (Ok found') \<Longrightarrow>
    sorted_wrt (<) hs \<Longrightarrow> \<forall>h \<in> set hs. lo \<le> h \<and> h \<le> hi \<Longrightarrow> \<forall>h \<in> set hs. sighted_before lo h 0 found \<Longrightarrow>
    \<forall>a \<in> set found. as_height a \<le> hi \<Longrightarrow> sorted_wrt (<) (map coordinate found) \<Longrightarrow> \<forall>a \<in> set found. lo \<le> as_height a \<Longrightarrow>
    sorted_wrt (<) (map coordinate found') \<and> (\<forall>a \<in> set found'. lo \<le> as_height a \<and> as_height a \<le> hi)"
proof (induction hs arbitrary: found)
  case (Cons h hs)
  from Cons.prems(1) obtain hexes found1 where
    t: "view_txs V N (\<lambda>i txid scanned. app_sightings i scanned) h (enumerate 0 hexes) found = Some (Ok found1)" and
    r: "view_heights V N (\<lambda>height i txid scanned. app_sightings i scanned) hs found1 = Some (Ok found')"
    by (auto split: sum.splits bind_splits)
  from view_txs_sighted [OF t, of lo] Cons.prems(3,4) obtain k where k: "sighted_before lo h k found1" by auto
  have "\<forall>h' \<in> set hs. sighted_before lo h' 0 found1"
    using sighted_next [OF k] Cons.prems(2) by simp
  moreover from k have "sorted_wrt (<) (map coordinate found1)" "\<forall>a \<in> set found1. lo \<le> as_height a"
    "\<forall>a \<in> set found1. as_height a \<le> h" by (auto simp: sighted_before_def)
  moreover have "\<forall>a \<in> set found1. as_height a \<le> hi" using calculation(4) Cons.prems(3) by (meson list.set_intros(1) order_trans)
  ultimately show ?case
    using Cons.IH [OF r] Cons.prems(2,3) by simp
qed simp

text \<open>The replica sees application payments in canonical order, each output once: the sightings of a
  pass are strictly increasing in block, then transaction, then output, and lie in its window.\<close>

theorem app_payments_in_chain_order:
  assumes "scan_app_payments V N sc from_h to_h = Some (Ok (upto_h, found))"
  shows "sorted_wrt (<) (map (\<lambda>a. (as_height a, as_tx_index a, as_output_index a)) found) \<and>
    (\<forall>a \<in> set found. max from_h (sr_from_height sc) \<le> as_height a \<and> as_height a \<le> upto_h)"
proof -
  let ?start = "max from_h (sr_from_height sc)"
  from assms have "found = [] \<or> view_heights V N (\<lambda>height i txid scanned. app_sightings i scanned) (heights ?start upto_h) [] = Some (Ok found)"
    by (auto simp: scan_app_payments_def view_range_def Let_def result_simps split: if_splits bind_splits)
  then show ?thesis
    using view_heights_sighted [of V N "heights ?start upto_h" "[]" found ?start upto_h]
    by (auto simp: heights_ascend set_heights sighted_before_def coordinate_def [abs_def])
qed

section \<open>Reseeding ends\<close>

text \<open>No memo of the chain makes the scan panic.\<close>

definition scans_return :: "'n vault_keys \<Rightarrow> bool" where
  "scans_return V \<longleftrightarrow> (\<forall>raw txid height. scan_actions_lenient V raw txid height \<noteq> None)"

lemma feed_txs_returns:
  assumes "scans_return V"
  shows "feed_txs L V N attributions height hexes ds fs st \<noteq> None"
proof (induction hexes arbitrary: ds fs st)
  case (Cons hex hexes)
  have "scan_actions_lenient V raw txid height \<noteq> None" for raw txid using assms by (auto simp: scans_return_def)
  then show ?case
    by (auto simp: Let_def Cons.IH simp del: not_None_eq split: sum.splits option.splits bind_splits)
qed simp

lemma feed_block_returns: "scans_return V \<Longrightarrow> feed_block L V N attributions height st \<noteq> None"
  using feed_txs_returns [of V L N attributions height]
  by (auto simp: feed_block_eq block_body_def simp del: not_None_eq split: sum.splits)

lemma feed_heights_returns:
  assumes "scans_return V"
  shows "feed_heights L V N attributions hs ds fs st \<noteq> None"
proof (induction hs arbitrary: ds fs st)
  case (Cons h hs)
  from feed_block_returns [OF assms, of L N attributions h st] obtain r st' where
    "feed_block L V N attributions h st = Some (r, st')" by fastforce
  then show ?case using Cons.IH by (cases r) (auto simp del: not_None_eq)
qed simp

lemma fed_synced:
  assumes "feed_block L V N attributions height st = Some (Ok d, st')" and "\<not> already_fed height st"
  shows "stores_synced_to st' = Some height"
proof -
  from assms obtain r st2 where "block_body L V N attributions height (both_pools (begin_block L height) st) = Some (r, st2)"
    and "(case r of Inr d \<Rightarrow> (Ok d, both_pools (finish_block height) st2)
      | Inl e \<Rightarrow> (Err e, both_pools (\<lambda>s. fst (rewind L s)) st2)) = (Ok d, st')"
    unfolding feed_block_eq by auto
  then show ?thesis
    by (cases r) (auto simp: stores_synced_to_def both_pools_def finish_block_def)
qed

lemma feed_heights_synced:
  "feed_heights L V N attributions hs ds fs st = Some (Ok d, st') \<Longrightarrow> sorted_wrt (<) hs \<Longrightarrow> hs \<noteq> [] \<Longrightarrow>
    \<forall>h \<in> set hs. \<not> already_fed h st \<Longrightarrow> stores_synced_to st' = Some (last hs)"
proof (induction hs arbitrary: ds fs st)
  case (Cons h hs)
  from Cons.prems(1) obtain ds1 fs1 st1 where b: "feed_block L V N attributions h st = Some (Ok (ds1, fs1), st1)"
    and r: "feed_heights L V N attributions hs (ds @ ds1) (fs @ fs1) st1 = Some (Ok d, st')"
    by (auto split: sum.splits bind_splits prod.splits)
  have s: "stores_synced_to st1 = Some h" using fed_synced [OF b] Cons.prems(4) by simp
  show ?case
  proof (cases "hs = []")
    case True
    with r s show ?thesis by simp
  next
    case False
    have "\<forall>h' \<in> set hs. \<not> already_fed h' st1"
      using Cons.prems(2) s by (auto simp: already_fed_def)
    with Cons.IH [OF r] Cons.prems(2) False show ?thesis by simp
  qed
qed simp

lemma window_reaches:
  assumes "0 < sr_max_blocks sc" and "to_h < 0xFFFFFFFFFFFFFFFF" and "start \<le> to_h"
  shows "start \<le> window_end sc to_h start"
proof -
  have "unat (sr_max_blocks sc) \<noteq> 0" using assms(1) by (simp add: unsigned_eq_0_iff)
  moreover have "unat start < 18446744073709551615"
    using assms(2,3) by (simp add: word_less_nat_alt word_le_nat_alt)
  ultimately have "unat start \<le> unat (saturating_sub (saturating_add start (sr_max_blocks sc)) 1)"
    by (simp add: unat_saturating_sub unat_saturating_add)
  with assms(3) show ?thesis by (simp add: window_end_def word_le_nat_alt)
qed

lemma last_heights: "a \<le> b \<Longrightarrow> last (heights a b) = b"
  by (simp add: heights_def word_le_nat_alt)

text \<open>One step of the walk, from a state whose next block is not beyond the goal.\<close>

lemma sync_step:
  assumes "scans_return V" and "0 < sr_max_blocks sc" and "to_h < 0xFFFFFFFFFFFFFFFF"
    and "tree_start sc s \<le> to_h" and "\<forall>h \<ge> tree_start sc s. \<not> already_fed h s"
  obtains r s' where "sync_notes L V N sc to_h (Some s) = Some (r, Some s')"
    "\<And>e. r = Ok e \<Longrightarrow> tree_start sc s \<le> e \<and> e \<le> to_h \<and> stores_synced_to s' = Some e"
proof -
  let ?start = "tree_start sc s"
  let ?stop = "window_end sc to_h ?start"
  note w = window_reaches [OF assms(2-4)]
  from feed_heights_returns [OF assms(1), of L N "sr_attributions sc" "heights ?start ?stop" "[]" "[]" s]
  obtain r s' where f: "feed_heights L V N (sr_attributions sc) (heights ?start ?stop) [] [] s = Some (r, s')" by fastforce
  have ne: "heights ?start ?stop \<noteq> []" using w by (auto simp: heights_def word_le_nat_alt)
  have "stores_synced_to s' = Some ?stop" if "r = Ok d" for d
    using feed_heights_synced [OF f [unfolded that] heights_ascend ne] assms(5) last_heights [OF w]
    by (simp add: set_heights)
  moreover have "sync_notes L V N sc to_h (Some s) = Some (and_then r (\<lambda>_. Ok ?stop), Some s')"
    using leD [OF w] f by (simp add: sync_notes_def Let_def)
  moreover have "?stop \<le> to_h" by (simp add: window_end_def)
  ultimately show ?thesis using w by (intro that) (auto simp: result_simps)
qed

lemma unat_next: "(x :: u64) < y \<Longrightarrow> unat (x + 1) = Suc (unat x)"
  using unsigned_less [of y, where 'a = nat] by (simp add: word_less_nat_alt unat_word_ariths)

text \<open>The walk is level with the trees, at or above the vault's birth.\<close>

definition level :: "scanner \<Rightarrow> u64 \<Rightarrow> ('n, 't) pool_stores \<Rightarrow> bool" where
  "level sc synced s \<longleftrightarrow> stores_synced_to s = Some synced \<and> unat (sr_from_height sc) \<le> Suc (unat synced)"

lemma level_start:
  assumes "level sc synced s" and "synced < to_h"
  shows "tree_start sc s = synced + 1" "synced + 1 \<le> to_h" "\<forall>h \<ge> tree_start sc s. \<not> already_fed h s"
proof -
  note n = unat_next [OF assms(2)]
  from assms(1) n show t: "tree_start sc s = synced + 1"
    by (auto simp: level_def tree_start_def max_def word_le_nat_alt word_unat_eq_iff)
  show "synced + 1 \<le> to_h" using assms(2) by (rule inc_le)
  show "\<forall>h \<ge> tree_start sc s. \<not> already_fed h s"
    unfolding t using assms(1) n by (auto simp: level_def already_fed_def word_le_nat_alt)
qed

lemma sync_loop_returns:
  assumes V: "scans_return V" and m: "0 < sr_max_blocks sc" and t: "to_h < 0xFFFFFFFFFFFFFFFF"
  shows "level sc synced s \<Longrightarrow> synced \<le> to_h \<Longrightarrow> \<exists>r s'. sync_loop L V N sc to_h synced s = Some (r, Some s') \<and>
    (r = Ok () \<longrightarrow> stores_synced_to s' = Some to_h)"
proof (induction "unat to_h - unat synced" arbitrary: synced s rule: less_induct)
  case less
  show ?case
  proof (cases "synced < to_h")
    case False
    with less.prems show ?thesis by (subst sync_loop.simps) (auto simp: level_def)
  next
    case True
    note l = level_start [OF less.prems(1) True]
    from sync_step [OF V m t l(2) [folded l(1)] l(3), of L N] obtain r s' where
      st: "sync_notes L V N sc to_h (Some s) = Some (r, Some s')" and
      ok: "\<And>e. r = Ok e \<Longrightarrow> synced + 1 \<le> e \<and> e \<le> to_h \<and> stores_synced_to s' = Some e"
      unfolding l(1) by blast
    show ?thesis
    proof (cases r)
      case (Inl e)
      with st True show ?thesis by (subst sync_loop.simps) simp
    next
      case (Inr e)
      have e: "Suc (unat synced) \<le> unat e" "e \<le> to_h" "stores_synced_to s' = Some e"
        using ok [OF Inr] unat_next [OF True] by (simp_all add: word_le_nat_alt)
      then have "level sc e s'" using less.prems(1) by (simp add: level_def)
      moreover have "unat to_h - unat e < unat to_h - unat synced" using e True by (simp add: word_less_nat_alt)
      ultimately show ?thesis using less.hyps [of e s'] e(2) st Inr True by (subst sync_loop.simps) simp
    qed
  qed
qed

lemma seeded:
  "from_frontier L b height = Ok s \<Longrightarrow> ns_synced_to s = Some height"
  by (auto simp: from_frontier_def result_simps Let_def)

text \<open>The first pass, from trees of which one is at the seed height and the other anywhere.\<close>

lemma first_pass:
  assumes V: "scans_return V" and m: "0 < sr_max_blocks sc" and t: "to_h < 0xFFFFFFFFFFFFFFFF"
    and seed: "seed = saturating_sub (sr_from_height sc) 1" and s: "ns_synced_to (pool_of pool s) = Some seed"
  shows "\<exists>r st'. sync_loop L V N sc to_h seed s = Some (r, Some st') \<and>
    (seed < to_h \<longrightarrow> r = Ok () \<longrightarrow> stores_synced_to st' = Some to_h)"
proof (cases "seed < to_h")
  case False
  then show ?thesis by (subst sync_loop.simps) simp
next
  case True
  note n = unat_next [OF True]
  have born: "unat (sr_from_height sc) \<le> Suc (unat seed)" by (simp add: seed unat_saturating_sub)
  have low: "m \<le> seed" if "stores_synced_to s = Some m" for m
    using that s by (cases pool) (auto simp: stores_synced_to_def pool_of_def split: bind_splits)
  have from_le: "sr_from_height sc \<le> to_h" using born True by (simp add: word_le_nat_alt word_less_nat_alt)
  have start: "tree_start sc s \<le> to_h" "\<forall>h \<ge> tree_start sc s. \<not> already_fed h s"
  proof -
    have "tree_start sc s \<le> to_h \<and> (\<forall>h \<ge> tree_start sc s. \<not> already_fed h s)"
    proof (cases "stores_synced_to s")
      case None
      with from_le show ?thesis by (simp add: tree_start_def already_fed_def)
    next
      case (Some m)
      from low [OF this] True have lt: "m < to_h" by simp
      with Some from_le inc_le [OF lt] unat_next [OF lt] show ?thesis
        by (auto simp: tree_start_def already_fed_def word_le_nat_alt max_def split: if_splits)
    qed
    then show "tree_start sc s \<le> to_h" "\<forall>h \<ge> tree_start sc s. \<not> already_fed h s" by auto
  qed
  from sync_step [OF V m t start, of L N] obtain r s' where
    st: "sync_notes L V N sc to_h (Some s) = Some (r, Some s')" and
    ok: "\<And>e. r = Ok e \<Longrightarrow> tree_start sc s \<le> e \<and> e \<le> to_h \<and> stores_synced_to s' = Some e" by blast
  show ?thesis
  proof (cases r)
    case (Inl e)
    with st True show ?thesis by (subst sync_loop.simps) simp
  next
    case (Inr e)
    have "sr_from_height sc \<le> tree_start sc s" by (simp add: tree_start_def)
    with ok [OF Inr] have "level sc e s'" by (auto simp: level_def word_le_nat_alt)
    with sync_loop_returns [OF V m t this, of L N] ok [OF Inr] st Inr True show ?thesis
      by (subst sync_loop.simps) simp
  qed
qed

lemma reseed_cases:
  fixes L :: "('n, 't) note_lib"
  shows "(\<exists>e s'. reseed L V N sc pool to_h (Some st) = Some (Err e, Some s')) \<or>
   (\<exists>s2 vals. ns_synced_to (pool_of pool s2) = Some (saturating_sub (sr_from_height sc) 1) \<and>
      reseed L V N sc pool to_h (Some st) = Option.bind (sync_loop L V N sc to_h (saturating_sub (sr_from_height sc) 1) s2)
        (\<lambda>(r, st'). Some (and_then r (\<lambda>_. Ok vals), st')))"
proof -
  have o: "pool \<noteq> other_pool pool" by (cases pool) (simp_all add: other_pool_def)
  define P where "P x \<longleftrightarrow> (\<exists>e s'. x = Some (Err e, Some s')) \<or>
   (\<exists>s2 vals. ns_synced_to (pool_of pool s2) = Some (saturating_sub (sr_from_height sc) 1) \<and>
      x = Option.bind (sync_loop L V N sc to_h (saturating_sub (sr_from_height sc) 1) s2)
        (\<lambda>(r, st'). Some (and_then r (\<lambda>_. Ok vals), st')))"
    for x :: "((scan_range_error + u64 \<times> u64 \<times> u64) \<times> ('n, 't) pool_stores option) option"
  have e: "P (Some (Err e, Some s'))" for e s' by (auto simp: P_def)
  have l: "ns_synced_to (pool_of pool s2) = Some (saturating_sub (sr_from_height sc) 1) \<Longrightarrow>
      P (Option.bind (sync_loop L V N sc to_h (saturating_sub (sr_from_height sc) 1) s2)
        (\<lambda>(r, st'). Some (and_then r (\<lambda>_. Ok vals), st')))" for s2 vals
    unfolding P_def by blast
  have "P (reseed L V N sc pool to_h (Some st))"
    by (auto simp: reseed_def Let_def o seeded intro!: e l split: sum.split)
  then show ?thesis by (simp add: P_def)
qed


section \<open>Witnesses\<close>

text \<open>One block with the payment that says nothing, which the operator has attributed.\<close>

definition demo_scanner :: scanner where
  "demo_scanner = with_attributions [(zeros 31 @ [0x20], replicate 32 7)] (scanner_new 8 1)"

definition demo_deposit :: observed_deposit where
  "demo_deposit = deposit_to (zeros 31 @ [0x20]) 8 (Fixed 60000000000) (replicate 32 7)"

lemma demo_txid: "txid_bytes (demo_hex 0x32) = Some (zeros 31 @ [0x20])"
  by code_simp

lemma demo_window: "window_end demo_scanner 8 8 = 8" "heights 8 8 = [8]" "sr_from_height demo_scanner = 8"
  by (simp_all add: window_end_def demo_scanner_def with_attributions_def scanner_new_def saturating_add_def
      saturating_sub_def heights_def)

lemma demo_classified:
  "classify_addressed demo_reader (scanned_empty \<lparr> sn_actions := [\<lparr> sa_pool = Orchard, sa_cmx = [4],
     sa_nullifier = [5], sa_ours = Some (6, VAULT_INDEX), sa_account = None, sa_memo = Some blank_memo,
     sa_to_index = Some VAULT_INDEX, sa_anchor = False, sa_forced = None, sa_app_payment = None, sa_app_reserved = False \<rparr>] \<rparr>)
     False (bm_get (sr_attributions demo_scanner) (zeros 31 @ [0x20])) (zeros 31 @ [0x20]) 8 (sr_addresses demo_scanner)
   = Ok [demo_deposit]"
proof -
  have z: "replicate 32 7 \<noteq> zeros 32" by code_simp
  have a: "note_amount demo_reader (6, VAULT_INDEX) = Fixed 60000000000"
    by (simp add: note_amount_def demo_reader_def demo_vault_def ZAT_def)
  show ?thesis
    by (simp add: classify_addressed_def demo_scanner_def with_attributions_def bm_get_def z a demo_deposit_def)
qed

lemma demo_tx: "tx_deposits demo_reader (demo_node [demo_hex 0x32]) demo_scanner 8 (demo_hex 0x32) = [demo_deposit]"
  by (simp add: tx_deposits_def demo_txid demo_reader_scans demo_classified)

lemma demo_pass:
  "scan_observe demo_notes demo_reader (demo_node [demo_hex 0x32]) demo_scanner 8 None
    = Some (Ok (observed_new 8 [demo_deposit]), None)"
proof -
  have c: "nd_block_count (demo_node [demo_hex 0x32]) = Ok 8" by (simp add: demo_node_def)
  have f: "sn_forced (scanned_empty \<lparr> sn_actions := acts \<rparr>) = []" for acts :: "(u64 \<times> bytes) scanned_action list"
    by (simp add: scanned_empty_def)
  show ?thesis
    by (simp add: scan_observe_def c demo_window Let_def feed_trees_def demo_txid demo_reader_scans demo_classified f
        set_forced_def observed_new_def)
qed

theorem pass_reports_exactly_its_window_witness:
  "\<exists>ob. scan_observe demo_notes demo_reader (demo_node [demo_hex 0x32]) demo_scanner 8 None = Some (Ok ob, None) \<and>
    ob_tip ob = 8 \<and> observed_deposits_at ob 8 = [demo_deposit] \<and> observed_deposits_at ob 9 = []"
proof -
  have t: "ob_tip (observed_new 8 [demo_deposit]) = 8" by (simp add: observed_new_def)
  have b: "block_deposits demo_reader (demo_node [demo_hex 0x32]) demo_scanner 8 = [demo_deposit]"
    by (simp add: block_deposits_def demo_tx)
  show ?thesis
    using pass_reports_exactly_its_window [OF demo_pass, of 8] pass_reports_exactly_its_window [OF demo_pass, of 9] demo_pass
    by (simp add: t b demo_window)
qed

lemma demo_poll:
  "\<exists>w'. poll (watcher_resume 1 0 7) (observed_view (observed_new 8 [demo_deposit]))
      = (w', Ok [Attest (Fixed 60000000000), Credit (replicate 32 7) (Fixed 60000000000) 0 (zeros 31 @ [0x20]) None]) \<and>
    w_scanned_to w' = 8"
proof -
  define ob where "ob = observed_new 8 [demo_deposit]"
  have z: "replicate 32 7 \<noteq> zeros 32" by code_simp
  have d: "observed_deposits_at ob h = (if h = 8 then [demo_deposit] else [])" for h
    by (simp add: ob_def observed_new_at demo_deposit_def deposit_to_def)
  have b: "observed_balance_at ob 8 = Some (Fixed 60000000000)"
    by (simp add: ob_def observed_balance_at_def observed_new_def push_deposit_def demo_deposit_def deposit_to_def bm_empty_def
        fixed_add_def fixed_zero_def checked_i128_def)
  have t: "ob_tip ob = 8" by (simp add: ob_def observed_new_def)
  show ?thesis
    using z unfolding ob_def [symmetric]
    by (simp add: poll_def observed_view_def d b t safe_height_def watcher_resume_def
        checked_sub_def saturating_sub_def fresh_deposits_def scan_range_def demo_window
        reportable_def demo_deposit_def deposit_to_def is_positive_def map_filter_simps Let_def)
qed

theorem shielded_credits_backed_and_buried_witness:
  "\<exists>w'. poll (watcher_resume 1 0 7) (observed_view (observed_new 8 [demo_deposit]))
      = (w', Ok [Attest (Fixed 60000000000), Credit (replicate 32 7) (Fixed 60000000000) 0 (zeros 31 @ [0x20]) None]) \<and>
    credited_total [Credit (replicate 32 7) (Fixed 60000000000) 0 (zeros 31 @ [0x20]) None] \<le> raw_value (Fixed 60000000000)"
proof -
  obtain w' where p: "poll (watcher_resume 1 0 7) (observed_view (observed_new 8 [demo_deposit]))
      = (w', Ok (Attest (Fixed 60000000000) # [Credit (replicate 32 7) (Fixed 60000000000) 0 (zeros 31 @ [0x20]) None]))"
    using demo_poll by blast
  from shielded_credits_backed_and_buried [OF demo_pass p] p show ?thesis by blast
qed

definition demo_app :: app_payment_memo where
  "demo_app = \<lparr> am_purpose = Purpose 1, am_reference = replicate 32 1, am_recipient = replicate 32 2 \<rparr>"

definition demo_app_memo :: bytes where
  "demo_app_memo = memo_field (APP_PAYMENT_TAG @ [APP_PAYMENT_VERSION, 1] @ replicate 32 1 @ replicate 32 2)"

lemma demo_app_memo_facts:
  "decode_app_payment demo_app_memo = Ok demo_app" "\<not> is_anchor demo_app_memo" "\<not> is_publication demo_app_memo"
  by code_simp+

theorem app_payments_in_chain_order_witness:
  "\<exists>found. scan_app_payments (demo_vault [demo_payment demo_app_memo, demo_payment demo_app_memo])
      (demo_node [demo_hex 0x32]) (scanner_new 8 1) 0 8 = Some (Ok (8, found)) \<and>
    map as_output_index found = [0, 1] \<and> sorted_wrt (<) (map (\<lambda>a. (as_height a, as_tx_index a, as_output_index a)) found)"
proof -
  let ?V = "demo_vault [demo_payment demo_app_memo, demo_payment demo_app_memo]"
  have c: "checked_add (1 :: u32) 1 = Some 2" by (simp add: checked_add_def)
  obtain s where s: "scan_actions_lenient ?V [0x32] (zeros 31 @ [0x20]) 8 = Some (Ok s)"
    "map ap_output_index (sn_app_payments s) = [0, 1]"
    by (simp add: scan_actions_lenient_def scan_inner_def take_action_def Let_def demo_vault_def demo_payment_def
        demo_app_memo_facts push_action_def scanned_empty_def c)
  have w: "window_end (scanner_new 8 1) 8 8 = 8" "sr_from_height (scanner_new 8 1) = 8"
    by (simp_all add: window_end_def scanner_new_def saturating_add_def saturating_sub_def)
  obtain found where f: "scan_app_payments ?V (demo_node [demo_hex 0x32]) (scanner_new 8 1) 0 8 = Some (Ok (8, found))"
    "map as_output_index found = [0, 1]"
    using s(2) by (simp add: scan_app_payments_def view_range_def w demo_window Let_def demo_txid s(1) app_sightings_def comp_def)
  show ?thesis by (intro exI conjI) (rule f app_payments_in_chain_order [OF f(1), THEN conjunct1])+
qed


text \<open>A payment to a deposit address, without a memo.\<close>

definition demo_addressed :: "(u64 \<times> bytes) vault_keys" where
  "demo_addressed = demo_vault [\<lparr> ra_cmx = [4], ra_nullifier = [5], ra_note = Some ((6, 1 # zeros 10), blank_memo) \<rparr>]"

text \<open>The trees' scan ignores the deposit addresses. The same block, with a note to an address that was
  handed out to an account and no memo, is credited to that account by a scanner without note trees; a
  scanner with them reads the block in \<open>feed_block\<close>, which classifies without the addresses, and the pass is
  refused as unattributable. So the per-account addresses work only for blocks the trees already have.\<close>

theorem handed_out_address_stops_the_tree_scan:
  "let sc = with_addresses [(1 # zeros 10, replicate 32 7)] (scanner_new 8 1); N = demo_node [demo_hex 0x32] in
    (\<exists>ob. scan_observe demo_notes demo_addressed N sc 8 None = Some (Ok ob, None) \<and>
      observed_deposits_at ob 8 = [deposit_to (zeros 31 @ [0x20]) 8 (Fixed 60000000000) (replicate 32 7)]) \<and>
    (\<exists>st'. scan_observe demo_notes demo_addressed N sc 8 (Some (demo_stores 7 7))
      = Some (Err (Unattributable 8 (Fixed 60000000000)), Some st'))"
proof -
  let ?sc = "with_addresses [(1 # zeros 10, replicate 32 7)] (scanner_new 8 1)"
  obtain e where e: "decode_app_payment blank_memo = Err e" using blank_memo_facts(3) by (cases "decode_app_payment blank_memo") auto
  obtain d where d: "decode blank_memo = Some (Err d)" using blank_memo_facts(6) by (auto split: option.splits sum.splits)
  let ?s = "scanned_empty \<lparr> sn_actions := [\<lparr> sa_pool = Orchard, sa_cmx = [4], sa_nullifier = [5],
     sa_ours = Some (6, 1 # zeros 10), sa_account = None, sa_memo = Some blank_memo, sa_to_index = Some (1 # zeros 10),
     sa_anchor = False, sa_forced = None, sa_app_payment = None, sa_app_reserved = False \<rparr>] \<rparr>"
  have s: "scan_actions_lenient demo_addressed raw txid height = Some (Ok ?s)" for raw txid height
    by (simp add: scan_actions_lenient_def scan_inner_def take_action_def Let_def demo_addressed_def demo_vault_def
        blank_memo_facts e d push_action_def scanned_empty_def)
  have z: "replicate 32 7 \<noteq> zeros 32" "1 # zeros 10 \<noteq> VAULT_INDEX" by code_simp+
  have a: "note_amount demo_addressed (6, i) = Fixed 60000000000" for i
    by (simp add: note_amount_def demo_addressed_def demo_vault_def ZAT_def)
  have ok: "classify_addressed demo_addressed ?s False None (zeros 31 @ [0x20]) 8 [(1 # zeros 10, replicate 32 7)]
      = Ok [deposit_to (zeros 31 @ [0x20]) 8 (Fixed 60000000000) (replicate 32 7)]"
    by (simp add: classify_addressed_def bm_get_def z a)
  have bad: "classify demo_addressed ?s False None (zeros 31 @ [0x20]) 8 = Err (Fixed 60000000000)"
    by (simp add: classify_def classify_addressed_def z a)
  have c: "nd_block_count (demo_node [demo_hex 0x32]) = Ok 8" by (simp add: demo_node_def)
  have w: "window_end ?sc 8 8 = 8" "sr_from_height ?sc = 8" "sr_attributions ?sc = bm_empty"
    "sr_addresses ?sc = [(1 # zeros 10, replicate 32 7)]" "sr_tree_lag ?sc = 0"
    by (simp_all add: window_end_def with_addresses_def scanner_new_def saturating_add_def saturating_sub_def)
  have f: "sn_forced ?s = []" by (simp add: scanned_empty_def)
  have o: "spends_ours demo_notes (both_pools (begin_block demo_notes 8) (demo_stores 7 7)) ?s = False"
    by (simp add: demo_feed bm_empty_def bm_values_def)
  have start: "tree_start ?sc (demo_stores 7 7) = 8"
    by (simp add: tree_start_def w stores_synced_to_def demo_stores_def store_empty_at_def store_new_def)
  have syn: "ns_synced_to (ps_orchard (demo_stores 7 7)) = Some 7" "ns_synced_to (ps_ironwood (demo_stores 7 7)) = Some 7"
    by (simp_all add: demo_stores_def store_empty_at_def store_new_def)
  have lag: "saturating_sub (8 :: u64) 0 = 8" by (simp add: saturating_sub_def)
  show ?thesis
    unfolding Let_def
    by (simp add: scan_observe_def c w demo_window(2) feed_trees_def demo_txid s ok f start lag syn o bad feed_block_def
        set_forced_def observed_new_at [unfolded observed_deposits_at_def] observed_deposits_at_def)
      (simp add: deposit_to_def)
qed

end
