(* ===== verification/Payout.thy ===== *)
theory Payout
  imports Quorums Notes Base58 Zebra
begin

text \<open>
  payout.rs, first half: what a payout is, how it is planned and assembled, and the transparent
  addresses it may pay. The crates \<open>orchard\<close>, \<open>zcash_primitives\<close> and \<open>zcash_transparent\<close> are the
  record \<open>payout_lib\<close>; their objects (keys, shielded addresses, builders, actions, transaction
  outputs, branches) are values of one opaque type \<open>'y\<close>, and a PCZT is its list of actions and the
  rest of it. Debug renderings of library errors are byte strings.
\<close>

section \<open>The libraries\<close>

datatype consensus_network = MainNetwork | TestNetwork

datatype transparent_address = PublicKeyHash bytes | ScriptHash bytes

record 'y pczt =
  pz_actions :: "'y list"
  pz_rest :: 'y

record 'y transparent_bundle =
  tb_vin :: "'y list"
  tb_vout :: "'y list"

datatype tx_version = V5 | V6

record 'y tx_data =
  tx_version :: tx_version
  tx_branch :: 'y
  tx_lock_time :: u32
  tx_expiry :: u32
  tx_transparent :: "'y transparent_bundle option"
  tx_orchard :: "'y option"

record ('n, 'x, 'y, 'r) payout_lib =
  pl_cross_address :: "'y \<Rightarrow> bool"
  pl_value_pool :: "'y \<Rightarrow> value_pool"
  pl_builder :: "'y \<Rightarrow> bytes \<Rightarrow> bytes + 'y"
  pl_add_spend :: "'y \<Rightarrow> 'n \<Rightarrow> u32 \<times> bytes list \<Rightarrow> 'y \<Rightarrow> bytes + 'y"
  pl_add_output :: "'y option \<Rightarrow> 'y \<Rightarrow> u64 \<Rightarrow> bytes \<Rightarrow> 'y \<Rightarrow> bytes + 'y"
  pl_add_change :: "'y \<Rightarrow> 'y option \<Rightarrow> 'y \<Rightarrow> u64 \<Rightarrow> bytes \<Rightarrow> 'y \<Rightarrow> bytes + 'y"
  pl_build :: "'y \<Rightarrow> 'r \<Rightarrow> (bytes + 'y pczt) \<times> 'r"
  pl_zatoshis :: "u64 \<Rightarrow> bool"
  pl_t_empty :: 'y
  pl_t_add :: "transparent_address \<Rightarrow> u64 \<Rightarrow> 'y \<Rightarrow> bytes + 'y"
  pl_t_build :: "'y \<Rightarrow> 'y transparent_bundle option"
  pl_branch :: "consensus_network \<Rightarrow> u32 \<Rightarrow> 'y"
  pl_height_add :: "u32 \<Rightarrow> u32 \<Rightarrow> u32"
  pl_nu5 :: "consensus_network \<Rightarrow> u32 option"
  pl_bundle_version :: "'y \<Rightarrow> value_pool \<Rightarrow> 'y option"
  pl_debug :: "'y \<Rightarrow> bytes"
  pl_alpha :: "'y \<Rightarrow> 'x option"
  pl_rk :: "'y \<Rightarrow> bytes"
  pl_randomized_key :: "'x \<Rightarrow> 'x"
  pl_apply_signature :: "bytes \<Rightarrow> bytes \<Rightarrow> 'y \<Rightarrow> 'y option"
  pl_sign_action :: "bytes \<Rightarrow> 'y \<Rightarrow> 'y \<Rightarrow> 'r \<Rightarrow> 'y option \<times> 'r"
  pl_extract_effects :: "'y pczt \<Rightarrow> bytes + 'y option"
  pl_finalize_io :: "bytes \<Rightarrow> 'y pczt \<Rightarrow> 'r \<Rightarrow> (bytes + unit) \<times> 'y pczt \<times> 'r"
  pl_create_proof :: "'y \<Rightarrow> 'y pczt \<Rightarrow> 'r \<Rightarrow> (bytes + unit) \<times> 'y pczt \<times> 'r"
  pl_extract :: "'y pczt \<Rightarrow> bytes + 'y option"
  pl_bind :: "bytes \<Rightarrow> 'y \<Rightarrow> 'r \<Rightarrow> 'y option \<times> 'r"
  pl_sighash :: "'y tx_data \<Rightarrow> bytes"
  pl_freeze :: "'y tx_data \<Rightarrow> bytes + 'y"
  pl_write :: "'y \<Rightarrow> bytes + bytes"
  pl_txid :: "'y \<Rightarrow> bytes"
  pl_circuit_version :: "'y \<Rightarrow> 'y"
  pl_build_proving_key :: "'y \<Rightarrow> 'y"
  pl_build_verifying_key :: "'y \<Rightarrow> 'y"

text \<open>
  \<open>pl_zatoshis\<close> says whether \<open>Zatoshis::from_u64\<close> accepts an amount; \<open>pl_apply_signature\<close> and
  \<open>pl_sign_action\<close> are \<open>None\<close> where the calls fail and leave the action as it is; \<open>pl_bind\<close> is
  \<open>apply_binding_signature\<close>; \<open>pl_sighash\<close> is the digest and \<open>signature_hash\<close> for shielded inputs.
\<close>

section \<open>Payouts\<close>

datatype payout_error =
    EnvelopeError bytes
  | NotesError note_error
  | BuildError bytes
  | BadSignature
  | NoSuchAction nat

definition build_err :: "bytes + 'a \<Rightarrow> payout_error + 'a" where
  "build_err r = (case r of Inl e \<Rightarrow> Err (BuildError e) | Inr x \<Rightarrow> Ok x)"

definition envelope_err :: "bytes + 'a \<Rightarrow> payout_error + 'a" where
  "envelope_err r = (case r of Inl e \<Rightarrow> Err (EnvelopeError e) | Inr x \<Rightarrow> Ok x)"

definition from_note :: "note_error + 'a \<Rightarrow> payout_error + 'a" where
  "from_note r = (case r of Inl e \<Rightarrow> Err (NotesError e) | Inr x \<Rightarrow> Ok x)"

datatype 'y destination = Transparent transparent_address | ShieldedTo 'y

record 'y payment =
  pm_to :: "'y destination"
  pm_zatoshi :: u64
  pm_memo :: bytes

definition payment_new :: "'y destination \<Rightarrow> u64 \<Rightarrow> 'y payment" where
  "payment_new to zatoshi = \<lparr> pm_to = to, pm_zatoshi = zatoshi, pm_memo = zeros 512 \<rparr>"

record ('n, 'y) payout =
  po_bundle :: "'y pczt"
  po_transparent :: "'y transparent_bundle option"
  po_spent :: "'n held_note list"
  po_fee :: u64
  po_pool :: value_pool

definition zip317_fee :: "nat \<Rightarrow> nat \<Rightarrow> u64" where
  "zip317_fee shielded_actions transparent_outputs =
    5000 * of_nat (max (shielded_actions + transparent_outputs) 2)"

definition is_shielded :: "'y payment \<Rightarrow> bool" where
  "is_shielded p = (case pm_to p of ShieldedTo _ \<Rightarrow> True | Transparent _ \<Rightarrow> False)"

section \<open>Assembling\<close>

text \<open>The loops of \<open>assemble\<close>: the spends with their witnesses, the shielded outputs, the
  transparent outputs.\<close>

fun add_spends ::
  "('n, 't) note_lib \<Rightarrow> ('n, 'x, 'y, 'r) payout_lib \<Rightarrow> ('n, 't) note_store \<Rightarrow> 'y \<Rightarrow> 'n held_note list \<Rightarrow> 'y
    \<Rightarrow> payout_error + 'y" where
  "add_spends N L store fvk [] u = Ok u"
| "add_spends N L store fvk (n # ns) u =
    and_then (from_note (store_witness N (hn_position n) store)) (\<lambda>path.
    and_then (build_err (pl_add_spend L fvk (hn_note n) path u)) (\<lambda>u'.
      add_spends N L store fvk ns u'))"

fun add_outputs ::
  "('n, 'x, 'y, 'r) payout_lib \<Rightarrow> 'y option \<Rightarrow> 'y payment list \<Rightarrow> 'y \<Rightarrow> payout_error + 'y" where
  "add_outputs L ovk [] u = Ok u"
| "add_outputs L ovk (p # ps) u =
    (case pm_to p of
       ShieldedTo to \<Rightarrow>
         and_then (build_err (pl_add_output L ovk to (pm_zatoshi p) (pm_memo p) u)) (add_outputs L ovk ps)
     | Transparent _ \<Rightarrow> add_outputs L ovk ps u)"

fun add_transparent ::
  "('n, 'x, 'y, 'r) payout_lib \<Rightarrow> 'y payment list \<Rightarrow> 'y \<Rightarrow> payout_error + 'y" where
  "add_transparent L [] t = Ok t"
| "add_transparent L (p # ps) t =
    (case pm_to p of
       Transparent to \<Rightarrow>
         if \<not> pl_zatoshis L (pm_zatoshi p) then Err (BuildError (ascii ''amount''))
         else and_then (build_err (pl_t_add L to (pm_zatoshi p) t)) (add_transparent L ps)
     | ShieldedTo _ \<Rightarrow> add_transparent L ps t)"

definition assemble ::
  "('n, 't) note_lib \<Rightarrow> ('n, 'x, 'y, 'r) payout_lib \<Rightarrow> ('n, 't) note_store \<Rightarrow> 'y \<Rightarrow> 'y option \<Rightarrow> 'y payment list
    \<Rightarrow> 'y \<Rightarrow> 'y \<Rightarrow> 'n held_note list \<Rightarrow> u64 \<Rightarrow> u64 \<Rightarrow> 'r \<Rightarrow> (payout_error + ('n, 'y) payout) \<times> 'r" where
  "assemble N L store fvk ovk payments change_to version spent change fee rng =
    (case and_then (from_note (store_anchor N store)) (\<lambda>anchor.
          and_then (build_err (pl_builder L version anchor)) (\<lambda>u.
          and_then (add_spends N L store fvk spent u) (\<lambda>u.
          and_then (add_outputs L ovk payments u) (\<lambda>u.
            if change > 0 then build_err (pl_add_change L fvk ovk change_to change (zeros 512) u)
            else Ok u)))) of
       Inl e \<Rightarrow> (Err e, rng)
     | Inr u \<Rightarrow>
       (case pl_build L u rng of
          (built, rng') \<Rightarrow>
            (and_then (build_err built) (\<lambda>bundle.
             and_then (add_transparent L payments (pl_t_empty L)) (\<lambda>t.
               Ok \<lparr> po_bundle = bundle, po_transparent = pl_t_build L t, po_spent = spent,
                 po_fee = fee, po_pool = pl_value_pool L version \<rparr>)), rng')))"

section \<open>Planning\<close>

text \<open>The actions a bundle will have: under the restriction each spend and each output has its own,
  otherwise they are paired.\<close>

definition bundle_actions :: "bool \<Rightarrow> nat \<Rightarrow> nat \<Rightarrow> nat" where
  "bundle_actions cross spends outputs = (if cross then max spends outputs else spends + outputs)"

text \<open>The loop \<open>for _ in 0..2\<close>: select for the current fee, and retry when the plan needs another.\<close>

fun build_passes ::
  "('n, 't) note_lib \<Rightarrow> ('n, 'x, 'y, 'r) payout_lib \<Rightarrow> ('n, 't) note_store \<Rightarrow> 'y \<Rightarrow> 'y option \<Rightarrow> 'y payment list
    \<Rightarrow> 'y \<Rightarrow> 'y \<Rightarrow> u64 \<Rightarrow> nat \<Rightarrow> nat \<Rightarrow> nat \<Rightarrow> u64 \<Rightarrow> 'r \<Rightarrow> (payout_error + ('n, 'y) payout) \<times> 'r" where
  "build_passes N L store fvk ovk payments change_to version owed shielded_out transparent_out 0 fee rng =
    (Err (BuildError (ascii ''fee did not converge'')), rng)"
| "build_passes N L store fvk ovk payments change_to version owed shielded_out transparent_out (Suc passes) fee rng =
    (case select N (owed + fee) store of
       Inl e \<Rightarrow> (Err (NotesError e), rng)
     | Inr spent \<Rightarrow>
       (let held_sum = sum_words (map (held_value N) spent);
            change = held_sum - owed - fee;
            outputs = shielded_out + (if change > 0 then 1 else 0);
            actions = bundle_actions (pl_cross_address L version) (length spent) outputs;
            needed = zip317_fee (max actions 2) transparent_out
        in if needed \<noteq> fee
           then build_passes N L store fvk ovk payments change_to version owed shielded_out transparent_out passes needed rng
           else assemble N L store fvk ovk payments change_to version spent change fee rng))"

definition build ::
  "('n, 't) note_lib \<Rightarrow> ('n, 'x, 'y, 'r) payout_lib \<Rightarrow> ('n, 't) note_store \<Rightarrow> 'y \<Rightarrow> 'y option \<Rightarrow> 'y payment list
    \<Rightarrow> 'y \<Rightarrow> 'y \<Rightarrow> 'r \<Rightarrow> (payout_error + ('n, 'y) payout) \<times> 'r" where
  "build N L store fvk ovk payments change_to version rng =
    (if payments = [] then (Err (BuildError (ascii ''nothing to pay'')), rng)
     else
      let owed = sum_words (map pm_zatoshi payments);
          shielded_out = length (filter is_shielded payments);
          transparent_out = length payments - shielded_out
      in if shielded_out > 0 \<and> \<not> pl_cross_address L version
         then (Err (BuildError (ascii ''this pool cannot pay a shielded address (NU6.3 Orchard restriction)'')), rng)
         else build_passes N L store fvk ovk payments change_to version owed shielded_out transparent_out 2
           (zip317_fee 2 transparent_out) rng)"

section \<open>Transparent addresses\<close>

definition address_prefixes :: "consensus_network \<Rightarrow> bytes \<times> bytes" where
  "address_prefixes network = (case network of
     MainNetwork \<Rightarrow> ([0x1C, 0xB8], [0x1C, 0xBD]) | TestNetwork \<Rightarrow> ([0x1D, 0x25], [0x1C, 0xBA]))"

definition transparent_address :: "(bytes \<Rightarrow> bytes) \<Rightarrow> bytes \<Rightarrow> consensus_network \<Rightarrow> transparent_address option" where
  "transparent_address sha256 s network = do {
     raw \<leftarrow> base58_decode s;
     if length raw \<noteq> 26 then None
     else
       let body = take 22 raw;
           check = drop 22 raw;
           h = sha256 (sha256 body)
       in if take 4 h \<noteq> check then None
          else case address_prefixes network of (p2pkh, p2sh) \<Rightarrow>
            let hash = drop 2 body
            in if take 2 body = p2pkh then Some (PublicKeyHash hash)
               else if take 2 body = p2sh then Some (ScriptHash hash)
               else None
   }"


section \<open>What a payout adds up to\<close>

definition owed_total :: "'y payment list \<Rightarrow> nat" where
  "owed_total ps = sum_list (map (\<lambda>p. unat (pm_zatoshi p)) ps)"

definition shielded_total :: "'y payment list \<Rightarrow> nat" where
  "shielded_total ps = owed_total (filter is_shielded ps)"

lemma owed_split: "owed_total ps = shielded_total ps + owed_total (filter (\<lambda>p. \<not> is_shielded p) ps)"
  by (induction ps) (auto simp: owed_total_def shielded_total_def)

text \<open>What the builders promise: a bundle's value balance is what it spends less what it pays, and the
  transparent outputs are worth what was added. \<open>val\<close> is the value of a builder under
  construction, \<open>bal\<close> that of a built bundle, \<open>tval\<close> and \<open>tsum\<close> the same on the transparent side.\<close>

definition builder_laws ::
  "('n, 't) note_lib \<Rightarrow> ('n, 'x, 'y, 'r) payout_lib \<Rightarrow> ('y \<Rightarrow> int) \<Rightarrow> ('y pczt \<Rightarrow> int) \<Rightarrow> ('y \<Rightarrow> int)
    \<Rightarrow> ('y transparent_bundle option \<Rightarrow> int) \<Rightarrow> bool" where
  "builder_laws N L val bal tval tsum \<longleftrightarrow>
    (\<forall>v a u. pl_builder L v a = Ok u \<longrightarrow> val u = 0) \<and>
    (\<forall>k n path u u'. pl_add_spend L k n path u = Ok u' \<longrightarrow> val u' = val u + int (unat (nl_value N n))) \<and>
    (\<forall>k to v memo u u'. pl_add_output L k to v memo u = Ok u' \<longrightarrow> val u' = val u - int (unat v)) \<and>
    (\<forall>k k' to v memo u u'. pl_add_change L k k' to v memo u = Ok u' \<longrightarrow> val u' = val u - int (unat v)) \<and>
    (\<forall>u r b r'. pl_build L u r = (Ok b, r') \<longrightarrow> bal b = val u) \<and>
    tval (pl_t_empty L) = 0 \<and>
    (\<forall>to v t t'. pl_t_add L to v t = Ok t' \<longrightarrow> tval t' = tval t + int (unat v)) \<and>
    (\<forall>t. tsum (pl_t_build L t) = tval t)"

lemma builder_lawsD:
  assumes "builder_laws N L val bal tval tsum"
  shows "pl_builder L v a = Ok u \<Longrightarrow> val u = 0"
    "pl_add_spend L k n path u = Ok u' \<Longrightarrow> val u' = val u + int (unat (nl_value N n))"
    "pl_add_output L ko to amount memo u = Ok u' \<Longrightarrow> val u' = val u - int (unat amount)"
    "pl_add_change L k ko to amount memo u = Ok u' \<Longrightarrow> val u' = val u - int (unat amount)"
    "pl_build L u r = (Ok b, r') \<Longrightarrow> bal b = val u"
    "tval (pl_t_empty L) = 0"
    "pl_t_add L ta amount t = Ok t' \<Longrightarrow> tval t' = tval t + int (unat amount)"
    "tsum (pl_t_build L t) = tval t"
  using assms unfolding builder_laws_def by metis+

lemma build_err_Ok [result_simps]: "build_err r = Inr x \<longleftrightarrow> r = Inr x"
  by (auto simp: build_err_def split: sum.splits)

lemma envelope_err_Ok [result_simps]: "envelope_err r = Inr x \<longleftrightarrow> r = Inr x"
  by (auto simp: envelope_err_def split: sum.splits)

lemma from_note_Ok [result_simps]: "from_note r = Inr x \<longleftrightarrow> r = Inr x"
  by (auto simp: from_note_def split: sum.splits)

lemma add_spends_value:
  assumes "builder_laws N L val bal tval tsum"
  shows "add_spends N L store fvk ns u = Ok u' \<Longrightarrow> val u' = val u + int (note_values N ns)"
proof (induction ns arbitrary: u)
  case (Cons n ns)
  obtain path u1 where s: "pl_add_spend L fvk (hn_note n) path u = Ok u1"
    and r: "add_spends N L store fvk ns u1 = Ok u'"
    using Cons.prems by (auto simp: result_simps)
  have "val u1 = val u + int (unat (nl_value N (hn_note n)))" by (rule builder_lawsD(2) [OF assms s])
  with Cons.IH [OF r] show ?case by (simp add: held_value_def)
qed simp

lemma add_outputs_value:
  assumes "builder_laws N L val bal tval tsum"
  shows "add_outputs L ovk ps u = Ok u' \<Longrightarrow> val u' = val u - int (shielded_total ps)"
proof (induction ps arbitrary: u)
  case (Cons p ps)
  show ?case
  proof (cases "pm_to p")
    case (ShieldedTo to)
    then obtain u1 where s: "pl_add_output L ovk to (pm_zatoshi p) (pm_memo p) u = Ok u1"
      and r: "add_outputs L ovk ps u1 = Ok u'"
      using Cons.prems by (auto simp: result_simps)
    have "val u1 = val u - int (unat (pm_zatoshi p))" by (rule builder_lawsD(3) [OF assms s])
    with Cons.IH [OF r] ShieldedTo show ?thesis
      by (simp add: shielded_total_def owed_total_def is_shielded_def)
  next
    case (Transparent a)
    with Cons show ?thesis by (simp add: shielded_total_def is_shielded_def)
  qed
qed (simp add: shielded_total_def owed_total_def)

lemma add_transparent_value:
  assumes "builder_laws N L val bal tval tsum"
  shows "add_transparent L ps t = Ok t' \<Longrightarrow>
    tval t' = tval t + int (owed_total (filter (\<lambda>p. \<not> is_shielded p) ps))"
proof (induction ps arbitrary: t)
  case (Cons p ps)
  show ?case
  proof (cases "pm_to p")
    case (Transparent to)
    then obtain t1 where s: "pl_t_add L to (pm_zatoshi p) t = Ok t1" and r: "add_transparent L ps t1 = Ok t'"
      using Cons.prems by (auto simp: result_simps split: if_splits)
    have "tval t1 = tval t + int (unat (pm_zatoshi p))" by (rule builder_lawsD(7) [OF assms s])
    with Cons.IH [OF r] Transparent show ?thesis by (simp add: owed_total_def is_shielded_def)
  next
    case (ShieldedTo a)
    with Cons show ?thesis by (simp add: is_shielded_def)
  qed
qed (simp add: owed_total_def)

text \<open>A transparent builder that was only given outputs.\<close>

inductive payments_only :: "('n, 'x, 'y, 'r) payout_lib \<Rightarrow> 'y \<Rightarrow> bool" for L where
  none: "payments_only L (pl_t_empty L)"
| more: "payments_only L t \<Longrightarrow> pl_t_add L a amount t = Ok t' \<Longrightarrow> payments_only L t'"

lemma add_transparent_only: "add_transparent L ps t = Ok t' \<Longrightarrow> payments_only L t \<Longrightarrow> payments_only L t'"
proof (induction ps arbitrary: t)
  case (Cons p ps)
  then show ?case
    by (cases "pm_to p") (auto simp: result_simps intro: payments_only.more split: if_splits)
qed simp

lemma assemble_Ok:
  assumes "assemble N L store fvk ovk payments change_to version spent change fee rng = (Ok p, rng')"
  shows "po_spent p = spent \<and> po_fee p = fee \<and> po_pool p = pl_value_pool L version \<and>
    (\<exists>t. payments_only L t \<and> po_transparent p = pl_t_build L t) \<and>
    (builder_laws N L val bal tval tsum \<longrightarrow>
      bal (po_bundle p) = int (note_values N spent) - int (shielded_total payments) - int (unat change) \<and>
      tsum (po_transparent p) = int (owed_total (filter (\<lambda>p. \<not> is_shielded p) payments)))"
proof -
  obtain anchor u0 u1 u2 u3 bdl t where b: "pl_builder L version anchor = Ok u0"
    "add_spends N L store fvk spent u0 = Ok u1" "add_outputs L ovk payments u1 = Ok u2"
    and c: "(if change > 0 then build_err (pl_add_change L fvk ovk change_to change (zeros 512) u2) else Ok u2) = Ok u3"
    and bu: "pl_build L u3 rng = (Ok bdl, rng')"
    and t: "add_transparent L payments (pl_t_empty L) = Ok t"
    and p: "p = \<lparr> po_bundle = bdl, po_transparent = pl_t_build L t, po_spent = spent,
      po_fee = fee, po_pool = pl_value_pool L version \<rparr>"
    using assms unfolding assemble_def
    by (auto simp: result_simps split: sum.splits prod.splits)
  have "bal bdl = int (note_values N spent) - int (shielded_total payments) - int (unat change) \<and>
      tsum (pl_t_build L t) = int (owed_total (filter (\<lambda>p. \<not> is_shielded p) payments))"
    if l: "builder_laws N L val bal tval tsum"
  proof -
    have "val u0 = 0" "bal bdl = val u3" "tval (pl_t_empty L) = 0" "tsum (pl_t_build L t) = tval t"
      by (rule builder_lawsD(1) [OF l b(1)] builder_lawsD(5) [OF l bu] builder_lawsD(6,8) [OF l])+
    moreover have "val u3 = val u2 - int (unat change)"
    proof (cases "change > 0")
      case True
      then have "pl_add_change L fvk ovk change_to change (zeros 512) u2 = Ok u3" using c by (simp add: build_err_Ok)
      then show ?thesis by (rule builder_lawsD(4) [OF l])
    next
      case False
      then have "change = 0" by (simp add: word_neq_0_conv [symmetric])
      with c show ?thesis by simp
    qed
    ultimately show ?thesis
      using add_spends_value [OF l b(2)] add_outputs_value [OF l b(3)] add_transparent_value [OF l t] by simp
  qed
  moreover have "payments_only L t" by (rule add_transparent_only [OF t payments_only.none])
  ultimately show ?thesis using p by auto
qed

definition planned_fee :: "('n, 'x, 'y, 'r) payout_lib \<Rightarrow> 'y \<Rightarrow> 'y payment list \<Rightarrow> nat \<Rightarrow> u64 \<Rightarrow> u64" where
  "planned_fee L version payments spends change =
    zip317_fee (max (bundle_actions (pl_cross_address L version) spends
        (length (filter is_shielded payments) + (if change > 0 then 1 else 0))) 2)
      (length (filter (\<lambda>p. \<not> is_shielded p) payments))"

lemma build_passes_Ok:
  "build_passes N L store fvk ovk payments change_to version owed (length (filter is_shielded payments))
      (length (filter (\<lambda>p. \<not> is_shielded p) payments)) passes fee rng = (Ok p, rng') \<Longrightarrow>
    \<exists>spent. select N (owed + po_fee p) store = Ok spent \<and>
      po_fee p = planned_fee L version payments (length spent) (sum_words (map (held_value N) spent) - owed - po_fee p) \<and>
      assemble N L store fvk ovk payments change_to version spent (sum_words (map (held_value N) spent) - owed - po_fee p)
        (po_fee p) rng = (Ok p, rng')"
proof (induction passes arbitrary: fee)
  case (Suc passes)
  obtain spent where s: "select N (owed + fee) store = Ok spent"
    using Suc.prems by (auto split: sum.splits)
  let ?change = "sum_words (map (held_value N) spent) - owed - fee"
  let ?needed = "planned_fee L version payments (length spent) ?change"
  show ?case
  proof (cases "?needed = fee")
    case True
    then have a: "assemble N L store fvk ovk payments change_to version spent ?change fee rng = (Ok p, rng')"
      using Suc.prems s by (simp add: Let_def planned_fee_def)
    from assemble_Ok [OF this] have "po_fee p = fee" by simp
    with a s True show ?thesis by auto
  next
    case False
    then show ?thesis using Suc.prems s Suc.IH [of ?needed] by (simp add: Let_def planned_fee_def)
  qed
qed simp

lemma two_passes:
  "build_passes N L store fvk ovk payments change_to version owed s t 2 fee rng =
    build_passes N L store fvk ovk payments change_to version owed s t (Suc (Suc 0)) fee rng"
  by (simp only: numeral_2_eq_2)

lemma length_not_shielded: "length payments - length (filter is_shielded payments) = length (filter (\<lambda>p. \<not> is_shielded p) payments)"
  using sum_length_filter_compl [of is_shielded payments] by linarith

lemma note_values_sub:
  assumes "mset xs \<subseteq># mset ys"
  shows "note_values N xs \<le> note_values N ys"
proof -
  obtain zs where "mset ys = mset (xs @ zs)"
    using assms by (metis ex_mset mset_append mset_subset_eq_exists_conv)
  from note_values_mset [OF this, of N] show ?thesis by simp
qed

lemma unat_owed:
  assumes "owed_total ps < 2 ^ 64"
  shows "unat (sum_words (map pm_zatoshi ps)) = owed_total ps"
  using unat_sum_words [of "map pm_zatoshi ps"] assms by (simp add: owed_total_def comp_def)

lemma unat_held_sum:
  assumes "note_values N ns < 2 ^ 64"
  shows "unat (sum_words (map (held_value N) ns)) = note_values N ns"
  using unat_sum_words [of "map (held_value N) ns"] assms by (simp add: note_values_def comp_def)

lemma build_Ok:
  assumes "build N L store fvk ovk payments change_to version rng = (Ok p, rng')"
  shows "\<exists>spent. select N (sum_words (map pm_zatoshi payments) + po_fee p) store = Ok spent \<and>
    po_fee p = planned_fee L version payments (length spent)
      (sum_words (map (held_value N) spent) - sum_words (map pm_zatoshi payments) - po_fee p) \<and>
    assemble N L store fvk ovk payments change_to version spent
      (sum_words (map (held_value N) spent) - sum_words (map pm_zatoshi payments) - po_fee p)
      (po_fee p) rng = (Ok p, rng')"
  using assms unfolding build_def Let_def length_not_shielded
  by (auto dest!: build_passes_Ok split: if_splits)

lemma build_transparent:
  assumes "build N L store fvk ovk payments change_to version rng = (Ok p, rng')"
  shows "\<exists>t. payments_only L t \<and> po_transparent p = pl_t_build L t"
  using build_Ok [OF assms] assemble_Ok by metis

section \<open>An instance of the libraries\<close>

text \<open>A builder is its value balance; a bundle has one action of the vault and a dummy.\<close>

definition demo_payout_lib :: "(u64 \<times> bytes, bytes, int, nat) payout_lib" where
  "demo_payout_lib = \<lparr>
     pl_cross_address = (\<lambda>v. v = 3), pl_value_pool = (\<lambda>v. if v = 3 then Ironwood else Orchard),
     pl_builder = (\<lambda>v a. Ok 0),
     pl_add_spend = (\<lambda>k n path u. Ok (u + int (unat (fst n)))),
     pl_add_output = (\<lambda>k to v memo u. Ok (u - int (unat v))),
     pl_add_change = (\<lambda>k k' to v memo u. Ok (u - int (unat v))),
     pl_build = (\<lambda>u r. (Ok \<lparr> pz_actions = [1, -1], pz_rest = u \<rparr>, Suc r)),
     pl_zatoshis = (\<lambda>v. v \<le> 2100000000000000),
     pl_t_empty = 0, pl_t_add = (\<lambda>to v t. Ok (t + int (unat v))),
     pl_t_build = (\<lambda>t. if t = 0 then None else Some \<lparr> tb_vin = [], tb_vout = [t] \<rparr>),
     pl_branch = (\<lambda>n h. 6), pl_height_add = saturating_add, pl_nu5 = (\<lambda>n. Some 1842420),
     pl_bundle_version = (\<lambda>b p. if p = Orchard then Some 2 else None), pl_debug = (\<lambda>_. [63]),
     pl_alpha = (\<lambda>a. Some []), pl_rk = (\<lambda>a. if 0 < a then replicate 32 7 else zeros 32),
     pl_randomized_key = (\<lambda>k. k),
     pl_apply_signature = (\<lambda>h sig a. if 0 < a then Some 2 else None),
     pl_sign_action = (\<lambda>h k a r. (if a = k then Some 2 else None, Suc r)),
     pl_extract_effects = (\<lambda>b. Ok (Some (pz_rest b))),
     pl_finalize_io = (\<lambda>h b r. (Ok (), b, r)), pl_create_proof = (\<lambda>k b r. (Ok (), b, r)),
     pl_extract = (\<lambda>b. Ok (Some (pz_rest b))), pl_bind = (\<lambda>h u r. (Some u, r)),
     pl_sighash = (\<lambda>t. case tx_orchard t of None \<Rightarrow> zeros 32 | Some e \<Rightarrow> of_int e # zeros 31),
     pl_freeze = (\<lambda>t. Ok (case tx_orchard t of None \<Rightarrow> 0 | Some e \<Rightarrow> e)), pl_write = (\<lambda>f. Ok [of_int f]), pl_txid = (\<lambda>f. [of_int f]),
     pl_circuit_version = (\<lambda>v. v), pl_build_proving_key = (\<lambda>c. c), pl_build_verifying_key = (\<lambda>c. c) \<rparr>"

definition t_sum :: "int transparent_bundle option \<Rightarrow> int" where
  "t_sum b = (case b of None \<Rightarrow> 0 | Some t \<Rightarrow> sum_list (tb_vout t))"

lemma demo_builder_laws: "builder_laws demo_notes demo_payout_lib (\<lambda>u. u) pz_rest (\<lambda>t. t) t_sum"
  by (auto simp: builder_laws_def demo_payout_lib_def demo_notes_def t_sum_def)

text \<open>A store of three notes of 100,000 zatoshi, and a payment to a transparent address.\<close>

definition rich_store :: "(u64 \<times> bytes, demo_tree) note_store" where
  "rich_store = fst (store_run demo_notes
     [Append [1] True, Hold (100000, [11]) 0 7 [], Append [2] True, Hold (100000, [12]) 1 7 [],
      Append [3] True, Hold (100000, [13]) 2 7 []] (store_new demo_notes))"

definition demo_withdrawal :: "u64 \<Rightarrow> int payment" where
  "demo_withdrawal amount = payment_new (Transparent (PublicKeyHash (zeros 20))) amount"

definition demo_payout :: "(u64 \<times> bytes, int) payout" where
  "demo_payout = \<lparr> po_bundle = \<lparr> pz_actions = [1, -1], pz_rest = 120000 \<rparr>,
     po_transparent = Some \<lparr> tb_vin = [], tb_vout = [100000] \<rparr>,
     po_spent = [\<lparr> hn_note = (100000, [11]), hn_position = 0, hn_height = 7, hn_txid = [] \<rparr>,
       \<lparr> hn_note = (100000, [12]), hn_position = 1, hn_height = 7, hn_txid = [] \<rparr>],
     po_fee = 20000, po_pool = Orchard \<rparr>"

lemma rich_store_notes:
  "ns_held rich_store = [(0, \<lparr> hn_note = (100000, [11]), hn_position = 0, hn_height = 7, hn_txid = [] \<rparr>),
      (1, \<lparr> hn_note = (100000, [12]), hn_position = 1, hn_height = 7, hn_txid = [] \<rparr>),
      (2, \<lparr> hn_note = (100000, [13]), hn_position = 2, hn_height = 7, hn_txid = [] \<rparr>)]"
  by code_simp

definition rich_note :: "u64 \<Rightarrow> byte \<Rightarrow> (u64 \<times> bytes) held_note" where
  "rich_note at nf = \<lparr> hn_note = (100000, [nf]), hn_position = at, hn_height = 7, hn_txid = [] \<rparr>"

lemma rich_candidates: "candidates demo_notes rich_store = [rich_note 0 11, rich_note 1 12, rich_note 2 13]"
  by (simp add: candidates_def rich_store_notes bm_values_def held_value_def demo_notes_def rich_note_def)

lemma rich_value: "held_value demo_notes (rich_note at nf) = 100000"
  by (simp add: held_value_def demo_notes_def rich_note_def)

lemma rich_sums: "saturating_add 0 (100000 :: u64) = 100000" "saturating_add 100000 (100000 :: u64) = 200000"
  "saturating_add 200000 (100000 :: u64) = 300000"
  by (simp_all add: saturating_add_def)

lemma rich_select:
  "100000 < amount \<Longrightarrow> amount \<le> 200000 \<Longrightarrow> select demo_notes amount rich_store = Ok [rich_note 0 11, rich_note 1 12]"
  "200000 < amount \<Longrightarrow> amount \<le> 300000 \<Longrightarrow>
    select demo_notes amount rich_store = Ok [rich_note 0 11, rich_note 1 12, rich_note 2 13]"
proof -
  have "\<not> amount \<le> 0 \<and> \<not> amount \<le> 100000 \<and> \<not> 200000 < amount" if "100000 < amount" "amount \<le> 200000"
    using that by (auto simp: word_le_nat_alt word_less_nat_alt)
  then show "100000 < amount \<Longrightarrow> amount \<le> 200000 \<Longrightarrow> select demo_notes amount rich_store = Ok [rich_note 0 11, rich_note 1 12]"
    by (simp add: select_def rich_candidates rich_value rich_sums)
  have "\<not> amount \<le> 0 \<and> \<not> amount \<le> 100000 \<and> \<not> amount \<le> 200000 \<and> \<not> 300000 < amount" if "200000 < amount" "amount \<le> 300000"
    using that by (auto simp: word_le_nat_alt word_less_nat_alt)
  then show "200000 < amount \<Longrightarrow> amount \<le> 300000 \<Longrightarrow>
    select demo_notes amount rich_store = Ok [rich_note 0 11, rich_note 1 12, rich_note 2 13]"
    by (simp add: select_def rich_candidates rich_value rich_sums)
qed

lemma rich_selects: "select demo_notes 115000 rich_store = Ok [rich_note 0 11, rich_note 1 12]"
  "select demo_notes 120000 rich_store = Ok [rich_note 0 11, rich_note 1 12]"
  "select demo_notes 197000 rich_store = Ok [rich_note 0 11, rich_note 1 12]"
  "select demo_notes 202000 rich_store = Ok [rich_note 0 11, rich_note 1 12, rich_note 2 13]"
  "select demo_notes 207000 rich_store = Ok [rich_note 0 11, rich_note 1 12, rich_note 2 13]"
  by (rule rich_select; simp)+

lemma demo_lib_simps:
  "pl_cross_address demo_payout_lib v = (v = 3)" "pl_value_pool demo_payout_lib v = (if v = 3 then Ironwood else Orchard)"
  "pl_builder demo_payout_lib v a = Ok 0"
  "pl_add_spend demo_payout_lib k n path u = Ok (u + int (unat (fst n)))"
  "pl_add_output demo_payout_lib ko to amount memo u = Ok (u - int (unat amount))"
  "pl_add_change demo_payout_lib k ko to amount memo u = Ok (u - int (unat amount))"
  "pl_build demo_payout_lib u r = (Ok \<lparr> pz_actions = [1, -1], pz_rest = u \<rparr>, Suc r)"
  "pl_zatoshis demo_payout_lib amount = (amount \<le> 2100000000000000)" "pl_t_empty demo_payout_lib = 0"
  "pl_t_add demo_payout_lib ta amount t = Ok (t + int (unat amount))"
  "pl_t_build demo_payout_lib t = (if t = 0 then None else Some \<lparr> tb_vin = [], tb_vout = [t] \<rparr>)"
  by (simp_all add: demo_payout_lib_def)

lemma rich_proofs:
  "store_anchor demo_notes rich_store = Ok (zeros 32)"
  "store_witness demo_notes 0 rich_store = Ok (0, replicate 32 (zeros 32))"
  "store_witness demo_notes 1 rich_store = Ok (1, replicate 32 (zeros 32))"
  by code_simp+

lemma demo_build: "build demo_notes demo_payout_lib rich_store 0 None [demo_withdrawal 100000] 0 2 0 = (Ok demo_payout, 1)"
  by (simp add: build_def demo_withdrawal_def payment_new_def is_shielded_def sum_words_eq two_passes rich_selects rich_value Let_def
      bundle_actions_def zip317_fee_def assemble_def result_simps)
    (simp add: demo_lib_simps rich_proofs rich_note_def demo_payout_def build_err_def from_note_def)

section \<open>Properties\<close>

text \<open>C6: A payout balances to the zatoshi. When \<open>build\<close> returns a payout, the notes it spends are held and
  are worth exactly what is owed plus the change plus the fee; the fee is the ZIP-317 fee for the
  bundle's own shape with that change; and what leaves the shielded pool is the transparent outputs
  and the fee, nothing else. So nothing is lost to an accidental fee and nobody is paid twice.\<close>

theorem payout_balances:
  assumes "builder_laws N L val bal tval tsum"
    and "build N L store fvk ovk payments change_to version rng = (Ok p, rng')"
    and "note_values N (bm_values (ns_held store)) < 2 ^ 64"
    and "owed_total payments + unat (po_fee p) < 2 ^ 64"
  shows "mset (po_spent p) \<subseteq># mset (bm_values (ns_held store)) \<and> po_pool p = pl_value_pool L version \<and>
    bal (po_bundle p) = tsum (po_transparent p) + int (unat (po_fee p)) \<and>
    (\<exists>change. note_values N (po_spent p) = owed_total payments + unat change + unat (po_fee p) \<and>
      po_fee p = planned_fee L version payments (length (po_spent p)) change)"
proof -
  let ?owed = "sum_words (map pm_zatoshi payments)"
  have owed: "unat ?owed = owed_total payments" using unat_owed [of payments] assms(4) by simp
  then have need: "unat (?owed + po_fee p) = owed_total payments + unat (po_fee p)"
    using assms(4) by (simp add: unat_add_no_wrap)
  from build_Ok [OF assms(2)] obtain spent where s: "select N (?owed + po_fee p) store = Ok spent"
    and fee: "po_fee p = planned_fee L version payments (length spent) (sum_words (map (held_value N) spent) - ?owed - po_fee p)"
    and a: "assemble N L store fvk ovk payments change_to version spent
      (sum_words (map (held_value N) spent) - ?owed - po_fee p) (po_fee p) rng = (Ok p, rng')"
    by blast
  let ?change = "sum_words (map (held_value N) spent) - ?owed - po_fee p"
  from select_Ok [OF s] need have sub: "mset spent \<subseteq># mset (bm_values (ns_held store))"
    and cover: "owed_total payments + unat (po_fee p) \<le> note_values N spent" by simp_all
  have total: "unat (sum_words (map (held_value N) spent)) = note_values N spent"
    using note_values_sub [OF sub, of N] assms(3) by (simp add: unat_held_sum)
  have change: "unat ?change = note_values N spent - owed_total payments - unat (po_fee p)"
    using cover total owed by (simp add: unat_sub word_le_nat_alt)
  from assemble_Ok [OF a, of val bal tval tsum] assms(1) have p: "po_spent p = spent" "po_pool p = pl_value_pool L version"
    "bal (po_bundle p) = int (note_values N spent) - int (shielded_total payments) - int (unat ?change)"
    "tsum (po_transparent p) = int (owed_total (filter (\<lambda>p. \<not> is_shielded p) payments))" by blast+
  have v: "note_values N (po_spent p) = owed_total payments + unat ?change + unat (po_fee p)"
    using p(1) cover change by simp
  have "bal (po_bundle p) = tsum (po_transparent p) + int (unat (po_fee p))"
    using p v owed_split [of payments] by simp
  moreover have "po_fee p = planned_fee L version payments (length (po_spent p)) ?change" using fee p(1) by simp
  ultimately show ?thesis using sub p(1,2) v by blast
qed

theorem payout_balances_witness:
  "build demo_notes demo_payout_lib rich_store 0 None [demo_withdrawal 100000] 0 2 0 = (Ok demo_payout, 1) \<and>
    pz_rest (po_bundle demo_payout) = 100000 + 20000"
proof -
  have v: "note_values demo_notes (bm_values (ns_held rich_store)) < 2 ^ 64"
    by (simp add: rich_store_notes bm_values_def note_values_def held_value_def demo_notes_def)
  have o: "owed_total [demo_withdrawal 100000] + unat (po_fee demo_payout) < 2 ^ 64"
    by (simp add: owed_total_def demo_withdrawal_def payment_new_def demo_payout_def)
  from payout_balances [OF demo_builder_laws demo_build v o] demo_build show ?thesis
    by (simp add: t_sum_def demo_payout_def)
qed



definition address_text :: "(bytes \<Rightarrow> bytes) \<Rightarrow> consensus_network \<Rightarrow> transparent_address \<Rightarrow> bytes" where
  "address_text sha256 network a =
    (let body = (case a of PublicKeyHash h \<Rightarrow> fst (address_prefixes network) @ h
                  | ScriptHash h \<Rightarrow> snd (address_prefixes network) @ h)
     in base58_encode (body @ take 4 (sha256 (sha256 body))))"

definition address_hash :: "transparent_address \<Rightarrow> bytes" where
  "address_hash a = (case a of PublicKeyHash h \<Rightarrow> h | ScriptHash h \<Rightarrow> h)"

lemma transparent_address_reads:
  assumes "transparent_address sha256 s network = Some a"
  shows "s = address_text sha256 network a \<and> length (address_hash a) = 20"
proof -
  obtain raw where raw: "base58_decode s = Some raw" "length raw = 26"
    using assms by (auto simp: transparent_address_def split: bind_splits if_splits)
  let ?body = "take 22 raw"
  have check: "take 4 (sha256 (sha256 ?body)) = drop 22 raw"
    and a: "take 2 ?body = fst (address_prefixes network) \<and> a = PublicKeyHash (drop 2 ?body) \<or>
      take 2 ?body = snd (address_prefixes network) \<and> a = ScriptHash (drop 2 ?body)"
    using assms raw by (auto simp: transparent_address_def Let_def split: if_splits prod.splits)
  have "?body @ take 4 (sha256 (sha256 ?body)) = raw" by (simp add: check)
  moreover have "?body = fst (address_prefixes network) @ address_hash a \<and> a = PublicKeyHash (address_hash a) \<or>
      ?body = snd (address_prefixes network) @ address_hash a \<and> a = ScriptHash (address_hash a)"
    using a append_take_drop_id [of 2 ?body] by (auto simp: address_hash_def)
  ultimately have "address_text sha256 network a = base58_encode raw"
    by (auto simp: address_text_def Let_def split: transparent_address.splits)
  then show ?thesis using encode_decode [OF raw(1)] a raw(2) by (auto simp: address_hash_def)
qed

lemma transparent_address_of_text:
  assumes "\<forall>b. length (sha256 b) = 32" and "s = address_text sha256 network a \<and> length (address_hash a) = 20"
  shows "transparent_address sha256 s network = Some a"
proof -
  have "length (sha256 b) = 32" for b using assms(1) by blast
  with assms(2) show ?thesis
    by (cases a; cases network)
      (simp_all add: address_text_def Let_def address_prefixes_def transparent_address_def decode_encode address_hash_def)
qed

lemma transparent_address_one_network:
  "transparent_address sha256 s MainNetwork = None \<or> transparent_address sha256 s TestNetwork = None"
  by (auto simp: transparent_address_def address_prefixes_def Let_def split: bind_splits if_splits)

text \<open>C33: A transparent address is read exactly. For a network, \<open>transparent_address\<close> accepts precisely the
  Base58Check text of one of its two address kinds over twenty bytes, checksum included, and gives
  that address back; so each address has one text, and no text is an address of both networks.\<close>

theorem transparent_address_exact:
  assumes "\<forall>b. length (sha256 b) = 32"
  shows "(transparent_address sha256 s network = Some a \<longleftrightarrow>
      s = address_text sha256 network a \<and> length (address_hash a) = 20) \<and>
    (transparent_address sha256 s MainNetwork = None \<or> transparent_address sha256 s TestNetwork = None)"
proof
  show "transparent_address sha256 s network = Some a \<longleftrightarrow>
      s = address_text sha256 network a \<and> length (address_hash a) = 20"
    using transparent_address_reads transparent_address_of_text [OF assms] by blast
  show "transparent_address sha256 s MainNetwork = None \<or> transparent_address sha256 s TestNetwork = None"
    by (rule transparent_address_one_network)
qed

theorem transparent_address_exact_witness:
  "transparent_address (\<lambda>_. zeros 32) (address_text (\<lambda>_. zeros 32) MainNetwork (ScriptHash (zeros 20))) MainNetwork
    = Some (ScriptHash (zeros 20))"
  using transparent_address_exact [of "\<lambda>_. zeros 32" "address_text (\<lambda>_. zeros 32) MainNetwork (ScriptHash (zeros 20))"
      MainNetwork "ScriptHash (zeros 20)"]
  by (simp add: address_hash_def)

end
