(* ===== verification/Authorise.thy ===== *)
theory Authorise
  imports Payout Text Ed25519_Vault
begin

text \<open>
  payout.rs, second half: the envelope of the transaction, the sighash, the authorisation of a
  payout's actions by a quorum or by one key, and the sealed transaction. The two rounds go through
  the locale \<open>share_quorum\<close>, so what is proved holds for share-holders in the process and over the
  network.
\<close>

section \<open>The envelope\<close>

record 'y envelope =
  en_branch :: 'y
  en_expiry :: u32

definition EXPIRY_DELTA :: u32 where "EXPIRY_DELTA = 40"

definition envelope_at :: "('n, 'x, 'y, 'r) payout_lib \<Rightarrow> consensus_network \<Rightarrow> u32 \<Rightarrow> 'y envelope" where
  "envelope_at L network height =
    \<lparr> en_branch = pl_branch L network height, en_expiry = pl_height_add L height EXPIRY_DELTA \<rparr>"

definition pool_debug :: "value_pool \<Rightarrow> bytes" where
  "pool_debug pool = (case pool of Orchard \<Rightarrow> ascii ''Orchard'' | Ironwood \<Rightarrow> ascii ''Ironwood'')"

definition bundle_version_for ::
  "('n, 'x, 'y, 'r) payout_lib \<Rightarrow> 'y envelope \<Rightarrow> value_pool \<Rightarrow> payout_error + 'y" where
  "bundle_version_for L env pool =
    ok_or (pl_bundle_version L (en_branch env) pool)
      (EnvelopeError (ascii ''no '' @ pool_debug pool @ ascii '' pool under '' @ pl_debug L (en_branch env)))"

definition bundle_version :: "('n, 'x, 'y, 'r) payout_lib \<Rightarrow> 'y envelope \<Rightarrow> payout_error + 'y" where
  "bundle_version L env = bundle_version_for L env Orchard"

definition testnet_at :: "('n, 'x, 'y, 'r) payout_lib \<Rightarrow> u32 \<Rightarrow> 'y envelope" where
  "testnet_at L height = envelope_at L TestNetwork height"

definition orchard_is_live :: "('n, 'x, 'y, 'r) payout_lib \<Rightarrow> consensus_network \<Rightarrow> u32 \<Rightarrow> bool" where
  "orchard_is_live L network height =
    (case pl_nu5 L network of Some a \<Rightarrow> a \<le> height | None \<Rightarrow> False)"

section \<open>What needs a signature\<close>

record 'x needs_signature =
  ng_index :: nat
  ng_alpha :: 'x
  ng_rk :: bytes

definition needs_signature ::
  "('id, 'x, 's) suite \<Rightarrow> ('n, 'x, 'y, 'r) payout_lib \<Rightarrow> 'x \<Rightarrow> nat \<Rightarrow> 'y \<Rightarrow> 'x needs_signature option" where
  "needs_signature S L gk index act = do {
     alpha \<leftarrow> pl_alpha L act;
     expected \<leftarrow> fr_ser_key S (pl_randomized_key L (fr_params S gk alpha));
     if pl_rk L act \<noteq> expected then None
     else Some \<lparr> ng_index = index, ng_alpha = alpha, ng_rk = pl_rk L act \<rparr>
   }"

definition needs_signatures ::
  "('id, 'x, 's) suite \<Rightarrow> ('n, 'x, 'y, 'r) payout_lib \<Rightarrow> 'x \<Rightarrow> ('n, 'y) payout \<Rightarrow> 'x needs_signature list" where
  "needs_signatures S L gk p =
    List.map_filter (\<lambda>(index, act). needs_signature S L gk index act)
      (enumerate 0 (pz_actions (po_bundle p)))"

definition with_actions :: "'y list \<Rightarrow> ('n, 'y) payout \<Rightarrow> ('n, 'y) payout" where
  "with_actions acts p = p \<lparr> po_bundle := (po_bundle p) \<lparr> pz_actions := acts \<rparr> \<rparr>"

definition apply_signature ::
  "('n, 'x, 'y, 'r) payout_lib \<Rightarrow> nat \<Rightarrow> bytes \<Rightarrow> bytes \<Rightarrow> ('n, 'y) payout \<Rightarrow> ('n, 'y) payout \<times> (payout_error + unit)" where
  "apply_signature L index sighash sig p =
    (let acts = pz_actions (po_bundle p)
     in if index < length acts
        then case pl_apply_signature L sighash sig (acts ! index) of
            None \<Rightarrow> (p, Err BadSignature)
          | Some act \<Rightarrow> (with_actions (acts[index := act]) p, Ok ())
        else (p, Err (NoSuchAction index)))"

section \<open>The sighash and the sealed transaction\<close>

definition tx_around ::
  "'y envelope \<Rightarrow> value_pool \<Rightarrow> 'y transparent_bundle option \<Rightarrow> 'y option \<Rightarrow> 'y tx_data" where
  "tx_around env pool transparent orchard =
    \<lparr> tx_version = (case pool of Orchard \<Rightarrow> V5 | Ironwood \<Rightarrow> V6), tx_branch = en_branch env, tx_lock_time = 0,
      tx_expiry = en_expiry env, tx_transparent = transparent, tx_orchard = orchard \<rparr>"

definition payout_sighash ::
  "('n, 'x, 'y, 'r) payout_lib \<Rightarrow> 'y envelope \<Rightarrow> ('n, 'y) payout \<Rightarrow> payout_error + bytes" where
  "payout_sighash L env p =
    and_then (envelope_err (pl_extract_effects L (po_bundle p))) (\<lambda>effects.
      Ok (pl_sighash L (tx_around env (po_pool p) (po_transparent p) effects)))"

definition finalize_io ::
  "('n, 'x, 'y, 'r) payout_lib \<Rightarrow> bytes \<Rightarrow> ('n, 'y) payout \<Rightarrow> 'r \<Rightarrow> (payout_error + unit) \<times> ('n, 'y) payout \<times> 'r" where
  "finalize_io L sighash p rng =
    (case pl_finalize_io L sighash (po_bundle p) rng of
       (res, b, rng') \<Rightarrow> (envelope_err res, p \<lparr> po_bundle := b \<rparr>, rng'))"

definition prove ::
  "('n, 'x, 'y, 'r) payout_lib \<Rightarrow> 'y \<Rightarrow> ('n, 'y) payout \<Rightarrow> 'r \<Rightarrow> (payout_error + unit) \<times> ('n, 'y) payout \<times> 'r" where
  "prove L pk p rng =
    (case pl_create_proof L pk (po_bundle p) rng of
       (res, b, rng') \<Rightarrow> (envelope_err res, p \<lparr> po_bundle := b \<rparr>, rng'))"

record 'n sealed =
  sd_txid :: bytes
  sd_bytes :: bytes
  sd_spent :: "'n held_note list"

definition txid_hex :: "'n sealed \<Rightarrow> bytes" where
  "txid_hex s = hex_string (rev (sd_txid s))"

definition sealed_hex :: "'n sealed \<Rightarrow> bytes" where
  "sealed_hex s = hex_string (sd_bytes s)"

definition payout_extract ::
  "('n, 'x, 'y, 'r) payout_lib \<Rightarrow> bytes \<Rightarrow> 'y envelope \<Rightarrow> ('n, 'y) payout \<Rightarrow> 'r \<Rightarrow> (payout_error + 'n sealed) \<times> 'r" where
  "payout_extract L sighash env p rng =
    (case envelope_err (pl_extract L (po_bundle p)) of
       Inl e \<Rightarrow> (Err e, rng)
     | Inr None \<Rightarrow> (Err (EnvelopeError (ascii ''no actions'')), rng)
     | Inr (Some unbound) \<Rightarrow>
       (case pl_bind L sighash unbound rng of
          (None, rng') \<Rightarrow> (Err BadSignature, rng')
        | (Some authorized, rng') \<Rightarrow>
          (let transparent = map_option (\<lambda>t. \<lparr> tb_vin = [], tb_vout = tb_vout t \<rparr>) (po_transparent p)
           in (and_then (envelope_err (pl_freeze L (tx_around env (po_pool p) transparent (Some authorized)))) (\<lambda>tx.
               and_then (envelope_err (pl_write L tx)) (\<lambda>b.
                 Ok \<lparr> sd_txid = pl_txid L tx, sd_bytes = b, sd_spent = po_spent p \<rparr>)), rng'))))"

definition proving_key :: "('n, 'x, 'y, 'r) payout_lib \<Rightarrow> 'y \<Rightarrow> 'y" where
  "proving_key L version = pl_build_proving_key L (pl_circuit_version L version)"

definition verifying_key :: "('n, 'x, 'y, 'r) payout_lib \<Rightarrow> 'y \<Rightarrow> 'y" where
  "verifying_key L version = pl_build_verifying_key L (pl_circuit_version L version)"

section \<open>Authorising\<close>

fun sign_actions ::
  "('n, 'x, 'y, 'r) payout_lib \<Rightarrow> bytes \<Rightarrow> 'y \<Rightarrow> 'y list \<Rightarrow> 'r \<Rightarrow> 'y list \<times> nat \<times> 'r" where
  "sign_actions L sighash ask [] rng = ([], 0, rng)"
| "sign_actions L sighash ask (act # acts) rng =
    (case pl_sign_action L sighash ask act rng of
       (res, rng') \<Rightarrow>
         (case sign_actions L sighash ask acts rng' of
            (acts', n, rng'') \<Rightarrow>
              (case res of Some act' \<Rightarrow> (act' # acts', Suc n, rng'') | None \<Rightarrow> (act # acts', n, rng''))))"

definition sign_with_key ::
  "('n, 'x, 'y, 'r) payout_lib \<Rightarrow> bytes \<Rightarrow> 'y \<Rightarrow> ('n, 'y) payout \<Rightarrow> 'r \<Rightarrow> ('n, 'y) payout \<times> nat \<times> 'r" where
  "sign_with_key L sighash ask p rng =
    (case sign_actions L sighash ask (pz_actions (po_bundle p)) rng of
       (acts, n, rng') \<Rightarrow> (with_actions acts p, n, rng'))"

text \<open>The inner loops \<open>for id in &chosen\<close>: the \<open>i\<close>-th item of each of the chosen.\<close>

fun gather ::
  "('id::linorder, 'x list) bmap \<Rightarrow> nat \<Rightarrow> 'id list \<Rightarrow> ('id, 'x) bmap \<Rightarrow> ('id, 'x) bmap option" where
  "gather m i [] acc = Some acc"
| "gather m i (pid # ids) acc = do {
     per_action \<leftarrow> bm_get m pid;
     x \<leftarrow> if i < length per_action then Some (per_action ! i) else None;
     gather m i ids (bm_insert pid x acc)
   }"

fun action_packages ::
  "('id::linorder, 'x, 's) suite \<Rightarrow> bytes \<Rightarrow> ('id, 'x list) bmap \<Rightarrow> 'id list \<Rightarrow> nat list \<Rightarrow> 'x list option" where
  "action_packages S sighash r1 chosen [] = Some []"
| "action_packages S sighash r1 chosen (i # is) = do {
     commitments \<leftarrow> gather r1 i chosen bm_empty;
     packages \<leftarrow> action_packages S sighash r1 chosen is;
     Some (fr_package S commitments sighash # packages)
   }"

fun sign_needed ::
  "('id::linorder, 'x, 's) suite \<Rightarrow> ('n, 'x, 'y, 'r) payout_lib \<Rightarrow> 'x \<Rightarrow> 'x \<Rightarrow> bytes \<Rightarrow> ('id, 'x list) bmap \<Rightarrow> 'id list
    \<Rightarrow> (nat \<times> 'x needs_signature \<times> 'x) list \<Rightarrow> ('n, 'y) payout \<Rightarrow> ('n, 'y) payout \<times> (payout_error + unit)" where
  "sign_needed S L gk public sighash r2 chosen [] p = (p, Ok ())"
| "sign_needed S L gk public sighash r2 chosen ((i, n, package) # rest) p =
    (case gather r2 i chosen bm_empty of
       None \<Rightarrow> (p, Err BadSignature)
     | Some shares \<Rightarrow>
       (case aggregate_rand S package shares public (params_for S gk (ng_alpha n)) of
          Inl _ \<Rightarrow> (p, Err BadSignature)
        | Inr sig \<Rightarrow>
          (case to_spend_auth S sig of
             Inl _ \<Rightarrow> (p, Err BadSignature)
           | Inr b \<Rightarrow>
             (case apply_signature L (ng_index n) sighash b p of
                (p', Inl e) \<Rightarrow> (p', Err e)
              | (p', Inr _) \<Rightarrow> sign_needed S L gk public sighash r2 chosen rest p'))))"

text \<open>\<open>request\<close> is the id \<open>sign_all_with\<close> draws from the system's randomness.\<close>

definition sign_all_with ::
  "('id::linorder, 'x, 's) suite \<Rightarrow> ('n, 'x, 'y, 'r) payout_lib
    \<Rightarrow> (u64 \<Rightarrow> bytes \<Rightarrow> 'x list \<Rightarrow> u64 \<Rightarrow> 'q \<Rightarrow> 'q \<times> ('id, 'x list) bmap)
    \<Rightarrow> (u64 \<Rightarrow> 'id list \<Rightarrow> 'x list \<Rightarrow> 'q \<Rightarrow> 'q \<times> ('id, 'x list) bmap)
    \<Rightarrow> u64 \<Rightarrow> bytes \<Rightarrow> u16 \<Rightarrow> 'x \<Rightarrow> 'x \<Rightarrow> u64 \<Rightarrow> ('n, 'y) payout \<Rightarrow> 'q
    \<Rightarrow> 'q \<times> ('n, 'y) payout \<times> (payout_error + nat)" where
  "sign_all_with S L q_round1 q_round2 request sighash threshold gk public now p q =
    (let needed = needs_signatures S L gk p;
         alphas = map ng_alpha needed;
         want = unat threshold
     in if needed = [] then (q, p, Ok 0)
        else case q_round1 request sighash alphas now q of
          (q1, r1) \<Rightarrow>
            if length r1 < want then (q1, p, Err BadSignature)
            else
              let chosen = take want (bm_keys r1)
              in case action_packages S sighash r1 chosen [0..<length alphas] of
                   None \<Rightarrow> (q1, p, Err BadSignature)
                 | Some packages \<Rightarrow>
                   (case q_round2 request chosen packages q1 of
                      (q2, r2) \<Rightarrow>
                        if length r2 < want then (q2, p, Err BadSignature)
                        else case sign_needed S L gk public sighash r2 chosen
                              (zip [0..<length needed] (zip needed packages)) p of
                            (p', Inl e) \<Rightarrow> (q2, p', Err e)
                          | (p', Inr _) \<Rightarrow> (q2, p', Ok (length needed))))"

definition sign_all ::
  "('id::linorder, 'x, 's) suite \<Rightarrow> ('n, 'x, 'y, 'r) payout_lib \<Rightarrow> u64 \<Rightarrow> bytes \<Rightarrow> ('id \<times> 'x threshold_keys) list
    \<Rightarrow> u16 \<Rightarrow> ('n, 'y) payout \<Rightarrow> 's \<Rightarrow> ('n, 'y) payout \<times> (payout_error + nat)" where
  "sign_all S L request sighash keys threshold p rng =
    (case keys of
       [] \<Rightarrow> (p, Err BadSignature)
     | (_, k) # _ \<Rightarrow>
       (case sign_all_with S L (lq_round1 S) (lq_round2 S) request sighash threshold
            (group_key S k) (tk_public_package k) 0 p (map (\<lambda>e. participant_new (snd e)) keys, rng) of
          (_, p', r) \<Rightarrow> (p', r)))"

section \<open>What signing does to a payout\<close>

lemma with_actions_simps [simp]:
  "pz_actions (po_bundle (with_actions acts p)) = acts"
  "with_actions acts' (with_actions acts p) = with_actions acts' p"
  "with_actions (pz_actions (po_bundle p)) p = p"
  by (simp_all add: with_actions_def)

text \<open>What it takes to change an action: a signature aggregated, under the action's own randomizer, from
  one share of each of \<open>t\<close> participants over a package that binds the sighash to the commitments of the
  same participants, and accepted by the action.\<close>

definition signed_action ::
  "('id::linorder, 'x, 's) suite \<Rightarrow> ('n, 'x, 'y, 'r) payout_lib \<Rightarrow> 'x \<Rightarrow> 'x \<Rightarrow> bytes \<Rightarrow> nat \<Rightarrow> 'x needs_signature
    \<Rightarrow> 'y \<Rightarrow> 'y \<Rightarrow> bool" where
  "signed_action S L gk public sighash t n act act' \<longleftrightarrow>
    (\<exists>commitments shares sig b. bm_ok shares \<and> length shares = t \<and> bm_keys commitments = bm_keys shares \<and>
      aggregate_rand S (fr_package S commitments sighash) shares public (params_for S gk (ng_alpha n)) = Ok sig \<and>
      to_spend_auth S sig = Ok b \<and> pl_apply_signature L sighash b act = Some act')"

definition payout_outcome ::
  "('id::linorder, 'x, 's) suite \<Rightarrow> ('n, 'x, 'y, 'r) payout_lib \<Rightarrow> 'x \<Rightarrow> 'x \<Rightarrow> bytes \<Rightarrow> nat \<Rightarrow> 'x needs_signature list
    \<Rightarrow> ('n, 'y) payout \<Rightarrow> ('n, 'y) payout \<Rightarrow> payout_error + nat \<Rightarrow> bool" where
  "payout_outcome S L gk public sighash t needed p p' r \<longleftrightarrow>
    (\<exists>acts'. p' = with_actions acts' p \<and> length acts' = length (pz_actions (po_bundle p)) \<and>
      (\<forall>i < length acts'. acts' ! i = pz_actions (po_bundle p) ! i \<or>
        (\<exists>n \<in> set needed. ng_index n = i \<and> signed_action S L gk public sighash t n (pz_actions (po_bundle p) ! i) (acts' ! i))) \<and>
      (case r of
         Inr k \<Rightarrow> k = length needed \<and>
           (\<forall>n \<in> set needed. signed_action S L gk public sighash t n
              (pz_actions (po_bundle p) ! ng_index n) (acts' ! ng_index n))
       | Inl e \<Rightarrow> e = BadSignature))"

lemma outcome_untouched: "payout_outcome S L gk public sighash t needed p p (Err BadSignature)"
  unfolding payout_outcome_def by (intro exI [of _ "pz_actions (po_bundle p)"]) simp

lemma outcome_nothing: "payout_outcome S L gk public sighash t [] p p (Ok 0)"
  unfolding payout_outcome_def by (intro exI [of _ "pz_actions (po_bundle p)"]) simp

text \<open>The actions that need a signature are told apart by their index.\<close>

lemma needs_signature_index: "needs_signature S L gk i act = Some n \<Longrightarrow> ng_index n = i"
  by (auto simp: needs_signature_def split: bind_splits if_splits)

lemma needed_from:
  "distinct (map ng_index (List.map_filter (\<lambda>(i, act). needs_signature S L gk i act) (enumerate k acts))) \<and>
   (\<forall>n \<in> set (List.map_filter (\<lambda>(i, act). needs_signature S L gk i act) (enumerate k acts)).
      k \<le> ng_index n \<and> ng_index n < k + length acts)"
proof (induction acts arbitrary: k)
  case Nil
  then show ?case by (simp add: map_filter_simps)
next
  case (Cons act acts)
  let ?rest = "List.map_filter (\<lambda>(i, act). needs_signature S L gk i act) (enumerate (Suc k) acts)"
  have rest: "distinct (map ng_index ?rest)" "\<forall>n \<in> set ?rest. Suc k \<le> ng_index n \<and> ng_index n < Suc k + length acts"
    using Cons.IH [of "Suc k"] by blast+
  show ?case
  proof (cases "needs_signature S L gk k act")
    case None
    with rest show ?thesis by (auto simp: map_filter_simps)
  next
    case (Some n)
    have "ng_index n = k" by (rule needs_signature_index [OF Some])
    moreover have "k \<notin> ng_index ` set ?rest" using rest(2) by auto
    ultimately show ?thesis using rest Some by (auto simp: map_filter_simps)
  qed
qed

lemma needed_indices:
  "distinct (map ng_index (needs_signatures S L gk p))"
  "n \<in> set (needs_signatures S L gk p) \<Longrightarrow> ng_index n < length (pz_actions (po_bundle p))"
  using needed_from [of S L gk 0 "pz_actions (po_bundle p)"] by (auto simp: needs_signatures_def)

lemma gather_insert:
  "gather m i ids acc = Some out \<Longrightarrow> bm_ok acc \<Longrightarrow>
    bm_ok out \<and> set (bm_keys out) = set (bm_keys acc) \<union> set ids"
proof (induction ids arbitrary: acc)
  case (Cons pid ids)
  obtain x where "gather m i ids (bm_insert pid x acc) = Some out"
    using Cons.prems(1) by (auto split: bind_splits if_splits)
  from Cons.IH [OF this] Cons.prems(2) show ?case by (auto simp: bm_keys_insert)
qed simp

lemma gather_total:
  "\<forall>pid \<in> set ids. \<exists>xs. bm_get m pid = Some xs \<and> i < length xs \<Longrightarrow> \<exists>out. gather m i ids acc = Some out"
  by (induction ids arbitrary: acc) auto

lemma bm_keys_eq:
  assumes "bm_ok m" and "bm_ok m'" and "set (bm_keys m) = set (bm_keys m')"
  shows "bm_keys m = bm_keys m'"
  using assms by (intro strict_sorted_equal) (simp_all add: bm_ok_def bm_keys_def)

lemma gather_keys:
  assumes "gather m i chosen bm_empty = Some out" and "distinct chosen"
  shows "bm_ok out \<and> set (bm_keys out) = set chosen \<and> length out = length chosen"
proof -
  have o: "bm_ok out" "set (bm_keys out) = set chosen"
    using gather_insert [OF assms(1)] by (simp_all add: bm_keys_def bm_empty_def)
  have "length out = card (fst ` set out)" by (rule length_bm [OF o(1)])
  also have "\<dots> = card (set chosen)" using o(2) by (simp add: bm_keys_def)
  also have "\<dots> = length chosen" by (rule distinct_card [OF assms(2)])
  finally show ?thesis using o by simp
qed

text \<open>The signing loop, over entries that are ready: a package and one share of each of the chosen.\<close>

definition entry_ready ::
  "('id::linorder, 'x, 's) suite \<Rightarrow> bytes \<Rightarrow> ('id, 'x list) bmap \<Rightarrow> 'id list \<Rightarrow> nat \<Rightarrow> nat \<times> 'x needs_signature \<times> 'x \<Rightarrow> bool" where
  "entry_ready S sighash r2 chosen t e \<longleftrightarrow>
    (\<exists>commitments shares. snd (snd e) = fr_package S commitments sighash \<and>
      gather r2 (fst e) chosen bm_empty = Some shares \<and> bm_ok shares \<and> length shares = t \<and>
      bm_keys commitments = bm_keys shares)"

lemma sign_entry:
  assumes "entry_ready S sighash r2 chosen t (i, n, package)" and "ng_index n < length (pz_actions (po_bundle p))"
  shows "sign_needed S L gk public sighash r2 chosen ((i, n, package) # rest) p = (p, Err BadSignature) \<or>
    (\<exists>act'. signed_action S L gk public sighash t n (pz_actions (po_bundle p) ! ng_index n) act' \<and>
      sign_needed S L gk public sighash r2 chosen ((i, n, package) # rest) p =
        sign_needed S L gk public sighash r2 chosen rest
          (with_actions ((pz_actions (po_bundle p)) [ng_index n := act']) p))"
proof -
  obtain commitments shares where e: "package = fr_package S commitments sighash"
    "gather r2 i chosen bm_empty = Some shares" "bm_ok shares" "length shares = t" "bm_keys commitments = bm_keys shares"
    using assms(1) by (auto simp: entry_ready_def)
  show ?thesis
  proof (cases "aggregate_rand S package shares public (params_for S gk (ng_alpha n))")
    case agg: (Inr sig)
    show ?thesis
    proof (cases "to_spend_auth S sig")
      case b: (Inr b)
      show ?thesis
      proof (cases "pl_apply_signature L sighash b (pz_actions (po_bundle p) ! ng_index n)")
        case (Some act')
        then have "signed_action S L gk public sighash t n (pz_actions (po_bundle p) ! ng_index n) act'"
          using e agg b unfolding signed_action_def by blast
        with e agg b assms(2) Some show ?thesis by (auto simp: apply_signature_def)
      qed (use e agg b assms(2) in \<open>simp add: apply_signature_def\<close>)
    qed (use e agg in simp)
  qed (use e in simp)
qed

lemma sign_needed_outcome:
  "sign_needed S L gk public sighash r2 chosen es p = (p', r) \<Longrightarrow>
    \<forall>e \<in> set es. entry_ready S sighash r2 chosen t e \<and> ng_index (fst (snd e)) < length (pz_actions (po_bundle p)) \<Longrightarrow>
    distinct (map (\<lambda>e. ng_index (fst (snd e))) es) \<Longrightarrow>
    payout_outcome S L gk public sighash t (map (\<lambda>e. fst (snd e)) es) p p' (map_sum (\<lambda>e. e) (\<lambda>_. length es) r)"
proof (induction es arbitrary: p)
  case Nil
  then show ?case using outcome_nothing by auto
next
  case (Cons e es)
  obtain i n package where e: "e = (i, n, package)" by (cases e)
  let ?acts = "pz_actions (po_bundle p)"
  have bound: "ng_index n < length ?acts" and ready: "entry_ready S sighash r2 chosen t (i, n, package)"
    using Cons.prems(2) by (auto simp: e)
  from sign_entry [OF ready bound, of L gk public es] show ?case
  proof
    assume "sign_needed S L gk public sighash r2 chosen ((i, n, package) # es) p = (p, Err BadSignature)"
    then have "p' = p" "r = Err BadSignature" using Cons.prems(1) by (simp_all add: e)
    then show ?thesis by (simp add: outcome_untouched)
  next
    assume "\<exists>act'. signed_action S L gk public sighash t n (?acts ! ng_index n) act' \<and>
      sign_needed S L gk public sighash r2 chosen ((i, n, package) # es) p =
        sign_needed S L gk public sighash r2 chosen es (with_actions (?acts [ng_index n := act']) p)"
    then obtain act' where act: "signed_action S L gk public sighash t n (?acts ! ng_index n) act'"
      and run: "sign_needed S L gk public sighash r2 chosen es (with_actions (?acts [ng_index n := act']) p) = (p', r)"
      using Cons.prems(1) by (auto simp: e)
    let ?p1 = "with_actions (?acts [ng_index n := act']) p"
    have "payout_outcome S L gk public sighash t (map (\<lambda>e. fst (snd e)) es) ?p1 p' (map_sum (\<lambda>e. e) (\<lambda>_. length es) r)"
      using Cons.IH [OF run] Cons.prems(2,3) by (simp add: e)
    then obtain acts' where acts': "p' = with_actions acts' p" "length acts' = length ?acts"
      and each: "\<And>j. j < length acts' \<Longrightarrow> acts' ! j = ?acts [ng_index n := act'] ! j \<or>
        (\<exists>n' \<in> set (map (\<lambda>e. fst (snd e)) es). ng_index n' = j \<and>
          signed_action S L gk public sighash t n' (?acts [ng_index n := act'] ! j) (acts' ! j))"
      and res: "case r of Inr k \<Rightarrow> (\<forall>n' \<in> set (map (\<lambda>e. fst (snd e)) es). signed_action S L gk public sighash t n'
            (?acts [ng_index n := act'] ! ng_index n') (acts' ! ng_index n'))
        | Inl e \<Rightarrow> e = BadSignature"
      unfolding payout_outcome_def by (cases r) auto
    have other: "ng_index n' \<noteq> ng_index n" if "n' \<in> set (map (\<lambda>e. fst (snd e)) es)" for n'
      using Cons.prems(3) that by (force simp: e)
    have same: "\<forall>e' \<in> set es. ?acts [ng_index n := act'] ! ng_index (fst (snd e')) = ?acts ! ng_index (fst (snd e'))"
      using other by (force intro!: nth_list_update_neq)
    have own: "acts' ! ng_index n = act'"
      using each [of "ng_index n"] other bound acts'(2) by auto
    have "acts' ! j = ?acts ! j \<or> (\<exists>n' \<in> set (map (\<lambda>e. fst (snd e)) (e # es)). ng_index n' = j \<and>
        signed_action S L gk public sighash t n' (?acts ! j) (acts' ! j))" if "j < length acts'" for j
      using each [OF that] act own by (cases "j = ng_index n") (auto simp: e)
    moreover have "case map_sum (\<lambda>e. e) (\<lambda>_. length (e # es)) r of
        Inr k \<Rightarrow> k = length (map (\<lambda>e. fst (snd e)) (e # es)) \<and>
          (\<forall>n' \<in> set (map (\<lambda>e. fst (snd e)) (e # es)). signed_action S L gk public sighash t n'
            (?acts ! ng_index n') (acts' ! ng_index n'))
      | Inl e \<Rightarrow> e = BadSignature"
      using res act own same by (cases r) (auto simp: e)
    ultimately show ?thesis using acts' unfolding payout_outcome_def by blast
  qed
qed

text \<open>The packages bind the sighash to the commitments of the chosen.\<close>

lemma action_packages_total:
  assumes "\<forall>pid \<in> set chosen. \<exists>cs. bm_get r1 pid = Some cs \<and> length cs = k"
  shows "\<forall>i \<in> set is. i < k \<Longrightarrow> \<exists>ps. action_packages S sighash r1 chosen is = Some ps \<and> length ps = length is \<and>
    (\<forall>j < length is. \<exists>commitments. gather r1 (is ! j) chosen bm_empty = Some commitments \<and>
      ps ! j = fr_package S commitments sighash)"
proof (induction "is")
  case (Cons i "is")
  have "\<forall>pid \<in> set chosen. \<exists>cs. bm_get r1 pid = Some cs \<and> i < length cs" using assms Cons.prems by auto
  from gather_total [OF this] obtain commitments where g: "gather r1 i chosen bm_empty = Some commitments" by blast
  from Cons obtain ps where ps: "action_packages S sighash r1 chosen is = Some ps" "length ps = length is"
    "\<forall>j < length is. \<exists>commitments. gather r1 (is ! j) chosen bm_empty = Some commitments \<and>
      ps ! j = fr_package S commitments sighash" by auto
  from ps(3) g have "\<forall>j < Suc (length is). \<exists>commitments. gather r1 ((i # is) ! j) chosen bm_empty = Some commitments \<and>
      (fr_package S commitments sighash # ps) ! j = fr_package S commitments sighash"
    by (auto simp: less_Suc_eq_0_disj)
  then show ?case using g ps by (auto simp: less_Suc_eq_0_disj)
qed simp

lemma map_zip_middle: "length ns = length is \<Longrightarrow> length ps = length is \<Longrightarrow> map (\<lambda>e. fst (snd e)) (zip is (zip ns ps)) = ns"
  by (induction ns arbitrary: "is" ps) (auto simp: length_Suc_conv length_Suc_conv_rev Suc_length_conv)

context share_quorum
begin

text \<open>Whatever a quorum that keeps its contract answers, the outcome is one of the two.\<close>

lemma sign_all_with_outcome:
  assumes "q_inv q"
    and "sign_all_with S L q_round1 q_round2 request sighash threshold gk public now p q = (q', p', r)"
  shows "payout_outcome S L gk public sighash (unat threshold) (needs_signatures S L gk p) p p' r"
proof -
  let ?needed = "needs_signatures S L gk p" and ?want = "unat threshold"
  let ?alphas = "map ng_alpha ?needed"
  obtain q1 r1 where r1: "q_round1 request sighash ?alphas now q = (q1, r1)" by fastforce
  let ?chosen = "take ?want (bm_keys r1)"
  note law1 = round1_law [OF assms(1) r1]
  show ?thesis
  proof (cases "?needed = [] \<or> length r1 < ?want")
    case True
    then show ?thesis using assms(2) by (auto simp: sign_all_with_def r1 Let_def outcome_untouched outcome_nothing split: if_splits)
  next
    case False
    have dist: "distinct ?chosen" using law1 by (simp add: bm_keys_def bm_ok_distinct)
    have len: "length ?chosen = ?want" using False by (simp add: bm_keys_def)
    have "\<forall>pid \<in> set ?chosen. \<exists>cs. bm_get r1 pid = Some cs \<and> length cs = length ?alphas"
      using chosen_have_commitments [OF assms(1) r1] by blast
    from action_packages_total [OF this, of "[0..<length ?alphas]" S sighash] obtain packages where
      packages: "action_packages S sighash r1 ?chosen [0..<length ?alphas] = Some packages"
      "length packages = length ?needed"
      and each: "\<And>j. j < length ?needed \<Longrightarrow> \<exists>commitments. gather r1 j ?chosen bm_empty = Some commitments \<and>
        packages ! j = fr_package S commitments sighash" by auto
    obtain q2 r2 where r2: "q_round2 request ?chosen packages q1 = (q2, r2)" by fastforce
    note law2 = round2_law [OF conjunct1 [OF law1] r2]
    show ?thesis
    proof (cases "length r2 < ?want")
      case True
      then show ?thesis using False assms(2) packages r2
        by (auto simp: sign_all_with_def r1 Let_def outcome_untouched)
    next
      case enough: False
      have sub: "set (bm_keys r2) \<subseteq> set ?chosen"
        using law2 by (auto simp: all_entries_def bm_keys_def)
      have "card (set (bm_keys r2)) = length r2"
        using law2 by (simp add: bm_keys_def length_bm)
      moreover have "card (set ?chosen) = ?want" using distinct_card [OF dist] len by simp
      ultimately have all: "set (bm_keys r2) = set ?chosen"
        using sub enough by (metis card_seteq List.finite_set not_less)
      have shares: "\<exists>xs. bm_get r2 pid = Some xs \<and> length xs = length packages" if "pid \<in> set ?chosen" for pid
      proof -
        have "bm_contains r2 pid" using that all by (simp add: bm_contains_iff)
        then obtain xs where xs: "bm_get r2 pid = Some xs" by (auto simp: bm_contains_def)
        with answers_are_chosen [OF conjunct1 [OF law1] r2 xs] show ?thesis by blast
      qed
      let ?es = "zip [0..<length ?needed] (zip ?needed packages)"
      have ready: "entry_ready S sighash r2 ?chosen ?want e" if e: "e \<in> set ?es" for e
      proof -
        obtain j where j: "j < length ?needed" "e = (j, ?needed ! j, packages ! j)"
          using e packages(2) by (auto simp: in_set_zip)
        obtain commitments where c: "gather r1 j ?chosen bm_empty = Some commitments"
          "packages ! j = fr_package S commitments sighash" using each [OF j(1)] by blast
        have "\<forall>pid \<in> set ?chosen. \<exists>xs. bm_get r2 pid = Some xs \<and> j < length xs"
          using shares j(1) packages(2) by metis
        from gather_total [OF this] obtain out where o: "gather r2 j ?chosen bm_empty = Some out" by blast
        have "bm_keys commitments = bm_keys out"
          by (rule bm_keys_eq) (use gather_keys [OF c(1) dist] gather_keys [OF o dist] in simp_all)
        then show ?thesis using c o gather_keys [OF o dist] len by (auto simp: entry_ready_def j(2))
      qed
      obtain p1 res where run: "sign_needed S L gk public sighash r2 ?chosen ?es p = (p1, res)" by fastforce
      have names: "map (\<lambda>e. fst (snd e)) ?es = ?needed"
        by (rule map_zip_middle) (use packages(2) in simp_all)
      have idx: "map (\<lambda>e. ng_index (fst (snd e))) ?es = map ng_index ?needed"
        using arg_cong [OF names, of "map ng_index"] by (simp add: comp_def)
      have "\<forall>e \<in> set ?es. entry_ready S sighash r2 ?chosen ?want e \<and> ng_index (fst (snd e)) < length (pz_actions (po_bundle p))"
        using ready needed_indices(2) [of _ S L gk p] arg_cong [OF names, of set] by (auto simp only: set_map) blast+
      from sign_needed_outcome [OF run this] idx names needed_indices(1) [of S L gk p]
      have "payout_outcome S L gk public sighash ?want ?needed p p1 (map_sum (\<lambda>e. e) (\<lambda>_. length ?es) res)" by simp
      moreover have "p' = p1 \<and> r = map_sum (\<lambda>e. e) (\<lambda>_. length ?es) res"
        using assms(2) False enough packages r2 run
        by (cases res) (auto simp: sign_all_with_def r1 Let_def)
      ultimately show ?thesis by blast
    qed
  qed
qed

end

section \<open>From the sighash to the broadcast\<close>

text \<open>The steps between the sighash and the sealed transaction, in any order and any number, whether
  they succeed or not.\<close>

inductive authorising :: "('n, 'x, 'y, 'r) payout_lib \<Rightarrow> bytes \<Rightarrow> ('n, 'y) payout \<Rightarrow> ('n, 'y) payout \<Rightarrow> bool"
  for L :: "('n, 'x, 'y, 'r) payout_lib" and h :: bytes and p :: "('n, 'y) payout" where
  refl: "authorising L h p p"
| finalize: "authorising L h p p1 \<Longrightarrow> finalize_io L h p1 rng = (res, p2, rng') \<Longrightarrow> authorising L h p p2"
| proof_made: "authorising L h p p1 \<Longrightarrow> prove L pk p1 rng = (res, p2, rng') \<Longrightarrow> authorising L h p p2"
| signature: "authorising L h p p1 \<Longrightarrow> apply_signature L i h sig p1 = (p2, res) \<Longrightarrow> authorising L h p p2"
| own_key: "authorising L h p p1 \<Longrightarrow> sign_with_key L h ask p1 rng = (p2, k, rng') \<Longrightarrow> authorising L h p p2"

lemma authorising_trans: "authorising L h p1 p2 \<Longrightarrow> authorising L h p p1 \<Longrightarrow> authorising L h p p2"
  by (induction rule: authorising.induct) (blast intro: authorising.intros)+

lemma sign_needed_authorising:
  "sign_needed S L gk public h r2 chosen es p = (p', r) \<Longrightarrow> authorising L h p p'"
proof (induction es arbitrary: p)
  case (Cons e es)
  obtain i n package where e: "e = (i, n, package)" by (cases e)
  show ?case
  proof (cases "p' = p")
    case False
    then obtain b p1 res where a: "apply_signature L (ng_index n) h b p = (p1, res)"
      and r: "p' = p1 \<or> sign_needed S L gk public h r2 chosen es p1 = (p', r)"
      using Cons.prems by (auto simp: e split: option.splits sum.splits prod.splits)
    have "authorising L h p p1" by (rule authorising.signature [OF authorising.refl a])
    with r Cons.IH show ?thesis by (blast intro: authorising_trans)
  qed (simp add: authorising.refl)
qed (simp add: authorising.refl)

text \<open>So signing through a quorum is such a run of steps.\<close>

lemma quorum_authorising:
  assumes "sign_all_with S L q_round1 q_round2 request h threshold gk public now p q = (q', p', r)"
  shows "authorising L h p p'"
  using assms by (auto simp: sign_all_with_def Let_def authorising.refl
      split: if_splits prod.splits option.splits sum.splits dest!: sign_needed_authorising)

text \<open>What the libraries promise: authorising a bundle leaves its effects alone, the extracted bundle has
  the effects extracted before, binding keeps them, a builder without inputs makes a bundle without
  inputs, and the sighash reads the header, the transparent side and the effects (ZIP-244).\<close>

definition authorise_laws :: "('n, 'x, 'y, 'r) payout_lib \<Rightarrow> ('y \<Rightarrow> 'e) \<Rightarrow> bool" where
  "authorise_laws L eff \<longleftrightarrow>
    (\<forall>h b r res b' r'. pl_finalize_io L h b r = (res, b', r') \<longrightarrow> pl_extract_effects L b' = pl_extract_effects L b) \<and>
    (\<forall>pk b r res b' r'. pl_create_proof L pk b r = (res, b', r') \<longrightarrow> pl_extract_effects L b' = pl_extract_effects L b) \<and>
    (\<forall>h sig b i act. i < length (pz_actions b) \<and> pl_apply_signature L h sig (pz_actions b ! i) = Some act \<longrightarrow>
      pl_extract_effects L (b \<lparr> pz_actions := (pz_actions b) [i := act] \<rparr>) = pl_extract_effects L b) \<and>
    (\<forall>h ask r b i act r'. i < length (pz_actions b) \<and> pl_sign_action L h ask (pz_actions b ! i) r = (Some act, r') \<longrightarrow>
      pl_extract_effects L (b \<lparr> pz_actions := (pz_actions b) [i := act] \<rparr>) = pl_extract_effects L b) \<and>
    (\<forall>b e u. pl_extract_effects L b = Ok e \<and> pl_extract L b = Ok (Some u) \<longrightarrow> map_option eff e = Some (eff u)) \<and>
    (\<forall>h u r a r'. pl_bind L h u r = (Some a, r') \<longrightarrow> eff a = eff u) \<and>
    (\<forall>t b. payments_only L t \<and> pl_t_build L t = Some b \<longrightarrow> tb_vin b = []) \<and>
    (\<forall>t orchard orchard'. map_option eff orchard = map_option eff orchard' \<longrightarrow>
      pl_sighash L (t \<lparr> tx_orchard := orchard \<rparr>) = pl_sighash L (t \<lparr> tx_orchard := orchard' \<rparr>))"

lemma authorise_lawsD:
  assumes "authorise_laws L eff"
  shows "pl_finalize_io L h b r = (res, b', r') \<Longrightarrow> pl_extract_effects L b' = pl_extract_effects L b"
    "pl_create_proof L pk b r = (res, b', r') \<Longrightarrow> pl_extract_effects L b' = pl_extract_effects L b"
    "i < length (pz_actions b) \<Longrightarrow> pl_apply_signature L h sig (pz_actions b ! i) = Some act \<Longrightarrow>
      pl_extract_effects L (b \<lparr> pz_actions := (pz_actions b) [i := act] \<rparr>) = pl_extract_effects L b"
    "i < length (pz_actions b) \<Longrightarrow> pl_sign_action L h ask (pz_actions b ! i) r = (Some act, r') \<Longrightarrow>
      pl_extract_effects L (b \<lparr> pz_actions := (pz_actions b) [i := act] \<rparr>) = pl_extract_effects L b"
    "pl_extract_effects L b = Ok e \<Longrightarrow> pl_extract L b = Ok (Some u) \<Longrightarrow> map_option eff e = Some (eff u)"
    "pl_bind L h u r = (Some a, r') \<Longrightarrow> eff a = eff u"
    "payments_only L t \<Longrightarrow> pl_t_build L t = Some tb \<Longrightarrow> tb_vin tb = []"
    "map_option eff orchard = map_option eff orchard' \<Longrightarrow>
      pl_sighash L (tx \<lparr> tx_orchard := orchard \<rparr>) = pl_sighash L (tx \<lparr> tx_orchard := orchard' \<rparr>)"
  using assms unfolding authorise_laws_def by metis+

lemma sign_actions_effects:
  assumes "authorise_laws L eff"
  shows "sign_actions L h ask acts rng = (acts', k, rng') \<Longrightarrow>
    pl_extract_effects L (b \<lparr> pz_actions := pre @ acts' \<rparr>) = pl_extract_effects L (b \<lparr> pz_actions := pre @ acts \<rparr>)"
proof (induction acts arbitrary: rng acts' k pre)
  case (Cons act acts)
  obtain res rng1 where s: "pl_sign_action L h ask act rng = (res, rng1)" by fastforce
  obtain acts1 k1 rng2 where r: "sign_actions L h ask acts rng1 = (acts1, k1, rng2)" by (metis prod.exhaust)
  define act' where "act' = (case res of Some a \<Rightarrow> a | None \<Rightarrow> act)"
  have acts': "acts' = act' # acts1" and rng2: "rng2 = rng'"
    using Cons.prems s r by (auto simp: act'_def split: option.splits)
  have "pl_extract_effects L (b \<lparr> pz_actions := pre @ act' # acts \<rparr>) = pl_extract_effects L (b \<lparr> pz_actions := pre @ act # acts \<rparr>)"
  proof (cases res)
    case (Some a)
    from authorise_lawsD(4) [OF assms, of "length pre" "b \<lparr> pz_actions := pre @ act # acts \<rparr>" h ask rng a rng1] s Some
    show ?thesis by (simp add: act'_def)
  qed (simp add: act'_def)
  with Cons.IH [OF r [unfolded rng2], of "pre @ [act']"] show ?case by (simp add: acts')
qed simp

lemma authorising_keeps:
  assumes "authorise_laws L eff"
  shows "authorising L h p p' \<Longrightarrow> pl_extract_effects L (po_bundle p') = pl_extract_effects L (po_bundle p) \<and>
    po_transparent p' = po_transparent p \<and> po_pool p' = po_pool p \<and> po_spent p' = po_spent p \<and> po_fee p' = po_fee p"
proof (induction rule: authorising.induct)
  case (finalize p1 rng res p2 rng')
  then show ?case using authorise_lawsD(1) [OF assms] by (auto simp: finalize_io_def split: prod.splits)
next
  case (proof_made p1 pk rng res p2 rng')
  then show ?case using authorise_lawsD(2) [OF assms] by (auto simp: prove_def split: prod.splits)
next
  case (signature p1 i sig p2 res)
  then show ?case using authorise_lawsD(3) [OF assms, of i "po_bundle p1" h sig]
    by (auto simp: apply_signature_def with_actions_def Let_def split: if_splits option.splits)
next
  case (own_key p1 ask rng p2 k rng')
  then obtain acts' where "sign_actions L h ask (pz_actions (po_bundle p1)) rng = (acts', k, rng')" "p2 = with_actions acts' p1"
    by (auto simp: sign_with_key_def split: prod.splits)
  with sign_actions_effects [OF assms this(1), where b = "po_bundle p1" and pre = "[]"] own_key.IH show ?case
    by (simp add: with_actions_def)
qed simp

section \<open>Properties\<close>

text \<open>C7: Only threshold signatures are applied. Through the quorum in the process and through the networked one
  alike, whatever the share-holders or the network answer, \<open>sign_all_with\<close> either reports every action of
  the vault signed, or a bad signature; it never names an action the bundle lacks. An action it changes
  is one of the vault's own, and changed by a signature aggregated from one share of each of exactly a
  threshold of participants over the sighash, under the action's own randomizer, that the action accepted.\<close>

theorem only_threshold_signatures_applied:
  assumes "lq_inv q"
  shows "(case sign_all_with S L (lq_round1 S) (lq_round2 S) request sighash threshold gk public now p q of
      (q', p', r) \<Rightarrow> payout_outcome S L gk public sighash (unat threshold) (needs_signatures S L gk p) p p' r) \<and>
    (case sign_all_with S L (\<lambda>request sighash alphas now. remote_round1 S call custodians request sighash alphas)
        (remote_round2 S call custodians) request sighash threshold gk public now p net of
      (net', p', r) \<Rightarrow> payout_outcome S L gk public sighash (unat threshold) (needs_signatures S L gk p) p p' r)"
  using lq.sign_all_with_outcome [OF assms] rq.sign_all_with_outcome by (auto split: prod.splits)

definition payout_holders :: "(u16 \<times> bytes threshold_keys) list" where
  "payout_holders = [(1, \<lparr> tk_key_package = [0, 1], tk_public_package = [7] \<rparr>),
    (2, \<lparr> tk_key_package = [0, 2], tk_public_package = [7] \<rparr>)]"

theorem only_threshold_signatures_applied_witness:
  "\<exists>q' p'. sign_all_with vault_suite demo_payout_lib (lq_round1 vault_suite) (lq_round2 vault_suite) 9 (zeros 32) 2 [7] [7] 0
      demo_payout (map (\<lambda>e. participant_new (snd e)) payout_holders, 0) = (q', p', Ok 1) \<and>
    pz_actions (po_bundle p') = [2, -1] \<and> po_fee p' = po_fee demo_payout"
proof -
  let ?q = "(map (\<lambda>e. participant_new (snd e)) payout_holders, 0) :: (u16, bytes) participant list \<times> nat"
  let ?run = "sign_all_with vault_suite demo_payout_lib (lq_round1 vault_suite) (lq_round2 vault_suite) 9 (zeros 32) 2 [7] [7] 0
      demo_payout ?q"
  have inv: "lq_inv ?q" by (auto simp: lq_inv_def)
  have acts: "pz_actions (po_bundle (fst (snd ?run))) = [2, -1]" by code_simp
  have r: "case snd (snd ?run) of Inr n \<Rightarrow> n = 1 | Inl _ \<Rightarrow> False" by code_simp
  obtain q' p' res where run: "?run = (q', p', res)" by (metis prod.exhaust)
  have "payout_outcome vault_suite demo_payout_lib [7] [7] (zeros 32) (unat (2 :: u16))
      (needs_signatures vault_suite demo_payout_lib [7] demo_payout) demo_payout p' res"
    using only_threshold_signatures_applied [OF inv, where S = vault_suite and L = demo_payout_lib and request = 9
        and sighash = "zeros 32" and threshold = 2 and gk = "[7]" and public = "[7]" and now = 0 and p = demo_payout, THEN conjunct1] run
    by simp
  then obtain acts' where "p' = with_actions acts' demo_payout" unfolding payout_outcome_def by blast
  then have "po_fee p' = po_fee demo_payout" by (simp add: with_actions_def)
  with run acts r show ?thesis by (auto split: sum.splits)
qed

text \<open>C24: What is broadcast is what was signed. Take a payout \<open>build\<close> made and the sighash taken of it. After any
  authorising steps, quorum signing among them, the sealed transaction has that very sighash, the
  envelope's expiry, a version its pool exists in, and the outputs and notes the payout was planned with.\<close>

theorem broadcast_is_what_was_signed:
  assumes "authorise_laws L eff"
    and "build N L store fvk ovk payments change_to version rng0 = (Ok p, rng1)"
    and "payout_sighash L env p = Ok h" and "authorising L h p p'"
    and "payout_extract L h env p' rng = (Ok s, rng')"
  shows "\<exists>tx frozen. pl_freeze L tx = Ok frozen \<and> pl_write L frozen = Ok (sd_bytes s) \<and> sd_txid s = pl_txid L frozen \<and>
    pl_sighash L tx = h \<and> tx_transparent tx = po_transparent p \<and> sd_spent s = po_spent p \<and>
    tx_expiry tx = en_expiry env \<and> tx_lock_time tx = 0 \<and> (tx_version tx = V6 \<longleftrightarrow> po_pool p = Ironwood)"
proof -
  note keeps = authorising_keeps [OF assms(1,4)]
  obtain e where e: "pl_extract_effects L (po_bundle p) = Ok e"
    "h = pl_sighash L (tx_around env (po_pool p) (po_transparent p) e)"
    using assms(3) by (auto simp: payout_sighash_def result_simps)
  obtain u where u: "pl_extract L (po_bundle p') = Ok (Some u)"
    using assms(5) by (auto simp: payout_extract_def envelope_err_def split: sum.splits option.splits)
  obtain a rng2 where a: "pl_bind L h u rng = (Some a, rng2)"
    using assms(5) u by (auto simp: payout_extract_def envelope_err_def split: option.splits prod.splits)
  have inputs: "\<And>b. po_transparent p = Some b \<Longrightarrow> tb_vin b = []"
    using build_transparent [OF assms(2)] authorise_lawsD(7) [OF assms(1)] by metis
  have t: "map_option (\<lambda>t. \<lparr> tb_vin = [], tb_vout = tb_vout t \<rparr>) (po_transparent p') = po_transparent p"
    using keeps inputs by (cases "po_transparent p") (auto simp: transparent_bundle.equality)
  let ?tx = "tx_around env (po_pool p) (po_transparent p) (Some a)"
  obtain frozen b where f: "pl_freeze L ?tx = Ok frozen" "pl_write L frozen = Ok b"
    "s = \<lparr> sd_txid = pl_txid L frozen, sd_bytes = b, sd_spent = po_spent p \<rparr>"
    using assms(5) u a keeps t
    by (auto simp: payout_extract_def envelope_err_Ok result_simps Let_def simp del: and_then_simps) 
      (auto simp: envelope_err_def result_simps split: sum.splits)
  have "map_option eff e = Some (eff u)" using authorise_lawsD(5) [OF assms(1)] e(1) u keeps by metis
  moreover have "eff a = eff u" by (rule authorise_lawsD(6) [OF assms(1) a])
  ultimately have "map_option eff e = map_option eff (Some a)" by simp
  from authorise_lawsD(8) [OF assms(1) this, of "tx_around env (po_pool p) (po_transparent p) None"]
  have "pl_sighash L ?tx = h" using e(2) by (simp add: tx_around_def)
  moreover have "tx_transparent ?tx = po_transparent p \<and> tx_expiry ?tx = en_expiry env \<and> tx_lock_time ?tx = 0 \<and>
      (tx_version ?tx = V6 \<longleftrightarrow> po_pool p = Ironwood)"
    by (simp add: tx_around_def split: value_pool.splits)
  ultimately show ?thesis using f by (intro exI [of _ ?tx] exI [of _ frozen]) simp
qed

lemma demo_authorise_laws: "authorise_laws demo_payout_lib (\<lambda>e. e)"
  by (auto simp: authorise_laws_def demo_payout_lib_def option.map_ident split: if_splits)

definition demo_envelope :: "int envelope" where
  "demo_envelope = envelope_at demo_payout_lib TestNetwork 4140000"

theorem broadcast_is_what_was_signed_witness:
  "\<exists>s rng'. payout_extract demo_payout_lib (of_int 120000 # zeros 31) demo_envelope
      (fst (sign_with_key demo_payout_lib (of_int 120000 # zeros 31) 1 demo_payout 5)) 0 = (Ok s, rng') \<and>
    sd_spent s = po_spent demo_payout"
proof -
  let ?h = "of_int 120000 # zeros 31 :: bytes"
  obtain p' k rng where k: "sign_with_key demo_payout_lib ?h 1 demo_payout 5 = (p', k, rng)" by (metis prod.exhaust)
  have h: "payout_sighash demo_payout_lib demo_envelope demo_payout = Ok ?h"
    by (simp add: payout_sighash_def tx_around_def demo_payout_lib_def demo_payout_def envelope_err_def)
  have a: "authorising demo_payout_lib ?h demo_payout p'" by (rule authorising.own_key [OF authorising.refl k])
  have "\<exists>s. payout_extract demo_payout_lib ?h demo_envelope p' 0 = (Ok s, 0)"
    by (simp add: payout_extract_def demo_payout_lib_def envelope_err_def Let_def)
  then obtain s where s: "payout_extract demo_payout_lib ?h demo_envelope p' 0 = (Ok s, 0)" by blast
  from broadcast_is_what_was_signed [OF demo_authorise_laws demo_build h a s] s k show ?thesis by auto
qed

end
