(* ===== verification/Notes_Disk.thy ===== *)
theory Notes_Disk
  imports Notes Wire
begin

text \<open>
  notes.rs, module \<open>disk\<close>: the note store as bytes. The parts of a \<open>bridgetree\<close> that the writer
  reaches and the reader hands back are records; the checks of \<open>orchard\<close> and \<open>bridgetree\<close> on what
  is read (a canonical hash, a frontier, a note, a tree) are the record \<open>disk_lib\<close>. The writer and
  the reader \<open>R\<close> are codecs of the locale \<open>stream_codec\<close>: a reader that more input does not change.
\<close>

section \<open>Readers of a stream\<close>

text \<open>What a reader has read stays read when the input goes on.\<close>

definition stable :: "'a reader \<Rightarrow> bool" where
  "stable get \<longleftrightarrow> (\<forall>b x r z. get b = Some (x, r) \<longrightarrow> get (b @ z) = Some (x, r @ z))"

named_theorems stable_intros \<open>readers that more input does not change\<close>

lemma stableD: "stable get \<Longrightarrow> get b = Some (x, r) \<Longrightarrow> get (b @ z) = Some (x, r @ z)"
  unfolding stable_def by blast

lemma stable_bind [stable_intros]:
  assumes "stable get" and "\<And>x. stable (k x)"
  shows "stable (\<lambda>b. Option.bind (get b) (\<lambda>(x, r). k x r))"
proof -
  have "Option.bind (get (b @ z)) (\<lambda>(x, r). k x r) = Some (y, r @ z)"
    if a: "Option.bind (get b) (\<lambda>(x, r). k x r) = Some (y, r)" for b y r z
  proof -
    obtain x r' where "get b = Some (x, r')" "k x r' = Some (y, r)"
      using a by (auto simp: Option.bind_eq_Some_conv)
    with stableD [OF assms(1)] stableD [OF assms(2)] show ?thesis by simp
  qed
  then show ?thesis by (simp add: stable_def)
qed

lemma stable_return [stable_intros]: "stable (\<lambda>b. Some (x, b))"
  by (simp add: stable_def)

lemma stable_none [stable_intros]: "stable (\<lambda>b. None)"
  by (simp add: stable_def)

lemma stable_if [stable_intros]: "stable f \<Longrightarrow> stable g \<Longrightarrow> stable (\<lambda>b. if c then f b else g b)"
  by (simp add: stable_def)

lemma stable_option [stable_intros]: "(\<And>x. stable (k x)) \<Longrightarrow> stable (\<lambda>b. Option.bind m (\<lambda>x. k x b))"
  by (cases m) (simp_all add: stable_def)

lemma stable_take [stable_intros]: "stable (rd_take n)"
  by (auto simp: stable_def rd_take_Some)

lemma stable_u8 [stable_intros]: "stable rd_u8"
  by (auto simp: stable_def rd_u8_Some)

lemma stable_le [stable_intros]: "stable (rd_le n)"
  unfolding rd_le_def [abs_def] by (intro stable_intros)

lemma stable_many [stable_intros]: "stable get \<Longrightarrow> stable (rd_many get n)"
proof (induction n)
  case (Suc n)
  then have "stable (\<lambda>b. do { (x, r) \<leftarrow> get b; (xs, r') \<leftarrow> rd_many get n r; Some (x # xs, r') })"
    by (intro stable_intros)
  then show ?case by (simp add: stable_def)
qed (simp add: stable_def)

lemma stable_list [stable_intros]: "stable get \<Longrightarrow> stable (rd_list get)"
  unfolding rd_list_def [abs_def] by (intro stable_intros)

locale stream_codec = wire_codec +
  assumes stable_get: "stable get"
begin

text \<open>A strict beginning of what was written is not read.\<close>

lemma cut_short:
  assumes "fits x" and "put x = p @ z" and "z \<noteq> []"
  shows "get p = None"
proof (rule ccontr)
  assume "get p \<noteq> None"
  then obtain y r where "get p = Some (y, r)" by auto
  from stableD [OF stable_get this, of z] get_put_end [OF assms(1)] assms(2) have "r @ z = []" by simp
  with assms(3) show False by simp
qed

lemma list_stream: "stream_codec (put_list put) (rd_list get) (\<lambda>xs. length xs < 2 ^ 32 \<and> list_all fits xs)"
  by (intro stream_codec.intro stream_codec_axioms.intro list_codec stable_intros stable_get)

end

section \<open>The parts of a tree\<close>

type_synonym tree_address = "byte \<times> u64"

record disk_frontier =
  df_position :: u64
  df_leaf :: bytes
  df_ommers :: "bytes list"

record tree_bridge =
  br_prior :: "u64 option"
  br_tracking :: "tree_address list"
  br_ommers :: "(tree_address, bytes) bmap"
  br_frontier :: disk_frontier

record tree_mark =
  cp_id :: u32
  cp_bridges_len :: nat
  cp_marked :: "u64 list"
  cp_forgotten :: "u64 list"

record tree_parts =
  tp_prior :: "tree_bridge list"
  tp_current :: "tree_bridge option"
  tp_saved :: "(u64, nat) bmap"
  tp_checkpoints :: "tree_mark list"
  tp_max :: nat

datatype note_version = NoteV2 | NoteV3

record ('n, 't) disk_lib =
  dl_parts :: "'t \<Rightarrow> tree_parts"
  dl_from_parts :: "tree_parts \<Rightarrow> 't option"
  dl_hash_ok :: "bytes \<Rightarrow> bool"
  dl_frontier_ok :: "disk_frontier \<Rightarrow> bool"
  dl_recipient :: "'n \<Rightarrow> bytes"
  dl_rho :: "'n \<Rightarrow> bytes"
  dl_rseed :: "'n \<Rightarrow> bytes"
  dl_version :: "'n \<Rightarrow> note_version"
  dl_address_ok :: "bytes \<Rightarrow> bool"
  dl_rho_ok :: "bytes \<Rightarrow> bool"
  dl_rseed_ok :: "bytes \<Rightarrow> bytes \<Rightarrow> bool"
  dl_note :: "bytes \<Rightarrow> u64 \<Rightarrow> bytes \<Rightarrow> bytes \<Rightarrow> note_version \<Rightarrow> 'n option"

definition STORE_MAGIC :: bytes where
  "STORE_MAGIC = ascii ''ZECNOTE1''"

section \<open>The writer\<close>

definition put_opt_u64 :: "u64 option \<Rightarrow> bytes" where
  "put_opt_u64 v = (case v of Some x \<Rightarrow> 1 # le_bytes 8 (unat x) | None \<Rightarrow> 0 # le_bytes 8 0)"

definition put_u64 :: "u64 \<Rightarrow> bytes" where
  "put_u64 v = le_bytes 8 (unat v)"

definition put_address :: "tree_address \<Rightarrow> bytes" where
  "put_address a = fst a # put_u64 (snd a)"

definition put_frontier :: "disk_frontier \<Rightarrow> bytes" where
  "put_frontier f = put_u64 (df_position f) @ df_leaf f @ put_list (\<lambda>h. h) (df_ommers f)"

definition put_bridge :: "tree_bridge \<Rightarrow> bytes" where
  "put_bridge b = put_opt_u64 (br_prior b) @ put_list put_address (br_tracking b)
    @ put_list (\<lambda>e. put_address (fst e) @ snd e) (br_ommers b) @ put_frontier (br_frontier b)"

definition put_mark :: "tree_mark \<Rightarrow> bytes" where
  "put_mark c = le_bytes 4 (unat (cp_id c)) @ le_bytes 8 (cp_bridges_len c)
    @ put_list put_u64 (cp_marked c) @ put_list put_u64 (cp_forgotten c)"

definition put_saved :: "u64 \<times> nat \<Rightarrow> bytes" where
  "put_saved e = put_u64 (fst e) @ le_bytes 8 (snd e)"

definition put_current :: "tree_bridge option \<Rightarrow> bytes" where
  "put_current c = (case c of Some b \<Rightarrow> 1 # put_bridge b | None \<Rightarrow> [0])"

definition put_tree :: "tree_parts \<Rightarrow> bytes" where
  "put_tree t = le_bytes 4 (tp_max t) @ put_list put_bridge (tp_prior t)
    @ put_current (tp_current t) @ put_list put_saved (tp_saved t) @ put_list put_mark (tp_checkpoints t)"

definition put_held :: "('n, 't) note_lib \<Rightarrow> ('n, 't) disk_lib \<Rightarrow> 'n held_note \<Rightarrow> bytes" where
  "put_held N D h = put_u64 (hn_position h) @ put_u64 (hn_height h) @ hn_txid h @ dl_recipient D (hn_note h)
    @ put_u64 (nl_value N (hn_note h)) @ dl_rho D (hn_note h) @ dl_rseed D (hn_note h)
    @ [case dl_version D (hn_note h) of NoteV2 \<Rightarrow> 2 | NoteV3 \<Rightarrow> 3]"

definition put_head :: "('n, 't) note_lib \<Rightarrow> ('n, 't) disk_lib \<Rightarrow> ('n, 't) note_store \<Rightarrow> bytes" where
  "put_head N D s = STORE_MAGIC @ put_u64 (ns_appended s) @ put_opt_u64 (ns_synced_to s)
    @ put_tree (dl_parts D (ns_tree s)) @ put_list (put_held N D) (bm_values (ns_held s))"

definition store_encode :: "('n, 't) note_lib \<Rightarrow> ('n, 't) disk_lib \<Rightarrow> ('n, 't) note_store \<Rightarrow> bytes" where
  "store_encode N D s = put_head N D s @ put_list (put_held N D) (bm_values (ns_in_flight s))
    @ put_list (\<lambda>nf. nf) (ns_spent s)"

section \<open>The reader\<close>

definition rd_opt_u64 :: "u64 option reader" where
  "rd_opt_u64 b = do { (has, r) \<leftarrow> rd_u8 b; (v, r) \<leftarrow> rd_le 8 r; Some (if has \<noteq> 0 then Some v else None, r) }"

definition rd_address :: "tree_address reader" where
  "rd_address b = do { (l, r) \<leftarrow> rd_u8 b; (i, r) \<leftarrow> rd_le 8 r; Some ((l, i), r) }"

definition rd_hash :: "('n, 't) disk_lib \<Rightarrow> bytes reader" where
  "rd_hash D b = do { (h, r) \<leftarrow> rd_take 32 b; if dl_hash_ok D h then Some (h, r) else None }"

definition rd_frontier :: "('n, 't) disk_lib \<Rightarrow> disk_frontier reader" where
  "rd_frontier D b = do {
     (pos, r) \<leftarrow> rd_le 8 b;
     (leaf, r) \<leftarrow> rd_hash D r;
     (ommers, r) \<leftarrow> rd_list (rd_hash D) r;
     if dl_frontier_ok D \<lparr> df_position = pos, df_leaf = leaf, df_ommers = ommers \<rparr>
     then Some (\<lparr> df_position = pos, df_leaf = leaf, df_ommers = ommers \<rparr>, r) else None
   }"

text \<open>Inserting into a \<open>BTreeSet\<close> one by one.\<close>

definition bs_of :: "'a::linorder list \<Rightarrow> 'a list" where
  "bs_of xs = fold bs_insert xs []"

definition rd_ommer :: "('n, 't) disk_lib \<Rightarrow> (tree_address \<times> bytes) reader" where
  "rd_ommer D b = do { (a, r) \<leftarrow> rd_address b; (h, r) \<leftarrow> rd_hash D r; Some ((a, h), r) }"

definition rd_bridge :: "('n, 't) disk_lib \<Rightarrow> tree_bridge reader" where
  "rd_bridge D b = do {
     (prior, r) \<leftarrow> rd_opt_u64 b;
     (tracking, r) \<leftarrow> rd_list rd_address r;
     (ommers, r) \<leftarrow> rd_list (rd_ommer D) r;
     (frontier, r) \<leftarrow> rd_frontier D r;
     Some (\<lparr> br_prior = prior, br_tracking = bs_of tracking, br_ommers = bm_of ommers, br_frontier = frontier \<rparr>, r)
   }"

definition rd_saved :: "(u64 \<times> nat) reader" where
  "rd_saved b = do { (p, r) \<leftarrow> rd_le 8 b; (i, r) \<leftarrow> (rd_le 8 :: u64 reader) r; Some ((p, unat i), r) }"

definition rd_mark :: "tree_mark reader" where
  "rd_mark b = do {
     (i, r) \<leftarrow> rd_le 4 b;
     (len, r) \<leftarrow> (rd_le 8 :: u64 reader) r;
     (marked, r) \<leftarrow> rd_list (rd_le 8) r;
     (forgotten, r) \<leftarrow> rd_list (rd_le 8) r;
     Some (\<lparr> cp_id = i, cp_bridges_len = unat len, cp_marked = bs_of marked, cp_forgotten = bs_of forgotten \<rparr>, r)
   }"

definition rd_current :: "('n, 't) disk_lib \<Rightarrow> tree_bridge option reader" where
  "rd_current D b = do {
     (flag, r) \<leftarrow> rd_u8 b;
     if flag \<noteq> 0 then do { (x, r) \<leftarrow> rd_bridge D r; Some (Some x, r) } else Some (None, r)
   }"

definition rd_tree :: "('n, 't) disk_lib \<Rightarrow> tree_parts reader" where
  "rd_tree D b = do {
     (mx, r) \<leftarrow> (rd_le 4 :: u32 reader) b;
     (prior, r) \<leftarrow> rd_list (rd_bridge D) r;
     (current, r) \<leftarrow> rd_current D r;
     (saved, r) \<leftarrow> rd_list rd_saved r;
     (checkpoints, r) \<leftarrow> rd_list rd_mark r;
     Some (\<lparr> tp_prior = prior, tp_current = current, tp_saved = bm_of saved, tp_checkpoints = checkpoints, tp_max = unat mx \<rparr>, r)
   }"

definition version_of_byte :: "byte \<Rightarrow> note_version option" where
  "version_of_byte v = (if v = 2 then Some NoteV2 else if v = 3 then Some NoteV3 else None)"

definition rd_held :: "('n, 't) disk_lib \<Rightarrow> 'n held_note reader" where
  "rd_held D b = do {
     (pos, r) \<leftarrow> rd_le 8 b;
     (height, r) \<leftarrow> rd_le 8 r;
     (txid, r) \<leftarrow> rd_take 32 r;
     (raw, r) \<leftarrow> rd_take 43 r;
     (v, r) \<leftarrow> rd_le 8 r;
     (rho, r) \<leftarrow> rd_take 32 r;
     if \<not> dl_rho_ok D rho then None else do {
       (rseed, r) \<leftarrow> rd_take 32 r;
       (tag, r) \<leftarrow> rd_u8 r;
       version \<leftarrow> version_of_byte tag;
       if \<not> dl_address_ok D raw \<or> \<not> dl_rseed_ok D rseed rho then None else do {
         note \<leftarrow> dl_note D raw v rho rseed version;
         Some (\<lparr> hn_note = note, hn_position = pos, hn_height = height, hn_txid = txid \<rparr>, r) } } }"

definition by_position :: "'n held_note list \<Rightarrow> (u64, 'n held_note) bmap" where
  "by_position hs = bm_of (map (\<lambda>h. (hn_position h, h)) hs)"

text \<open>The original layout, up to the held notes.\<close>

definition rd_head :: "('n, 't) disk_lib \<Rightarrow> ('n, 't) note_store reader" where
  "rd_head D b = do {
     (magic, r) \<leftarrow> rd_take 8 b;
     if magic \<noteq> STORE_MAGIC then None else do {
       (appended, r) \<leftarrow> rd_le 8 r;
       (synced, r) \<leftarrow> rd_opt_u64 r;
       (parts, r) \<leftarrow> rd_tree D r;
       tree \<leftarrow> dl_from_parts D parts;
       (notes, r) \<leftarrow> rd_list (rd_held D) r;
       Some (\<lparr> ns_tree = tree, ns_held = by_position notes, ns_in_flight = bm_empty, ns_spent = [],
         ns_appended = appended, ns_synced_to = synced \<rparr>, r) } }"

definition store_decode :: "('n, 't) disk_lib \<Rightarrow> bytes \<Rightarrow> ('n, 't) note_store option" where
  "store_decode D buf = do {
     (s, r) \<leftarrow> rd_head D buf;
     (in_flight, r) \<leftarrow> if r \<noteq> [] then rd_list (rd_held D) r else Some ([], r);
     (spent, r) \<leftarrow> if r \<noteq> [] then rd_list (rd_take 32) r else Some ([], r);
     if r \<noteq> [] then None
     else Some (s \<lparr> ns_in_flight := by_position in_flight, ns_spent := bs_of spent \<rparr>)
   }"

section \<open>Each field is read back\<close>

interpretation disk_u64: stream_codec put_u64 "rd_le 8" "\<lambda>_. True"
  by unfold_locales (auto simp: put_u64_def le64.get_put stable_le simp del: le_bytes_numeral)

interpretation disk_opt: stream_codec put_opt_u64 rd_opt_u64 "\<lambda>_. True"
proof
  fix x :: "u64 option" and r :: bytes
  show "rd_opt_u64 (put_opt_u64 x @ r) = Some (x, r)"
    using le64.get_put [of 0 r] le64.get_put [of "the x" r]
    by (cases x) (simp_all add: rd_opt_u64_def put_opt_u64_def del: le_bytes_numeral)
  show "stable rd_opt_u64" unfolding rd_opt_u64_def [abs_def] by (intro stable_intros)
qed

interpretation disk_address: stream_codec put_address rd_address "\<lambda>_. True"
proof
  fix x :: tree_address and r :: bytes
  show "rd_address (put_address x @ r) = Some (x, r)" by (simp add: rd_address_def put_address_def disk_u64.get_put)
  show "stable rd_address" unfolding rd_address_def [abs_def] by (intro stable_intros)
qed

definition hash_fits :: "('n, 't) disk_lib \<Rightarrow> bytes \<Rightarrow> bool" where
  "hash_fits D h \<longleftrightarrow> is_array 32 h \<and> dl_hash_ok D h"

interpretation disk_hash: stream_codec "\<lambda>h. h" "rd_hash D" "hash_fits D" for D :: "('n, 't) disk_lib"
proof
  fix x r :: bytes
  show "hash_fits D x \<Longrightarrow> rd_hash D (x @ r) = Some (x, r)" by (simp add: rd_hash_def hash_fits_def is_array_def)
  show "stable (rd_hash D)" unfolding rd_hash_def [abs_def] by (intro stable_intros)
qed

definition frontier_fits :: "('n, 't) disk_lib \<Rightarrow> disk_frontier \<Rightarrow> bool" where
  "frontier_fits D f \<longleftrightarrow> hash_fits D (df_leaf f) \<and> length (df_ommers f) < 2 ^ 32 \<and> list_all (hash_fits D) (df_ommers f) \<and>
    dl_frontier_ok D f"

interpretation disk_frontier: stream_codec put_frontier "rd_frontier D" "frontier_fits D" for D :: "('n, 't) disk_lib"
proof
  fix x :: disk_frontier and r :: bytes
  assume "frontier_fits D x"
  then show "rd_frontier D (put_frontier x @ r) = Some (x, r)"
    by (cases x) (simp add: rd_frontier_def put_frontier_def frontier_fits_def disk_u64.get_put disk_hash.get_put disk_hash.list_put)
next
  show "stable (rd_frontier D)" unfolding rd_frontier_def [abs_def] by (intro stable_intros disk_hash.stable_get)
qed

lemma bs_of_sorted: "bs_ok xs \<Longrightarrow> bs_of xs = xs"
proof -
  have "bs_ok (ys @ xs) \<Longrightarrow> fold bs_insert xs ys = ys @ xs" for ys
  proof (induction xs arbitrary: ys)
    case (Cons x xs)
    have "x \<notin> set ys" "\<forall>y \<in> set ys. y < x" using Cons.prems by (auto simp: bs_ok_def sorted_wrt_append)
    then have "bs_insert x ys = ys @ [x]"
      unfolding bs_insert_def by (induction ys) (auto simp: insort_insert_key_def less_le_not_le)
    with Cons show ?case by simp
  qed simp
  then show "bs_ok xs \<Longrightarrow> ?thesis" by (simp add: bs_of_def)
qed

interpretation disk_ommer: stream_codec "\<lambda>e. put_address (fst e) @ snd e" "rd_ommer D" "\<lambda>e. hash_fits D (snd e)"
  for D :: "('n, 't) disk_lib"
proof
  fix x :: "tree_address \<times> bytes" and r :: bytes
  show "hash_fits D (snd x) \<Longrightarrow> rd_ommer D ((put_address (fst x) @ snd x) @ r) = Some (x, r)"
    by (simp add: rd_ommer_def disk_address.get_put disk_hash.get_put)
  show "stable (rd_ommer D)"
    unfolding rd_ommer_def [abs_def] by (intro stable_intros disk_hash.stable_get disk_address.stable_get)
qed

definition bridge_fits :: "('n, 't) disk_lib \<Rightarrow> tree_bridge \<Rightarrow> bool" where
  "bridge_fits D b \<longleftrightarrow> bs_ok (br_tracking b) \<and> length (br_tracking b) < 2 ^ 32 \<and>
    bm_ok (br_ommers b) \<and> length (br_ommers b) < 2 ^ 32 \<and> list_all (\<lambda>e. hash_fits D (snd e)) (br_ommers b) \<and>
    frontier_fits D (br_frontier b)"

interpretation disk_bridge: stream_codec put_bridge "rd_bridge D" "bridge_fits D" for D :: "('n, 't) disk_lib"
proof
  fix x :: tree_bridge and r :: bytes
  assume "bridge_fits D x"
  then show "rd_bridge D (put_bridge x @ r) = Some (x, r)"
    by (simp add: rd_bridge_def put_bridge_def bridge_fits_def disk_opt.get_put disk_address.list_put
        disk_ommer.list_put disk_frontier.get_put bs_of_sorted bm_of_sorted list_all_iff)
next
  show "stable (rd_bridge D)" unfolding rd_bridge_def [abs_def]
    by (intro stable_intros disk_opt.stable_get disk_address.stable_get disk_ommer.stable_get disk_frontier.stable_get)
qed

interpretation disk_saved: stream_codec put_saved rd_saved "\<lambda>e. snd e < 2 ^ 64"
proof
  fix x :: "u64 \<times> nat" and r :: bytes
  assume "snd x < 2 ^ 64"
  then have u: "unat (of_nat (snd x) :: u64) = snd x" by (simp add: unat_of_nat)
  have "(rd_le 8 :: u64 reader) (le_bytes 8 (snd x) @ r) = Some (of_nat (snd x), r)"
    using le64.get_put [of "of_nat (snd x)" r] u by (simp del: le_bytes_numeral)
  with u show "rd_saved (put_saved x @ r) = Some (x, r)"
    by (simp add: rd_saved_def put_saved_def disk_u64.get_put del: le_bytes_numeral)
next
  show "stable rd_saved" unfolding rd_saved_def [abs_def] by (intro stable_intros)
qed

definition mark_fits :: "tree_mark \<Rightarrow> bool" where
  "mark_fits c \<longleftrightarrow> cp_bridges_len c < 2 ^ 64 \<and> bs_ok (cp_marked c) \<and> length (cp_marked c) < 2 ^ 32 \<and>
    bs_ok (cp_forgotten c) \<and> length (cp_forgotten c) < 2 ^ 32"

interpretation disk_mark: stream_codec put_mark rd_mark mark_fits
proof
  fix x :: tree_mark and r :: bytes
  assume f: "mark_fits x"
  then have u: "unat (of_nat (cp_bridges_len x) :: u64) = cp_bridges_len x" by (simp add: mark_fits_def unat_of_nat)
  have len: "(rd_le 8 :: u64 reader) (le_bytes 8 (cp_bridges_len x) @ z) = Some (of_nat (cp_bridges_len x), z)" for z
    using le64.get_put [of "of_nat (cp_bridges_len x)" z] u by (simp del: le_bytes_numeral)
  show "rd_mark (put_mark x @ r) = Some (x, r)"
    using f u by (simp add: rd_mark_def put_mark_def mark_fits_def le32.get_put len disk_u64.list_put bs_of_sorted
        list_all_iff del: le_bytes_numeral)
next
  show "stable rd_mark" unfolding rd_mark_def [abs_def] by (intro stable_intros)
qed

definition current_fits :: "('n, 't) disk_lib \<Rightarrow> tree_bridge option \<Rightarrow> bool" where
  "current_fits D c \<longleftrightarrow> (case c of Some b \<Rightarrow> bridge_fits D b | None \<Rightarrow> True)"

interpretation disk_current: stream_codec put_current "rd_current D" "current_fits D" for D :: "('n, 't) disk_lib"
proof
  fix x :: "tree_bridge option" and r :: bytes
  show "current_fits D x \<Longrightarrow> rd_current D (put_current x @ r) = Some (x, r)"
    by (cases x) (simp_all add: rd_current_def put_current_def current_fits_def disk_bridge.get_put)
  show "stable (rd_current D)" unfolding rd_current_def [abs_def] by (intro stable_intros disk_bridge.stable_get)
qed

definition tree_fits :: "('n, 't) disk_lib \<Rightarrow> tree_parts \<Rightarrow> bool" where
  "tree_fits D t \<longleftrightarrow> tp_max t < 2 ^ 32 \<and> length (tp_prior t) < 2 ^ 32 \<and> list_all (bridge_fits D) (tp_prior t) \<and>
    current_fits D (tp_current t) \<and> bm_ok (tp_saved t) \<and> length (tp_saved t) < 2 ^ 32 \<and>
    list_all (\<lambda>e. snd e < 2 ^ 64) (tp_saved t) \<and> length (tp_checkpoints t) < 2 ^ 32 \<and> list_all mark_fits (tp_checkpoints t)"

interpretation disk_tree: stream_codec put_tree "rd_tree D" "tree_fits D" for D :: "('n, 't) disk_lib"
proof
  fix x :: tree_parts and r :: bytes
  assume f: "tree_fits D x"
  then have "(rd_le 4 :: u32 reader) (le_bytes 4 (tp_max x) @ z) = Some (of_nat (tp_max x), z)" for z
    by (intro rd_le32_length) (simp add: tree_fits_def)
  then show "rd_tree D (put_tree x @ r) = Some (x, r)"
    using f by (cases x) (simp add: rd_tree_def put_tree_def tree_fits_def unat_of_nat_u32 disk_bridge.list_put
        disk_current.get_put disk_saved.list_put disk_mark.list_put bm_of_sorted list_all_iff del: le_bytes_numeral)
next
  show "stable (rd_tree D)" unfolding rd_tree_def [abs_def]
    by (intro stable_intros disk_bridge.stable_get disk_current.stable_get disk_saved.stable_get disk_mark.stable_get)
qed

definition held_fits :: "('n, 't) note_lib \<Rightarrow> ('n, 't) disk_lib \<Rightarrow> 'n held_note \<Rightarrow> bool" where
  "held_fits N D h \<longleftrightarrow> (let n = hn_note h in
    is_array 32 (hn_txid h) \<and> is_array 43 (dl_recipient D n) \<and> is_array 32 (dl_rho D n) \<and> is_array 32 (dl_rseed D n) \<and>
    dl_address_ok D (dl_recipient D n) \<and> dl_rho_ok D (dl_rho D n) \<and> dl_rseed_ok D (dl_rseed D n) (dl_rho D n) \<and>
    dl_note D (dl_recipient D n) (nl_value N n) (dl_rho D n) (dl_rseed D n) (dl_version D n) = Some n)"

interpretation disk_held: stream_codec "put_held N D" "rd_held D" "held_fits N D"
  for N :: "('n, 't) note_lib" and D :: "('n, 't) disk_lib"
proof
  fix x :: "'n held_note" and r :: bytes
  assume "held_fits N D x"
  then show "rd_held D (put_held N D x @ r) = Some (x, r)"
    by (cases x; cases "dl_version D (hn_note x)")
      (simp_all add: rd_held_def put_held_def held_fits_def is_array_def Let_def disk_u64.get_put version_of_byte_def)
next
  show "stable (rd_held D)" unfolding rd_held_def [abs_def] by (intro stable_intros)
qed

section \<open>The store\<close>

definition store_fits :: "('n, 't) note_lib \<Rightarrow> ('n, 't) disk_lib \<Rightarrow> ('n, 't) note_store \<Rightarrow> bool" where
  "store_fits N D s \<longleftrightarrow> dl_from_parts D (dl_parts D (ns_tree s)) = Some (ns_tree s) \<and> tree_fits D (dl_parts D (ns_tree s)) \<and>
    keyed (ns_held s) \<and> length (ns_held s) < 2 ^ 32 \<and> list_all (held_fits N D) (bm_values (ns_held s)) \<and>
    keyed (ns_in_flight s) \<and> length (ns_in_flight s) < 2 ^ 32 \<and> list_all (held_fits N D) (bm_values (ns_in_flight s)) \<and>
    bs_ok (ns_spent s) \<and> length (ns_spent s) < 2 ^ 32 \<and> list_all (is_array 32) (ns_spent s)"

text \<open>A store without what the original layout does not record.\<close>

definition legacy_store :: "('n, 't) note_store \<Rightarrow> ('n, 't) note_store" where
  "legacy_store s = s \<lparr> ns_in_flight := bm_empty, ns_spent := [] \<rparr>"

lemma by_position_values: "keyed m \<Longrightarrow> by_position (bm_values m) = m"
proof -
  assume k: "keyed m"
  have "map (\<lambda>h. (hn_position h, h)) (map snd m) = map (\<lambda>e. e) m"
    unfolding map_map
  proof (rule map_cong [OF HOL.refl])
    fix e assume "e \<in> set m"
    then have "bm_get m (fst e) = Some (snd e)" using k by (simp add: keyed_def bm_get_Some_iff)
    then show "((\<lambda>h. (hn_position h, h)) \<circ> snd) e = e" using k by (cases e) (simp add: keyed_def)
  qed
  then show ?thesis using k by (simp add: by_position_def bm_values_def bm_of_sorted keyed_def)
qed

lemma length_values [simp]: "length (bm_values m) = length m"
  by (simp add: bm_values_def)

interpretation disk_head: stream_codec "put_head N D" "rd_head D" "\<lambda>s. store_fits N D s \<and> legacy_store s = s"
  for N :: "('n, 't) note_lib" and D :: "('n, 't) disk_lib"
proof
  fix x :: "('n, 't) note_store" and r :: bytes
  assume f: "store_fits N D x \<and> legacy_store x = x"
  have magic: "length STORE_MAGIC = 8" by (simp add: STORE_MAGIC_def ascii_def)
  have l: "ns_in_flight x = bm_empty" "ns_spent x = []" using f by (cases x; simp add: legacy_store_def)+
  show "rd_head D (put_head N D x @ r) = Some (x, r)"
    using f l magic by (cases x) (simp add: rd_head_def put_head_def store_fits_def disk_u64.get_put disk_opt.get_put
        disk_tree.get_put disk_held.list_put by_position_values)
next
  show "stable (rd_head D)" unfolding rd_head_def [abs_def]
    by (intro stable_intros disk_opt.stable_get disk_tree.stable_get disk_held.stable_get)
qed

lemma legacy_fits: "store_fits N D s \<Longrightarrow> store_fits N D (legacy_store s) \<and> legacy_store (legacy_store s) = legacy_store s"
  by (simp add: store_fits_def legacy_store_def keyed_def bm_values_def bm_empty_def)

lemma put_head_legacy: "put_head N D (legacy_store s) = put_head N D s"
  by (simp add: put_head_def legacy_store_def)

lemma rd_head_append: "store_fits N D s \<Longrightarrow> rd_head D (put_head N D s @ r) = Some (legacy_store s, r)"
  using disk_head.get_put [of N D "legacy_store s" r] legacy_fits [of N D s] by (simp add: put_head_legacy)

lemma put_list_nonempty: "put_list put xs \<noteq> []"
  by (simp add: put_list_def)

text \<open>What the reader makes of the head followed by anything.\<close>

lemma store_decode_head:
  assumes "store_fits N D s"
  shows "store_decode D (put_head N D s @ r) = do {
     (in_flight, r) \<leftarrow> if r \<noteq> [] then rd_list (rd_held D) r else Some ([], r);
     (spent, r) \<leftarrow> if r \<noteq> [] then rd_list (rd_take 32) r else Some ([], r);
     if r \<noteq> [] then None
     else Some (s \<lparr> ns_in_flight := by_position in_flight, ns_spent := bs_of spent \<rparr>) }"
  by (simp add: store_decode_def rd_head_append [OF assms] legacy_store_def cong: if_cong option.case_cong)

lemma by_position_Nil: "by_position [] = bm_empty"
  by (simp add: by_position_def bm_of_def)

lemma bs_of_Nil: "bs_of [] = []"
  by (simp add: bs_of_def)

lemma store_decode_flight:
  assumes "store_fits N D s"
  shows "store_decode D (put_head N D s @ put_list (put_held N D) (bm_values (ns_in_flight s)) @ r) = do {
     (spent, r) \<leftarrow> if r \<noteq> [] then rd_list (rd_take 32) r else Some ([], r);
     if r \<noteq> [] then None else Some (s \<lparr> ns_spent := bs_of spent \<rparr>) }"
proof -
  have "rd_list (rd_held D) (put_list (put_held N D) (bm_values (ns_in_flight s)) @ r) = Some (bm_values (ns_in_flight s), r)"
    using assms by (intro disk_held.list_put) (simp_all add: store_fits_def)
  moreover have "by_position (bm_values (ns_in_flight s)) = ns_in_flight s"
    using assms by (simp add: store_fits_def by_position_values)
  ultimately show ?thesis by (simp add: store_decode_head [OF assms] put_list_nonempty cong: if_cong)
qed

lemma spent_read:
  assumes "store_fits N D s"
  shows "rd_list (rd_take 32) (put_list (\<lambda>nf. nf) (ns_spent s) @ r) = Some (ns_spent s, r)"
  using assms by (intro array_codec.list_put) (simp_all add: store_fits_def)

interpretation disk_array: stream_codec "\<lambda>b. b" "rd_take n" "is_array n"
  by unfold_locales (rule stable_take)

lemma decode_encode_store:
  assumes "store_fits N D s"
  shows "store_decode D (store_encode N D s @ junk) = (if junk = [] then Some s else None)"
proof -
  have "store_decode D (store_encode N D s @ junk) =
      store_decode D (put_head N D s @ put_list (put_held N D) (bm_values (ns_in_flight s)) @ put_list (\<lambda>nf. nf) (ns_spent s) @ junk)"
    by (simp add: store_encode_def)
  also have "\<dots> = (if junk = [] then Some s else None)"
    using assms by (simp add: store_decode_flight [OF assms] spent_read [OF assms] put_list_nonempty store_fits_def bs_of_sorted)
  finally show ?thesis .
qed

section \<open>Where a file may be cut\<close>

lemma strict_prefix_append:
  assumes "a @ b = p @ z" and "z \<noteq> []"
  obtains (first) y where "a = p @ y" "y \<noteq> []" | (second) q where "p = a @ q" "b = q @ z"
proof -
  from assms(1) obtain us where "a = p @ us \<and> us @ b = z \<or> a @ us = p \<and> b = us @ z"
    by (auto simp: append_eq_append_conv2)
  with first second [of "[]"] second [of us] show thesis by (cases "us = []") auto
qed

lemma cut_store:
  assumes f: "store_fits N D s" and cut: "store_encode N D s = p @ z" "z \<noteq> []"
    and legacy: "p \<noteq> put_head N D s" and flight: "p \<noteq> put_head N D s @ put_list (put_held N D) (bm_values (ns_in_flight s))"
  shows "store_decode D p = None"
proof -
  let ?head = "put_head N D s" and ?flight = "put_list (put_held N D) (bm_values (ns_in_flight s))" and
    ?spent = "put_list (\<lambda>nf. nf) (ns_spent s)"
  have "?head @ ?flight @ ?spent = p @ z" using cut(1) by (simp add: store_encode_def)
  from this cut(2) show ?thesis
  proof (cases rule: strict_prefix_append)
    case (first y)
    have "store_fits N D (legacy_store s) \<and> legacy_store (legacy_store s) = legacy_store s" by (rule legacy_fits [OF f])
    from disk_head.cut_short [OF this _ first(2), of p] first(1) have "rd_head D p = None" by (simp add: put_head_legacy)
    then show ?thesis by (simp add: store_decode_def)
  next
    case (second q)
    then have q: "q \<noteq> []" using legacy by simp
    from second(2) [symmetric] have "?flight @ ?spent = q @ z" by simp
    from this cut(2) show ?thesis
    proof (cases rule: strict_prefix_append)
      case (first y)
      have "length (bm_values (ns_in_flight s)) < 2 ^ 32 \<and> list_all (held_fits N D) (bm_values (ns_in_flight s))"
        using f by (simp add: store_fits_def)
      from stream_codec.cut_short [OF disk_held.list_stream this first(1) first(2)]
      show ?thesis using q by (simp add: second(1) store_decode_head [OF f])
    next
      case second': (second q')
      have "q' \<noteq> []" using second'(1) second(1) flight by simp
      moreover have "length (ns_spent s) < 2 ^ 32 \<and> list_all (is_array 32) (ns_spent s)" using f by (simp add: store_fits_def)
      from stream_codec.cut_short [OF disk_array.list_stream this second'(2) cut(2)]
      have "rd_list (rd_take 32) q' = None" .
      ultimately show ?thesis by (simp add: second(1) second'(1) store_decode_flight [OF f])
    qed
  qed
qed

section \<open>An instance of the libraries\<close>

text \<open>A tree of one-byte leaves, kept as its saved positions; a note whose nullifier opens its rho.\<close>

definition demo_disk :: "(u64 \<times> bytes, demo_tree) disk_lib" where
  "demo_disk = \<lparr>
     dl_parts = (\<lambda>t. \<lparr> tp_prior = [], tp_current = None,
       tp_saved = map (\<lambda>e. (of_nat (fst e), le_val (snd e))) (enumerate 0 (fst t)), tp_checkpoints = [], tp_max = 100 \<rparr>),
     dl_from_parts = (\<lambda>p. Some (map (\<lambda>e. [of_nat (snd e)]) (tp_saved p), [])),
     dl_hash_ok = (\<lambda>_. True), dl_frontier_ok = (\<lambda>_. True),
     dl_recipient = (\<lambda>_. zeros 43), dl_rho = (\<lambda>n. snd n @ zeros 31), dl_rseed = (\<lambda>_. zeros 32), dl_version = (\<lambda>_. NoteV3),
     dl_address_ok = (\<lambda>_. True), dl_rho_ok = (\<lambda>_. True), dl_rseed_ok = (\<lambda>_ _. True),
     dl_note = (\<lambda>raw v rho rseed version. Some (v, take 1 rho)) \<rparr>"

text \<open>The demonstration store with one note in flight and one nullifier spent.\<close>

definition disk_store :: "(u64 \<times> bytes, demo_tree) note_store" where
  "disk_store = (fst (store_run demo_notes
     [Append [1] True, Hold (5, [11]) 0 7 (zeros 32), Append [2] True, Hold (9, [12]) 1 7 (zeros 32), Spend 1]
     (store_new demo_notes))) \<lparr> ns_spent := [zeros 32] \<rparr>"

lemma disk_store_parts:
  "ns_held disk_store = [(0, \<lparr> hn_note = (5, [11]), hn_position = 0, hn_height = 7, hn_txid = zeros 32 \<rparr>)]"
  "ns_in_flight disk_store = [(1, \<lparr> hn_note = (9, [12]), hn_position = 1, hn_height = 7, hn_txid = zeros 32 \<rparr>)]"
  "ns_spent disk_store = [zeros 32]" "ns_tree disk_store = ([[1], [2]], [])"
  by code_simp+

lemma disk_store_fits: "store_fits demo_notes demo_disk disk_store"
  by (simp add: store_fits_def disk_store_parts keyed_def bm_ok_Cons bm_get_Cons bm_values_def held_fits_def
      is_array_def Let_def demo_disk_def demo_notes_def tree_fits_def current_fits_def bs_ok_def take_Cons')

section \<open>What any file can decode to\<close>

lemma keyed_by_position: "keyed (by_position hs)"
  by (auto simp: keyed_def by_position_def bm_get_of dest!: map_of_SomeD)

lemma values_by_position: "set (bm_values (by_position hs)) \<subseteq> set hs"
proof
  fix h assume "h \<in> set (bm_values (by_position hs))"
  then obtain p where "(p, h) \<in> set (by_position hs)" by (auto simp: bm_values_def)
  then have "bm_get (by_position hs) p = Some h"
    using keyed_by_position [of hs] by (simp add: keyed_def bm_get_Some_iff)
  then show "h \<in> set hs" by (auto simp: by_position_def bm_get_of dest!: map_of_SomeD)
qed

lemma bs_ok_of: "bs_ok (bs_of xs)" and set_bs_of: "set (bs_of xs) = set xs"
proof -
  have "bs_ok ys \<Longrightarrow> bs_ok (fold bs_insert xs ys) \<and> set (fold bs_insert xs ys) = set ys \<union> set xs" for ys
    by (induction xs arbitrary: ys) auto
  from this [of "[]"] show "bs_ok (bs_of xs)" "set (bs_of xs) = set xs" by (simp_all add: bs_of_def)
qed

lemma rd_many_all:
  "rd_many get n b = Some (xs, r) \<Longrightarrow> (\<And>b x r. get b = Some (x, r) \<Longrightarrow> P x) \<Longrightarrow> \<forall>x \<in> set xs. P x"
  by (induction n arbitrary: b xs) (auto simp: Option.bind_eq_Some_conv)

lemma rd_list_all:
  "rd_list get b = Some (xs, r) \<Longrightarrow> (\<And>b x r. get b = Some (x, r) \<Longrightarrow> P x) \<Longrightarrow> \<forall>x \<in> set xs. P x"
proof -
  assume a: "rd_list get b = Some (xs, r)" and P: "\<And>b x r. get b = Some (x, r) \<Longrightarrow> P x"
  then obtain n r' where "rd_many get n r' = Some (xs, r)" by (auto simp: rd_list_def Option.bind_eq_Some_conv)
  from rd_many_all [OF this P] show ?thesis .
qed

lemma guard_Some: "(if c then None else Some x) = Some y \<longleftrightarrow> \<not> c \<and> x = y"
  by simp

definition note_checked :: "('n, 't) disk_lib \<Rightarrow> 'n held_note \<Rightarrow> bool" where
  "note_checked D h \<longleftrightarrow> is_array 32 (hn_txid h) \<and>
    (\<exists>raw v rho rseed version. dl_address_ok D raw \<and> dl_rho_ok D rho \<and> dl_rseed_ok D rseed rho \<and>
      dl_note D raw v rho rseed version = Some (hn_note h))"

lemma rd_held_checked: "rd_held D b = Some (h, r) \<Longrightarrow> note_checked D h"
  unfolding rd_held_def note_checked_def
  by (fastforce simp: Option.bind_eq_Some_conv rd_take_Some is_array_def split: if_splits)

section \<open>Properties\<close>

text \<open>C14: A store survives a restart whole. What \<open>encode\<close> writes, \<open>decode\<close> reads back as the same store, tree,
  held notes, notes in flight and spent nullifiers included; and a file with anything after it is
  refused.\<close>

theorem store_survives_disk:
  assumes "store_fits N D s"
  shows "store_decode D (store_encode N D s @ junk) = (if junk = [] then Some s else None)"
  by (rule decode_encode_store [OF assms])

theorem store_survives_disk_witness:
  "store_decode demo_disk (store_encode demo_notes demo_disk disk_store) = Some disk_store \<and>
    store_decode demo_disk (store_encode demo_notes demo_disk disk_store @ [0]) = None"
  using store_survives_disk [OF disk_store_fits, of "[]"] store_survives_disk [OF disk_store_fits, of "[0]"] by simp

text \<open>C35: A file cut short is refused everywhere but at two places: where the original layout ends, and where
  the notes in flight end. There it is read as a store that has neither notes in flight nor spent
  nullifiers, or no spent nullifiers: a truncated file can be half-trusted after all.\<close>

theorem truncated_store_refused_but_twice:
  assumes "store_fits N D s" and "store_encode N D s = p @ z" and "z \<noteq> []"
  shows "store_decode D p =
    (if p = put_head N D s then Some (s \<lparr> ns_in_flight := bm_empty, ns_spent := [] \<rparr>)
     else if p = put_head N D s @ put_list (put_held N D) (bm_values (ns_in_flight s)) then Some (s \<lparr> ns_spent := [] \<rparr>)
     else None)"
  using cut_store [OF assms] store_decode_head [OF assms(1), of "[]"] store_decode_flight [OF assms(1), of "[]"]
  by (simp add: by_position_Nil bs_of_Nil)

theorem truncated_store_refused_but_twice_witness:
  "store_decode demo_disk (put_head demo_notes demo_disk disk_store) = Some (disk_store \<lparr> ns_in_flight := bm_empty, ns_spent := [] \<rparr>)"
proof -
  have "store_encode demo_notes demo_disk disk_store = put_head demo_notes demo_disk disk_store
      @ (put_list (put_held demo_notes demo_disk) (bm_values (ns_in_flight disk_store)) @ put_list (\<lambda>nf. nf) (ns_spent disk_store))"
    by (simp add: store_encode_def)
  from truncated_store_refused_but_twice [OF disk_store_fits this] show ?thesis by (simp add: put_list_nonempty)
qed

text \<open>C30: Whatever the bytes, what \<open>decode\<close> returns is a well-formed store: notes under their own positions, each
  with a txid of 32 bytes and past the library's checks of address, rho, seed and note, spent nullifiers
  of 32 bytes as a set, and a tree the library accepted.\<close>

theorem decoded_store_well_formed:
  assumes "store_decode D buf = Some s"
  shows "keyed (ns_held s) \<and> keyed (ns_in_flight s) \<and> bs_ok (ns_spent s) \<and> list_all (is_array 32) (ns_spent s) \<and>
    list_all (note_checked D) (bm_values (ns_held s) @ bm_values (ns_in_flight s)) \<and>
    (\<exists>parts. dl_from_parts D parts = Some (ns_tree s))"
proof -
  obtain s0 r0 flight r1 spent where h: "rd_head D buf = Some (s0, r0)"
    and fl: "(if r0 \<noteq> [] then rd_list (rd_held D) r0 else Some ([], r0)) = Some (flight, r1)"
    and sp: "(if r1 \<noteq> [] then rd_list (rd_take 32) r1 else Some ([], r1)) = Some (spent, [])"
    and s: "s = s0 \<lparr> ns_in_flight := by_position flight, ns_spent := bs_of spent \<rparr>"
    using assms unfolding store_decode_def
    by (auto simp: Option.bind_eq_Some_conv guard_Some split del: if_split)
  obtain parts hs b where t: "dl_from_parts D parts = Some (ns_tree s0)" "ns_held s0 = by_position hs"
    "rd_list (rd_held D) b = Some (hs, r0)"
    using h unfolding rd_head_def by (auto simp: Option.bind_eq_Some_conv split: if_splits)
  have "\<forall>x \<in> set hs. note_checked D x" by (rule rd_list_all [OF t(3) rd_held_checked])
  moreover have "\<forall>x \<in> set flight. note_checked D x"
    using fl rd_list_all [of "rd_held D" r0 flight r1 "note_checked D", OF _ rd_held_checked] by (auto split: if_splits)
  moreover have "\<forall>x \<in> set spent. is_array 32 x"
    using sp rd_list_all [of "rd_take 32" r1 spent "[]" "is_array 32"] by (auto simp: rd_take_Some is_array_def split: if_splits)
  ultimately show ?thesis
    using t keyed_by_position [of hs] keyed_by_position [of flight] bs_ok_of [of spent] set_bs_of [of spent]
      values_by_position [of hs] values_by_position [of flight]
    by (auto simp: s list_all_iff)
qed

theorem decoded_store_well_formed_witness:
  "\<exists>s. store_decode demo_disk (store_encode demo_notes demo_disk disk_store) = Some s \<and> keyed (ns_held s) \<and> ns_spent s = [zeros 32]"
proof -
  have d: "store_decode demo_disk (store_encode demo_notes demo_disk disk_store) = Some disk_store"
    using decode_encode_store [OF disk_store_fits, of "[]"] by simp
  from decoded_store_well_formed [OF d] d show ?thesis by (auto simp: disk_store_parts)
qed

end
