(* ===== verification/Compact.thy ===== *)
theory Compact
  imports Zebra Wire
begin

text \<open>
  compact.rs: a block boiled down to what trial decryption needs, its fixed binary form, and the
  scan of a wallet over it. Blocks, transactions and actions are the opaque types of the record
  \<open>chain_lib\<close>, with the readings of the zcash crates the code takes of them.
\<close>

section \<open>Compact blocks\<close>

record compact_output =
  co_nullifier :: bytes
  co_cmx :: bytes
  co_epk :: bytes
  co_ciphertext :: bytes

record compact_tx =
  ct_index :: u32
  ct_txid :: bytes
  ct_orchard :: "compact_output list"
  ct_ironwood :: "compact_output list"

record compact_block =
  cb_height :: u64
  cb_hash :: bytes
  cb_txs :: "compact_tx list"

record ('b, 'tx, 'act, 'k) chain_lib =
  cl_vtx :: "'b \<Rightarrow> 'tx list"
  cl_hash :: "'b \<Rightarrow> bytes"
  cl_txid :: "'tx \<Rightarrow> bytes"
  cl_orchard :: "'tx \<Rightarrow> 'act list option"
  cl_ironwood :: "'tx \<Rightarrow> 'act list option"
  cl_nullifier :: "'act \<Rightarrow> bytes"
  cl_cmx :: "'act \<Rightarrow> bytes"
  cl_epk :: "'act \<Rightarrow> bytes"
  cl_enc_ciphertext :: "'act \<Rightarrow> bytes"
  cl_nullifier_ok :: "bytes \<Rightarrow> bool"
  cl_cmx_ok :: "bytes \<Rightarrow> bool"
  cl_decrypt :: "'k \<Rightarrow> value_pool \<Rightarrow> compact_output \<Rightarrow> u64 option"

text \<open>\<open>cl_decrypt\<close> is \<open>try_compact_note_decryption\<close> in the domain of the pool, down to the value of the note.\<close>

definition to_action :: "('b, 'tx, 'act, 'k) chain_lib \<Rightarrow> compact_output \<Rightarrow> compact_output option" where
  "to_action C out = (if cl_nullifier_ok C (co_nullifier out) \<and> cl_cmx_ok C (co_cmx out) then Some out else None)"

definition compact_of :: "('b, 'tx, 'act, 'k) chain_lib \<Rightarrow> 'act \<Rightarrow> compact_output" where
  "compact_of C a = \<lparr> co_nullifier = cl_nullifier C a, co_cmx = cl_cmx C a, co_epk = cl_epk C a,
     co_ciphertext = take 52 (cl_enc_ciphertext C a) \<rparr>"

definition compact_outputs :: "('b, 'tx, 'act, 'k) chain_lib \<Rightarrow> 'act list option \<Rightarrow> compact_output list" where
  "compact_outputs C bdl = (case bdl of Some acts \<Rightarrow> map (compact_of C) acts | None \<Rightarrow> [])"

definition from_transaction :: "('b, 'tx, 'act, 'k) chain_lib \<Rightarrow> u32 \<Rightarrow> 'tx \<Rightarrow> compact_tx" where
  "from_transaction C i tx = \<lparr> ct_index = i, ct_txid = cl_txid C tx,
     ct_orchard = compact_outputs C (cl_orchard C tx), ct_ironwood = compact_outputs C (cl_ironwood C tx) \<rparr>"

definition from_block :: "('b, 'tx, 'act, 'k) chain_lib \<Rightarrow> u64 \<Rightarrow> 'b \<Rightarrow> compact_block" where
  "from_block C height b = \<lparr> cb_height = height, cb_hash = cl_hash C b,
     cb_txs = filter (\<lambda>t. ct_orchard t \<noteq> [] \<or> ct_ironwood t \<noteq> [])
       (map (\<lambda>(i, tx). from_transaction C (of_nat i) tx) (enumerate 0 (cl_vtx C b))) \<rparr>"

section \<open>The binary form\<close>

definition COMPACT_MAGIC :: bytes where
  "COMPACT_MAGIC = ascii ''ZECCB1''"

definition put_output :: "compact_output \<Rightarrow> bytes" where
  "put_output c = co_nullifier c @ co_cmx c @ co_epk c @ co_ciphertext c"

definition put_tx :: "compact_tx \<Rightarrow> bytes" where
  "put_tx t = le_bytes 4 (unat (ct_index t)) @ ct_txid t @ put_list put_output (ct_orchard t) @ put_list put_output (ct_ironwood t)"

definition compact_encode :: "compact_block \<Rightarrow> bytes" where
  "compact_encode b = COMPACT_MAGIC @ le_bytes 8 (unat (cb_height b)) @ cb_hash b @ put_list put_tx (cb_txs b)"

definition rd_output :: "compact_output reader" where
  "rd_output b = do {
     (nf, r) \<leftarrow> rd_take 32 b;
     (cmx, r) \<leftarrow> rd_take 32 r;
     (epk, r) \<leftarrow> rd_take 32 r;
     (ct, r) \<leftarrow> rd_take 52 r;
     Some (\<lparr> co_nullifier = nf, co_cmx = cmx, co_epk = epk, co_ciphertext = ct \<rparr>, r)
   }"

definition rd_tx :: "compact_tx reader" where
  "rd_tx b = do {
     (i, r) \<leftarrow> rd_le 4 b;
     (txid, r) \<leftarrow> rd_take 32 r;
     (orchard, r) \<leftarrow> rd_list rd_output r;
     (ironwood, r) \<leftarrow> rd_list rd_output r;
     Some (\<lparr> ct_index = i, ct_txid = txid, ct_orchard = orchard, ct_ironwood = ironwood \<rparr>, r)
   }"

definition compact_decode :: "bytes \<Rightarrow> compact_block option" where
  "compact_decode b = do {
     (magic, r) \<leftarrow> rd_take 6 b;
     if magic \<noteq> COMPACT_MAGIC then None else do {
       (height, r) \<leftarrow> rd_le 8 r;
       (hash, r) \<leftarrow> rd_take 32 r;
       (txs, r) \<leftarrow> rd_list rd_tx r;
       if r \<noteq> [] then None else Some \<lparr> cb_height = height, cb_hash = hash, cb_txs = txs \<rparr> } }"

section \<open>Scanning\<close>

record hit =
  hit_tx_index :: u32
  hit_txid :: bytes
  hit_pool :: value_pool
  hit_action :: nat
  hit_cmx :: bytes
  hit_value :: u64

fun scan_outputs ::
  "('b, 'tx, 'act, 'k) chain_lib \<Rightarrow> 'k \<Rightarrow> u32 \<Rightarrow> bytes \<Rightarrow> value_pool \<Rightarrow> nat \<Rightarrow> compact_output list \<Rightarrow> hit list" where
  "scan_outputs C ivk i txid pool k [] = []"
| "scan_outputs C ivk i txid pool k (out # outs) =
    (case to_action C out of
       None \<Rightarrow> scan_outputs C ivk i txid pool (Suc k) outs
     | Some act \<Rightarrow>
       (case cl_decrypt C ivk pool act of
          None \<Rightarrow> scan_outputs C ivk i txid pool (Suc k) outs
        | Some v \<Rightarrow>
          \<lparr> hit_tx_index = i, hit_txid = txid, hit_pool = pool, hit_action = k, hit_cmx = co_cmx out, hit_value = v \<rparr>
            # scan_outputs C ivk i txid pool (Suc k) outs))"

definition scan_tx :: "('b, 'tx, 'act, 'k) chain_lib \<Rightarrow> 'k \<Rightarrow> compact_tx \<Rightarrow> hit list" where
  "scan_tx C ivk t = scan_outputs C ivk (ct_index t) (ct_txid t) Orchard 0 (ct_orchard t)
     @ scan_outputs C ivk (ct_index t) (ct_txid t) Ironwood 0 (ct_ironwood t)"

definition compact_scan :: "('b, 'tx, 'act, 'k) chain_lib \<Rightarrow> compact_block \<Rightarrow> 'k \<Rightarrow> hit list" where
  "compact_scan C b ivk = concat (map (scan_tx C ivk) (cb_txs b))"

section \<open>The codecs\<close>

definition output_fits :: "compact_output \<Rightarrow> bool" where
  "output_fits c \<longleftrightarrow> is_array 32 (co_nullifier c) \<and> is_array 32 (co_cmx c) \<and> is_array 32 (co_epk c) \<and>
    is_array 52 (co_ciphertext c)"

interpretation output_codec: canonical_codec put_output rd_output output_fits
proof
  fix x r
  assume "output_fits x"
  then show "rd_output (put_output x @ r) = Some (x, r)"
    by (cases x) (simp add: rd_output_def put_output_def output_fits_def is_array_def)
next
  fix b x r
  assume "rd_output b = Some (x, r)"
  then show "output_fits x \<and> b = put_output x @ r"
    by (auto simp: rd_output_def put_output_def output_fits_def is_array_def rd_take_Some Option.bind_eq_Some_conv)
qed

definition tx_fits :: "compact_tx \<Rightarrow> bool" where
  "tx_fits t \<longleftrightarrow> is_array 32 (ct_txid t) \<and>
    (length (ct_orchard t) < 2 ^ 32 \<and> list_all output_fits (ct_orchard t)) \<and>
    (length (ct_ironwood t) < 2 ^ 32 \<and> list_all output_fits (ct_ironwood t))"

interpretation outputs_codec: canonical_codec "put_list put_output" "rd_list rd_output"
    "\<lambda>xs. length xs < 2 ^ 32 \<and> list_all output_fits xs"
  by (rule output_codec.list_canonical_codec)

interpretation tx_codec: canonical_codec put_tx rd_tx tx_fits
proof
  fix x r
  assume f: "tx_fits x"
  then show "rd_tx (put_tx x @ r) = Some (x, r)"
    by (cases x) (simp add: rd_tx_def put_tx_def tx_fits_def is_array_def le32.get_put output_codec.list_put
        del: le_bytes_numeral)
next
  fix b x r
  assume "rd_tx b = Some (x, r)"
  then show "tx_fits x \<and> b = put_tx x @ r"
    unfolding rd_tx_def put_tx_def tx_fits_def
    by (auto simp: Option.bind_eq_Some_conv rd_take_Some is_array_def le32.get_iff outputs_codec.get_iff
        simp del: le_bytes_numeral)
qed

interpretation txs_codec: canonical_codec "put_list put_tx" "rd_list rd_tx"
    "\<lambda>xs. length xs < 2 ^ 32 \<and> list_all tx_fits xs"
  by (rule tx_codec.list_canonical_codec)

definition block_fits :: "compact_block \<Rightarrow> bool" where
  "block_fits b \<longleftrightarrow> is_array 32 (cb_hash b) \<and> length (cb_txs b) < 2 ^ 32 \<and> list_all tx_fits (cb_txs b)"

lemma magic_length: "length COMPACT_MAGIC = 6"
  by (simp add: COMPACT_MAGIC_def ascii_def)

lemma compact_decode_encode: "block_fits b \<Longrightarrow> compact_decode (compact_encode b) = Some b"
  using txs_codec.get_put [of "cb_txs b" "[]"]
  by (cases b) (simp add: compact_decode_def compact_encode_def block_fits_def is_array_def magic_length le64.get_put
      del: le_bytes_numeral)

lemma compact_encode_decode: "compact_decode s = Some b \<Longrightarrow> block_fits b \<and> s = compact_encode b"
  unfolding compact_decode_def compact_encode_def block_fits_def
  by (auto simp: Option.bind_eq_Some_conv rd_take_Some is_array_def le64.get_iff txs_codec.get_iff
      simp del: le_bytes_numeral split: if_splits)

section \<open>Scanning the whole block\<close>

text \<open>The same search over the full transactions, leaving none out.\<close>

definition pool_hits ::
  "('b, 'tx, 'act, 'k) chain_lib \<Rightarrow> 'k \<Rightarrow> u32 \<Rightarrow> bytes \<Rightarrow> value_pool \<Rightarrow> nat \<Rightarrow> 'act list option \<Rightarrow> hit list" where
  "pool_hits C ivk i txid pool k bdl = List.map_filter (\<lambda>(j, a).
     if cl_nullifier_ok C (cl_nullifier C a) \<and> cl_cmx_ok C (cl_cmx C a)
     then map_option (\<lambda>v. \<lparr> hit_tx_index = i, hit_txid = txid, hit_pool = pool, hit_action = j, hit_cmx = cl_cmx C a,
       hit_value = v \<rparr>) (cl_decrypt C ivk pool (compact_of C a))
     else None) (enumerate k (case bdl of Some acts \<Rightarrow> acts | None \<Rightarrow> []))"

definition full_scan :: "('b, 'tx, 'act, 'k) chain_lib \<Rightarrow> 'b \<Rightarrow> 'k \<Rightarrow> hit list" where
  "full_scan C b ivk = concat (map (\<lambda>(i, tx). pool_hits C ivk (of_nat i) (cl_txid C tx) Orchard 0 (cl_orchard C tx)
     @ pool_hits C ivk (of_nat i) (cl_txid C tx) Ironwood 0 (cl_ironwood C tx)) (enumerate 0 (cl_vtx C b)))"

lemma scan_outputs_hits: "scan_outputs C ivk i txid pool k (compact_outputs C bdl) = pool_hits C ivk i txid pool k bdl"
proof (cases bdl)
  case (Some acts)
  have "scan_outputs C ivk i txid pool k (map (compact_of C) acts) = pool_hits C ivk i txid pool k (Some acts)"
    by (induction acts arbitrary: k)
      (auto simp: pool_hits_def map_filter_simps to_action_def compact_of_def split: option.splits)
  with Some show ?thesis by (simp add: compact_outputs_def)
qed (simp add: compact_outputs_def pool_hits_def map_filter_simps)

lemma concat_map_filter: "(\<And>x. \<not> P x \<Longrightarrow> f x = []) \<Longrightarrow> concat (map f (filter P xs)) = concat (map f xs)"
  by (induction xs) auto

text \<open>The actions of a pool, and the hit of one of them. An action whose note a decryption of the whole
  ciphertext opens is found, where the compact decryption opens what the full one opens.\<close>

definition pool_actions :: "('b, 'tx, 'act, 'k) chain_lib \<Rightarrow> value_pool \<Rightarrow> 'tx \<Rightarrow> 'act list" where
  "pool_actions C pool tx = (case (case pool of Orchard \<Rightarrow> cl_orchard C tx | Ironwood \<Rightarrow> cl_ironwood C tx) of
     Some acts \<Rightarrow> acts | None \<Rightarrow> [])"

definition compact_decrypts :: "('b, 'tx, 'act, 'k) chain_lib \<Rightarrow> 'k \<Rightarrow> (value_pool \<Rightarrow> 'act \<Rightarrow> u64 option) \<Rightarrow> bool" where
  "compact_decrypts C ivk opens \<longleftrightarrow> (\<forall>pool a v. opens pool a = Some v \<longrightarrow>
     cl_nullifier_ok C (cl_nullifier C a) \<and> cl_cmx_ok C (cl_cmx C a) \<and> cl_decrypt C ivk pool (compact_of C a) = Some v)"

lemma full_scan_complete:
  assumes "compact_decrypts C ivk opens" "i < length (cl_vtx C b)" "j < length (pool_actions C pool (cl_vtx C b ! i))"
    and "opens pool (pool_actions C pool (cl_vtx C b ! i) ! j) = Some v"
  shows "\<lparr> hit_tx_index = of_nat i, hit_txid = cl_txid C (cl_vtx C b ! i), hit_pool = pool, hit_action = j,
    hit_cmx = cl_cmx C (pool_actions C pool (cl_vtx C b ! i) ! j), hit_value = v \<rparr> \<in> set (full_scan C b ivk)"
proof -
  let ?tx = "cl_vtx C b ! i"
  let ?acts = "pool_actions C pool ?tx"
  have a: "cl_nullifier_ok C (cl_nullifier C (?acts ! j))" "cl_cmx_ok C (cl_cmx C (?acts ! j))"
    "cl_decrypt C ivk pool (compact_of C (?acts ! j)) = Some v"
    using assms(1,4) unfolding compact_decrypts_def by blast+
  have "(j, ?acts ! j) \<in> set (enumerate 0 ?acts)" using assms(3) by (simp add: in_set_enumerate_eq)
  then have "\<lparr> hit_tx_index = of_nat i, hit_txid = cl_txid C ?tx, hit_pool = pool, hit_action = j,
      hit_cmx = cl_cmx C (?acts ! j), hit_value = v \<rparr>
    \<in> set (pool_hits C ivk (of_nat i) (cl_txid C ?tx) pool 0 (case pool of Orchard \<Rightarrow> cl_orchard C ?tx | Ironwood \<Rightarrow> cl_ironwood C ?tx))"
    using a unfolding pool_hits_def pool_actions_def [symmetric]
    by (force simp: List.map_filter_def image_iff)
  moreover have "(i, ?tx) \<in> set (enumerate 0 (cl_vtx C b))" using assms(2) by (simp add: in_set_enumerate_eq)
  ultimately show ?thesis unfolding full_scan_def by (cases pool) force+
qed

section \<open>Properties\<close>

text \<open>A compact scan misses nothing. Scanning the compact form of a block with a viewing key gives exactly the
  hits a search over every action of the full block gives, in chain order with the position of each
  transaction and action: leaving out transactions without shielded outputs loses none.\<close>

theorem compact_scan_misses_nothing:
  "compact_scan C (from_block C height b) ivk = full_scan C b ivk"
proof -
  have "scan_tx C ivk t = []" if "\<not> (ct_orchard t \<noteq> [] \<or> ct_ironwood t \<noteq> [])" for t
    using that by (simp add: scan_tx_def)
  then have "compact_scan C (from_block C height b) ivk
      = concat (map (scan_tx C ivk) (map (\<lambda>(i, tx). from_transaction C (of_nat i) tx) (enumerate 0 (cl_vtx C b))))"
    unfolding compact_scan_def from_block_def compact_block.simps by (rule concat_map_filter)
  also have "\<dots> = full_scan C b ivk"
    unfolding full_scan_def map_map
    by (intro arg_cong [of _ _ concat] map_cong HOL.refl)
      (auto simp: scan_tx_def from_transaction_def scan_outputs_hits)
  finally show ?thesis .
qed

text \<open>C32: The binary form of compact blocks is a bijection: a block whose fields have their lengths is read back
  from its bytes, and whatever bytes are accepted are the one encoding of the block they decode to, so
  a cache file and a wire frame of a block are the same bytes.\<close>

theorem compact_form_bijective:
  "compact_decode s = Some b \<longleftrightarrow> block_fits b \<and> s = compact_encode b"
  using compact_decode_encode compact_encode_decode by blast

end
