(* ===== verification/Lightd.thy ===== *)
theory Lightd
  imports Compact Text
begin

text \<open>
  lightd.rs: the block server's wire protocol and a client for it: requests with their decoder, the
  server's replies, and the client's calls. A transport connects, sends bytes and brings back what
  the other side wrote, or the text of the error; strings are their UTF-8 bytes.
\<close>

section \<open>The protocol\<close>

definition OP_INFO :: byte where "OP_INFO = 1"
definition OP_BLOCKS :: byte where "OP_BLOCKS = 2"
definition OP_TX :: byte where "OP_TX = 3"
definition OP_SEND :: byte where "OP_SEND = 4"
definition OP_TREESTATE :: byte where "OP_TREESTATE = 5"
definition OP_UTXOS :: byte where "OP_UTXOS = 6"

lemmas light_ops = OP_INFO_def OP_BLOCKS_def OP_TX_def OP_SEND_def OP_TREESTATE_def OP_UTXOS_def

definition NET_MAINNET :: byte where "NET_MAINNET = 1"
definition NET_TESTNET :: byte where "NET_TESTNET = 2"
definition MAX_BLOCKS :: u32 where "MAX_BLOCKS = 1000"

record info =
  li_network :: byte
  li_tip :: u64
  li_branch :: u32
  li_estimated :: u64

definition syncing :: "info \<Rightarrow> bool" where
  "syncing i \<longleftrightarrow> li_estimated i > li_tip i + 20"

datatype light_error = LightIo bytes | LightServer bytes | Malformed bytes

definition light_write_frame :: "bytes \<Rightarrow> bytes" where
  "light_write_frame body = put_bytes body"

text \<open>\<open>read_exact\<close> on a stream that ends early fails with the standard library's own text.\<close>

definition light_read_frame :: "nat \<Rightarrow> bytes \<Rightarrow> bytes + bytes" where
  "light_read_frame mx b =
    and_then (ok_or ((rd_be 4 :: u32 reader) b) (ascii ''failed to fill whole buffer'')) (\<lambda>(n, r).
      if unat n > mx then Err (ascii ''frame too large'')
      else and_then (ok_or (rd_take (unat n) r) (ascii ''failed to fill whole buffer'')) (\<lambda>(body, _). Ok body))"

text \<open>\<open>String::from_utf8_lossy\<close>: a replacement character for each maximal part that starts no
  well-formed character. Every step takes a byte at least, so the length is fuel enough.\<close>

definition bad_len :: "bytes \<Rightarrow> nat" where
  "bad_len b = (case b of [] \<Rightarrow> 0 | a # r \<Rightarrow>
     if char_len a \<le> 1 \<or> r = [] \<or> \<not> second_ok a (hd r) then 1
     else if tl r = [] \<or> \<not> is_cont (hd (tl r)) then 2 else 3)"

fun lossy_fuel :: "nat \<Rightarrow> bytes \<Rightarrow> bytes" where
  "lossy_fuel 0 b = []"
| "lossy_fuel (Suc k) b =
    (if b = [] then []
     else let n = utf8_len b
       in if n = 0 then [0xEF, 0xBF, 0xBD] @ lossy_fuel k (drop (bad_len b) b)
          else take n b @ lossy_fuel k (drop n b))"

definition utf8_lossy :: "bytes \<Rightarrow> bytes" where
  "utf8_lossy b = lossy_fuel (length b) b"

section \<open>Replies\<close>

definition reply_ok :: "bytes \<Rightarrow> bytes" where
  "reply_ok body = 0 # body"

definition reply_err :: "bytes \<Rightarrow> bytes" where
  "reply_err msg = (let msg = take 65535 msg in 1 # le_bytes 2 (length msg) @ msg)"

definition reply_info :: "info \<Rightarrow> bytes" where
  "reply_info i = reply_ok (li_network i # le_bytes 8 (unat (li_tip i)) @ le_bytes 4 (unat (li_branch i))
     @ le_bytes 8 (unat (li_estimated i)))"

definition reply_tree_state :: "bytes \<Rightarrow> bytes \<Rightarrow> bytes" where
  "reply_tree_state root frontier = reply_ok (root @ put_bytes_le frontier)"

definition reply_no_tree :: bytes where
  "reply_no_tree = reply_tree_state (zeros 32) []"

definition reply_blocks :: "bytes list \<Rightarrow> bytes" where
  "reply_blocks encoded = reply_ok (put_list put_bytes_le encoded)"

definition reply_transaction :: "bytes \<Rightarrow> bytes" where
  "reply_transaction raw = reply_ok (put_bytes_le raw)"

definition put_short :: "bytes \<Rightarrow> bytes" where
  "put_short b = le_bytes 2 (length b) @ b"

definition reply_sent :: "bytes \<Rightarrow> bytes" where
  "reply_sent txid_hex = reply_ok (put_short txid_hex)"

definition put_utxo :: "utxo \<Rightarrow> bytes" where
  "put_utxo u = ut_txid u @ le_bytes 4 (unat (ut_index u)) @ le_bytes 8 (unat (ut_value u))
     @ le_bytes 8 (unat (ut_height u)) @ put_short (ut_script u)"

definition reply_utxos :: "utxo list \<Rightarrow> bytes" where
  "reply_utxos us = reply_ok (put_list put_utxo us)"

section \<open>Requests\<close>

datatype request =
    InfoRequest
  | BlocksRequest u64 u32
  | TransactionRequest bytes
  | SendRequest bytes
  | TreeStateRequest u64 value_pool
  | UtxosRequest bytes

definition request_decode :: "bytes \<Rightarrow> bytes + request" where
  "request_decode req =
    (case req of
       [] \<Rightarrow> Err (ascii ''empty request'')
     | op # d \<Rightarrow>
       if op = OP_INFO then Ok InfoRequest
       else if op = OP_BLOCKS then
         and_then (ok_or (rd_le 8 d) (ascii ''malformed range'')) (\<lambda>(start, d).
         and_then (ok_or (rd_le 4 d) (ascii ''malformed range'')) (\<lambda>(many, d).
           Ok (BlocksRequest start (min many MAX_BLOCKS))))
       else if op = OP_TX then
         and_then (ok_or (rd_take 32 d) (ascii ''malformed txid'')) (\<lambda>(txid, d). Ok (TransactionRequest txid))
       else if op = OP_SEND then
         and_then (ok_or (rd_bytes_le d) (ascii ''malformed'')) (\<lambda>(raw, d). Ok (SendRequest raw))
       else if op = OP_UTXOS then
         and_then (ok_or ((rd_le 2 :: u16 reader) d) (ascii ''malformed'')) (\<lambda>(n, d).
           if unat n > 128 then Err (ascii ''address too long'')
           else and_then (ok_or (rd_take (unat n) d) (ascii ''malformed'')) (\<lambda>(raw, d).
             if utf8_valid raw then Ok (UtxosRequest raw) else Err (ascii ''address is not text'')))
       else if op = OP_TREESTATE then
         and_then (ok_or (rd_le 8 d) (ascii ''malformed'')) (\<lambda>(height, d).
         and_then (ok_or (rd_u8 d) (ascii ''malformed'')) (\<lambda>(pool, d).
           if pool = 0 then Ok (TreeStateRequest height Orchard)
           else if pool = 1 then Ok (TreeStateRequest height Ironwood)
           else Err (ascii ''unknown pool'')))
       else Err (ascii ''unknown op''))"

text \<open>What the client's calls send.\<close>

definition request_bytes :: "request \<Rightarrow> bytes" where
  "request_bytes q = (case q of
     InfoRequest \<Rightarrow> [OP_INFO]
   | BlocksRequest start many \<Rightarrow> OP_BLOCKS # le_bytes 8 (unat start) @ le_bytes 4 (unat (min many MAX_BLOCKS))
   | TransactionRequest txid \<Rightarrow> OP_TX # txid
   | SendRequest raw \<Rightarrow> OP_SEND # put_bytes_le raw
   | TreeStateRequest height pool \<Rightarrow> OP_TREESTATE # le_bytes 8 (unat height) @ [case pool of Orchard \<Rightarrow> 0 | Ironwood \<Rightarrow> 1]
   | UtxosRequest address \<Rightarrow> OP_UTXOS # put_short address)"

section \<open>The client\<close>

type_synonym 'n light_transport = "bytes \<Rightarrow> 'n \<Rightarrow> 'n \<times> (bytes + bytes)"

definition unwrap_reply :: "bytes \<Rightarrow> light_error + bytes" where
  "unwrap_reply reply =
    (case reply of
       [] \<Rightarrow> Err (Malformed (ascii ''status''))
     | status # rest \<Rightarrow>
       if status = 0 then Ok rest
       else if status = 1 then
         (let n = le_val (take 2 (rest @ [0, 0]))
          in Err (LightServer (utf8_lossy (if 3 + n \<le> length reply then subs 3 (3 + n) reply else []))))
       else Err (Malformed (ascii ''status'')))"

definition light_io :: "bytes + 'a \<Rightarrow> light_error + 'a" where
  "light_io r = (case r of Inl e \<Rightarrow> Err (LightIo e) | Inr x \<Rightarrow> Ok x)"

definition light_call :: "'n light_transport \<Rightarrow> bytes \<Rightarrow> 'n \<Rightarrow> 'n \<times> (light_error + bytes)" where
  "light_call tr body net =
    (case tr (light_write_frame body) net of
       (net', res) \<Rightarrow> (net', and_then (light_io res) (\<lambda>b.
          and_then (light_io (light_read_frame (64 * 2 ^ 20) b)) unwrap_reply)))"

definition light_then ::
  "'n \<times> (light_error + bytes) \<Rightarrow> (bytes \<Rightarrow> light_error + 'a) \<Rightarrow> 'n \<times> (light_error + 'a)" where
  "light_then r f = (case r of (net, res) \<Rightarrow> (net, and_then res f))"

definition field :: "('a \<times> bytes) option \<Rightarrow> string \<Rightarrow> light_error + 'a \<times> bytes" where
  "field r what = ok_or r (Malformed (ascii what))"

definition light_info :: "'n light_transport \<Rightarrow> 'n \<Rightarrow> 'n \<times> (light_error + info)" where
  "light_info tr net = light_then (light_call tr (request_bytes InfoRequest) net) (\<lambda>r.
     and_then (field (rd_u8 r) ''info'') (\<lambda>(network, d).
     and_then (field (rd_le 8 d) ''info'') (\<lambda>(tip, d).
     and_then (field (rd_le 4 d) ''info'') (\<lambda>(branch, d).
       let estimated = (case rd_le 8 d of Some (e, _) \<Rightarrow> max e tip | None \<Rightarrow> max tip tip)
       in Ok \<lparr> li_network = network, li_tip = tip, li_branch = branch, li_estimated = estimated \<rparr>))))"

fun light_blocks_loop :: "nat \<Rightarrow> bytes \<Rightarrow> light_error + compact_block list" where
  "light_blocks_loop 0 d = Ok []"
| "light_blocks_loop (Suc n) d =
    and_then (field ((rd_le 4 :: u32 reader) d) ''block len'') (\<lambda>(len, d).
    and_then (field (rd_take (unat len) d) ''block'') (\<lambda>(b, d).
    and_then (ok_or (compact_decode b) (Malformed (ascii ''compact block''))) (\<lambda>block.
    and_then (light_blocks_loop n d) (\<lambda>blocks. Ok (block # blocks)))))"

definition light_blocks :: "'n light_transport \<Rightarrow> u64 \<Rightarrow> u32 \<Rightarrow> 'n \<Rightarrow> 'n \<times> (light_error + compact_block list)" where
  "light_blocks tr start many net = light_then (light_call tr (request_bytes (BlocksRequest start many)) net) (\<lambda>r.
     and_then (field ((rd_le 4 :: u32 reader) r) ''blocks'') (\<lambda>(n, d). light_blocks_loop (unat n) d))"

definition light_transaction :: "'n light_transport \<Rightarrow> bytes \<Rightarrow> 'n \<Rightarrow> 'n \<times> (light_error + bytes)" where
  "light_transaction tr txid net = light_then (light_call tr (request_bytes (TransactionRequest txid)) net) (\<lambda>r.
     and_then (field ((rd_le 4 :: u32 reader) r) ''tx'') (\<lambda>(len, d).
     and_then (field (rd_take (unat len) d) ''tx'') (\<lambda>(raw, _). Ok raw)))"

definition light_send :: "'n light_transport \<Rightarrow> bytes \<Rightarrow> 'n \<Rightarrow> 'n \<times> (light_error + bytes)" where
  "light_send tr raw net = light_then (light_call tr (request_bytes (SendRequest raw)) net) (\<lambda>r.
     and_then (field ((rd_le 2 :: u16 reader) r) ''txid'') (\<lambda>(n, d).
     and_then (field (rd_take (unat n) d) ''txid'') (\<lambda>(txid, _). Ok (utf8_lossy txid))))"

fun light_utxos_loop :: "nat \<Rightarrow> bytes \<Rightarrow> light_error + utxo list" where
  "light_utxos_loop 0 d = Ok []"
| "light_utxos_loop (Suc n) d =
    and_then (field (rd_take 32 d) ''utxo txid'') (\<lambda>(txid, d).
    and_then (field (rd_le 4 d) ''utxo index'') (\<lambda>(i, d).
    and_then (field (rd_le 8 d) ''utxo value'') (\<lambda>(v, d).
    and_then (field (rd_le 8 d) ''utxo height'') (\<lambda>(height, d).
    and_then (field ((rd_le 2 :: u16 reader) d) ''utxo script'') (\<lambda>(len, d).
    and_then (field (rd_take (unat len) d) ''utxo script'') (\<lambda>(script, d).
    and_then (light_utxos_loop n d) (\<lambda>rest.
      Ok (\<lparr> ut_txid = txid, ut_index = i, ut_value = v, ut_height = height, ut_script = script \<rparr> # rest))))))))"

definition light_utxos :: "'n light_transport \<Rightarrow> bytes \<Rightarrow> 'n \<Rightarrow> 'n \<times> (light_error + utxo list)" where
  "light_utxos tr address net = light_then (light_call tr (request_bytes (UtxosRequest address)) net) (\<lambda>r.
     and_then (field ((rd_le 4 :: u32 reader) r) ''utxo count'') (\<lambda>(n, d). light_utxos_loop (unat n) d))"

definition light_tree_state :: "'n light_transport \<Rightarrow> u64 \<Rightarrow> value_pool \<Rightarrow> 'n \<Rightarrow> 'n \<times> (light_error + bytes \<times> bytes)" where
  "light_tree_state tr height pool net = light_then (light_call tr (request_bytes (TreeStateRequest height pool)) net) (\<lambda>r.
     and_then (field (rd_take 32 r) ''root'') (\<lambda>(root, d).
     and_then (field ((rd_le 4 :: u32 reader) d) ''frontier'') (\<lambda>(len, d).
     and_then (field (rd_take (unat len) d) ''frontier'') (\<lambda>(frontier, _). Ok (root, frontier)))))"

section \<open>Reading back\<close>

lemma lossy_valid: "chars_fuel k b = Some cs \<Longrightarrow> k \<le> m \<Longrightarrow> lossy_fuel m b = b"
proof (induction k b arbitrary: cs m rule: chars_fuel.induct)
  case (1 k)
  then show ?case by (cases m) simp_all
next
  case (3 k a r)
  obtain m' where m: "m = Suc m'" using 3(3) by (cases m) auto
  let ?n = "utf8_len (a # r)"
  have n: "?n \<noteq> 0" using 3(2) by (auto simp: Let_def simp del: utf8_len.simps split: if_splits)
  then obtain cs' where "chars_fuel k (drop ?n (a # r)) = Some cs'"
    using 3(2) by (auto simp: Let_def Option.bind_eq_Some_conv simp del: utf8_len.simps)
  with 3(1) [OF HOL.refl n this, of m'] 3(3) m n have "lossy_fuel m' (drop ?n (a # r)) = drop ?n (a # r)" by simp
  then show ?case using n m by (simp add: Let_def del: utf8_len.simps)
qed simp

lemma utf8_lossy_valid: "utf8_valid b \<Longrightarrow> utf8_lossy b = b"
  by (auto simp: utf8_valid_def utf8_lossy_def chars_of_def intro: lossy_valid)

text \<open>A length field and its bytes, read one after the other.\<close>

lemma short_read:
  assumes "length x < 2 ^ 16"
  shows "(rd_le 2 :: u16 reader) (put_short x @ r) = Some (of_nat (length x), x @ r)" "unat (of_nat (length x) :: u16) = length x"
proof -
  show u: "unat (of_nat (length x) :: u16) = length x" using assms by (simp add: unat_of_nat)
  show "(rd_le 2 :: u16 reader) (put_short x @ r) = Some (of_nat (length x), x @ r)"
    using le16.get_put [of "of_nat (length x)" "x @ r"] u by (simp add: put_short_def del: le_bytes_numeral)
qed

lemma long_read:
  assumes "length x < 2 ^ 32"
  shows "(rd_le 4 :: u32 reader) (put_bytes_le x @ r) = Some (of_nat (length x), x @ r)"
  using rd_le32_length [OF assms, of "x @ r"] by (simp add: put_bytes_le_def del: le_bytes_numeral)

lemma list_read:
  assumes "length xs < 2 ^ 32"
  shows "(rd_le 4 :: u32 reader) (put_list put xs @ r) = Some (of_nat (length xs), concat (map put xs) @ r)"
  using rd_le32_length [OF assms, of "concat (map put xs) @ r"] by (simp add: put_list_def del: le_bytes_numeral)

definition request_fits :: "request \<Rightarrow> bool" where
  "request_fits q \<longleftrightarrow> (case q of TransactionRequest txid \<Rightarrow> is_array 32 txid | SendRequest raw \<Rightarrow> length raw < 2 ^ 26 - 5
   | UtxosRequest a \<Rightarrow> length a \<le> 128 \<and> utf8_valid a | _ \<Rightarrow> True)"

text \<open>What the server is asked: the range of blocks is capped.\<close>

definition asked :: "request \<Rightarrow> request" where
  "asked q = (case q of BlocksRequest start many \<Rightarrow> BlocksRequest start (min many MAX_BLOCKS) | _ \<Rightarrow> q)"

lemma request_decode_bytes:
  assumes "request_fits q"
  shows "request_decode (request_bytes q @ r) = Ok (asked q)"
proof (cases q)
  case (BlocksRequest start many)
  then show ?thesis
    by (simp add: request_decode_def request_bytes_def asked_def light_ops le64.get_put le32.get_put
        del: le_bytes_numeral)
next
  case (TreeStateRequest height pool)
  then show ?thesis
    by (cases pool) (simp_all add: request_decode_def request_bytes_def asked_def light_ops le64.get_put del: le_bytes_numeral)
next
  case (UtxosRequest a)
  with assms have a: "length a < 2 ^ 16" "length a \<le> 128" "utf8_valid a" by (simp_all add: request_fits_def)
  then show ?thesis using short_read(1) [OF a(1), of r] short_read(2) [OF a(1)]
    by (simp add: UtxosRequest request_decode_def request_bytes_def asked_def light_ops)
next
  case (SendRequest raw)
  with assms show ?thesis
    by (simp add: request_fits_def request_decode_def request_bytes_def asked_def light_ops bytes_le_codec.get_put)
qed (use assms in \<open>simp_all add: request_fits_def request_decode_def request_bytes_def asked_def light_ops is_array_def\<close>)

section \<open>A client and a server\<close>

text \<open>A server that holds a chain and answers each request it decodes.\<close>

record light_server =
  sv_info :: info
  sv_blocks :: "u64 \<Rightarrow> u32 \<Rightarrow> compact_block list"
  sv_transaction :: "bytes \<Rightarrow> bytes"
  sv_send :: "bytes \<Rightarrow> bytes"
  sv_tree_state :: "u64 \<Rightarrow> value_pool \<Rightarrow> bytes \<times> bytes"
  sv_utxos :: "bytes \<Rightarrow> utxo list"

definition server_reply :: "light_server \<Rightarrow> request \<Rightarrow> bytes" where
  "server_reply sv q = (case q of
     InfoRequest \<Rightarrow> reply_info (sv_info sv)
   | BlocksRequest start many \<Rightarrow> reply_blocks (map compact_encode (sv_blocks sv start many))
   | TransactionRequest txid \<Rightarrow> reply_transaction (sv_transaction sv txid)
   | SendRequest raw \<Rightarrow> reply_sent (sv_send sv raw)
   | TreeStateRequest height pool \<Rightarrow> (case sv_tree_state sv height pool of (root, frontier) \<Rightarrow> reply_tree_state root frontier)
   | UtxosRequest a \<Rightarrow> reply_utxos (sv_utxos sv a))"

definition serving :: "light_server \<Rightarrow> 'n light_transport" where
  "serving sv b net = (net, Ok (light_write_frame
     (case light_read_frame (64 * 2 ^ 20) b of
        Inl e \<Rightarrow> reply_err e
      | Inr body \<Rightarrow> (case request_decode body of Inl e \<Rightarrow> reply_err e | Inr q \<Rightarrow> server_reply sv q))))"

lemma frame_read:
  assumes "length b \<le> 64 * 2 ^ 20"
  shows "light_read_frame (64 * 2 ^ 20) (light_write_frame b) = Ok b"
proof -
  have "length b < 2 ^ 32" using assms by simp
  from rd_be32_length [OF this, of b] unat_of_nat_u32 [OF this] assms show ?thesis
    by (simp add: light_read_frame_def light_write_frame_def put_bytes_def rd_take_def)
qed

lemma request_length: "request_fits q \<Longrightarrow> length (request_bytes q) \<le> 64 * 2 ^ 20"
  by (auto simp: request_fits_def request_bytes_def put_bytes_le_def put_short_def is_array_def split: request.splits)

lemma call_serving:
  assumes "request_fits q" and "length (server_reply sv (asked q)) \<le> 64 * 2 ^ 20"
  shows "light_call (serving sv) (request_bytes q) net = (net, unwrap_reply (server_reply sv (asked q)))"
proof -
  have "serving sv (light_write_frame (request_bytes q)) net = (net, Ok (light_write_frame (server_reply sv (asked q))))"
    unfolding serving_def frame_read [OF request_length [OF assms(1)]]
    using request_decode_bytes [OF assms(1), of "[]"] by simp
  then show ?thesis by (simp add: light_call_def light_io_def frame_read [OF assms(2)] del: power_numeral)
qed

lemma unwrap_ok [simp]: "unwrap_reply (reply_ok b) = Ok b"
  by (simp add: unwrap_reply_def reply_ok_def)

lemma put_list_bounds:
  "x \<in> set xs \<Longrightarrow> length (put x) \<le> length (put_list put xs)"
  "(\<And>x. put x \<noteq> []) \<Longrightarrow> length xs \<le> length (put_list put xs)"
proof -
  have "x \<in> set xs \<Longrightarrow> length (put x) \<le> length (concat (map put xs))" by (induction xs) auto
  then show "x \<in> set xs \<Longrightarrow> length (put x) \<le> length (put_list put xs)" by (simp add: put_list_def)
  have "length xs \<le> length (concat (map put xs))" if "\<And>x. put x \<noteq> []"
  proof (induction xs)
    case (Cons x xs)
    have "1 \<le> length (put x)" using that [of x] by (cases "put x") simp_all
    with Cons show ?case unfolding list.map concat.simps length_append list.size by linarith
  qed simp
  then show "(\<And>x. put x \<noteq> []) \<Longrightarrow> length xs \<le> length (put_list put xs)" by (simp add: put_list_def)
qed

lemma blocks_loop_put:
  "\<forall>b \<in> set bs. block_fits b \<and> length (compact_encode b) < 2 ^ 32 \<Longrightarrow>
    light_blocks_loop (length bs) (concat (map put_bytes_le (map compact_encode bs)) @ r) = Ok bs"
  by (induction bs) (simp_all add: long_read unat_of_nat_u32 field_def compact_decode_encode)

lemma utxos_loop_put:
  "\<forall>u \<in> set us. is_array 32 (ut_txid u) \<and> length (ut_script u) < 2 ^ 16 \<Longrightarrow>
    light_utxos_loop (length us) (concat (map put_utxo us) @ r) = Ok us"
proof (induction us)
  case (Cons u us)
  then show ?case
    by (simp add: put_utxo_def is_array_def field_def le32.get_put le64.get_put short_read del: le_bytes_numeral)
qed simp

text \<open>What a served chain must respect for its answers to fit their encoding.\<close>

definition server_fits :: "light_server \<Rightarrow> bool" where
  "server_fits sv \<longleftrightarrow> (\<forall>q. length (server_reply sv (asked q)) \<le> 64 * 2 ^ 20)
     \<and> li_tip (sv_info sv) \<le> li_estimated (sv_info sv)
     \<and> (\<forall>start many. list_all block_fits (sv_blocks sv start many))
     \<and> (\<forall>raw. utf8_valid (sv_send sv raw) \<and> length (sv_send sv raw) < 2 ^ 16)
     \<and> (\<forall>height pool. is_array 32 (fst (sv_tree_state sv height pool)))
     \<and> (\<forall>a. list_all (\<lambda>u. is_array 32 (ut_txid u) \<and> length (ut_script u) < 2 ^ 16) (sv_utxos sv a))"

lemma server_fitsD:
  assumes "server_fits sv"
  shows "length (server_reply sv (asked q)) \<le> 64 * 2 ^ 20"
    and "li_tip (sv_info sv) \<le> li_estimated (sv_info sv)"
    and "\<forall>b \<in> set (sv_blocks sv start many). block_fits b"
    and "utf8_valid (sv_send sv raw)" "length (sv_send sv raw) < 2 ^ 16"
    and "is_array 32 (fst (sv_tree_state sv height pool))"
    and "\<forall>u \<in> set (sv_utxos sv a). is_array 32 (ut_txid u) \<and> length (ut_script u) < 2 ^ 16"
  using assms unfolding server_fits_def list_all_iff by metis+

lemma served:
  assumes "server_fits sv" "request_fits q"
  shows "light_call (serving sv) (request_bytes q) net = (net, unwrap_reply (server_reply sv (asked q)))"
  by (rule call_serving [OF assms(2) server_fitsD(1) [OF assms(1)]])

lemma info_served:
  assumes "server_fits sv"
  shows "light_info (serving sv) net = (net, Ok (sv_info sv))"
proof -
  have c: "light_call (serving sv) (request_bytes InfoRequest) net = (net, unwrap_reply (reply_info (sv_info sv)))"
    using served [OF assms, of InfoRequest net]
    by (simp add: request_fits_def asked_def server_reply_def)
  obtain n t br e where i: "sv_info sv = \<lparr> li_network = n, li_tip = t, li_branch = br, li_estimated = e \<rparr>"
    by (cases "sv_info sv") auto
  have "max e t = e" using server_fitsD(2) [OF assms] by (simp add: i max_def)
  then show ?thesis unfolding light_info_def c
    using le64.get_put [of e "[]"]
    by (simp add: i light_then_def reply_info_def field_def le32.get_put le64.get_put del: le_bytes_numeral)
qed

lemma blocks_served:
  assumes "server_fits sv"
  shows "light_blocks (serving sv) start many net = (net, Ok (sv_blocks sv start (min many MAX_BLOCKS)))"
proof -
  let ?bs = "sv_blocks sv start (min many MAX_BLOCKS)"
  let ?es = "map compact_encode ?bs"
  have c: "light_call (serving sv) (request_bytes (BlocksRequest start many)) net = (net, unwrap_reply (reply_blocks ?es))"
    using served [OF assms, of "BlocksRequest start many" net]
    by (simp add: request_fits_def asked_def server_reply_def)
  have total: "length (put_list put_bytes_le ?es) < 2 ^ 32"
    using server_fitsD(1) [OF assms, of "BlocksRequest start many"]
    by (simp add: asked_def server_reply_def reply_blocks_def reply_ok_def)
  have n: "length ?bs < 2 ^ 32"
    using put_list_bounds(2) [of put_bytes_le ?es] total by (simp add: put_bytes_le_def)
  have each: "length (compact_encode b) < 2 ^ 32" if "b \<in> set ?bs" for b
    using put_list_bounds(1) [of "compact_encode b" ?es put_bytes_le] that total by (simp add: put_bytes_le_def)
  have "light_blocks_loop (length ?bs) (concat (map put_bytes_le ?es)) = Ok ?bs"
    using blocks_loop_put [of ?bs "[]"] server_fitsD(3) [OF assms] each by simp
  then show ?thesis unfolding light_blocks_def c
    using list_read [of ?es put_bytes_le "[]"] n
    by (simp add: light_then_def reply_blocks_def field_def unat_of_nat_u32)
qed

lemma transaction_served:
  assumes "server_fits sv" "is_array 32 txid"
  shows "light_transaction (serving sv) txid net = (net, Ok (sv_transaction sv txid))"
proof -
  let ?raw = "sv_transaction sv txid"
  have c: "light_call (serving sv) (request_bytes (TransactionRequest txid)) net = (net, unwrap_reply (reply_transaction ?raw))"
    using served [OF assms(1), of "TransactionRequest txid" net] assms(2)
    by (simp add: request_fits_def asked_def server_reply_def)
  have n: "length ?raw < 2 ^ 32"
    using server_fitsD(1) [OF assms(1), of "TransactionRequest txid"]
    by (simp add: asked_def server_reply_def reply_transaction_def reply_ok_def put_bytes_le_def)
  show ?thesis unfolding light_transaction_def c
    using long_read [OF n, of "[]"] unat_of_nat_u32 [OF n]
    by (simp add: light_then_def reply_transaction_def field_def rd_take_def)
qed

lemma send_served:
  assumes "server_fits sv" "length raw < 2 ^ 26 - 5"
  shows "light_send (serving sv) raw net = (net, Ok (sv_send sv raw))"
proof -
  let ?t = "sv_send sv raw"
  have c: "light_call (serving sv) (request_bytes (SendRequest raw)) net = (net, unwrap_reply (reply_sent ?t))"
    using served [OF assms(1), of "SendRequest raw" net] assms(2)
    by (simp add: request_fits_def asked_def server_reply_def)
  note t = server_fitsD(4,5) [OF assms(1), of raw]
  show ?thesis unfolding light_send_def c
    using short_read(1) [OF t(2), of "[]"] short_read(2) [OF t(2)]
    by (simp add: light_then_def reply_sent_def field_def rd_take_def utf8_lossy_valid [OF t(1)])
qed

lemma tree_state_served:
  assumes "server_fits sv"
  shows "light_tree_state (serving sv) height pool net = (net, Ok (sv_tree_state sv height pool))"
proof -
  obtain root fr where s: "sv_tree_state sv height pool = (root, fr)" by fastforce
  have c: "light_call (serving sv) (request_bytes (TreeStateRequest height pool)) net = (net, unwrap_reply (reply_tree_state root fr))"
    using served [OF assms, of "TreeStateRequest height pool" net]
    by (simp add: request_fits_def asked_def server_reply_def s)
  have r: "length root = 32" using server_fitsD(6) [OF assms, of height pool] by (simp add: s is_array_def)
  have n: "length fr < 2 ^ 32"
    using server_fitsD(1) [OF assms, of "TreeStateRequest height pool"]
    by (simp add: asked_def server_reply_def reply_tree_state_def reply_ok_def put_bytes_le_def s)
  show ?thesis unfolding light_tree_state_def c
    using long_read [OF n, of "[]"] unat_of_nat_u32 [OF n]
    by (simp add: light_then_def reply_tree_state_def field_def rd_take_def r s)
qed

lemma utxos_served:
  assumes "server_fits sv" "length a \<le> 128" "utf8_valid a"
  shows "light_utxos (serving sv) a net = (net, Ok (sv_utxos sv a))"
proof -
  let ?us = "sv_utxos sv a"
  have c: "light_call (serving sv) (request_bytes (UtxosRequest a)) net = (net, unwrap_reply (reply_utxos ?us))"
    using served [OF assms(1), of "UtxosRequest a" net] assms(2,3)
    by (simp add: request_fits_def asked_def server_reply_def)
  have total: "length (put_list put_utxo ?us) < 2 ^ 32"
    using server_fitsD(1) [OF assms(1), of "UtxosRequest a"]
    by (simp add: asked_def server_reply_def reply_utxos_def reply_ok_def)
  have n: "length ?us < 2 ^ 32"
    using put_list_bounds(2) [of put_utxo ?us] total by (simp add: put_utxo_def)
  have "light_utxos_loop (length ?us) (concat (map put_utxo ?us)) = Ok ?us"
    using utxos_loop_put [of ?us "[]"] server_fitsD(7) [OF assms(1)] by simp
  then show ?thesis unfolding light_utxos_def c
    using list_read [of ?us put_utxo "[]"] n
    by (simp add: light_then_def reply_utxos_def field_def unat_of_nat_u32)
qed

section \<open>Requests that fail\<close>

text \<open>What a server may count on in a request it has accepted.\<close>

definition request_bounded :: "request \<Rightarrow> bool" where
  "request_bounded q \<longleftrightarrow> (case q of BlocksRequest start many \<Rightarrow> many \<le> MAX_BLOCKS
   | TransactionRequest txid \<Rightarrow> is_array 32 txid
   | UtxosRequest a \<Rightarrow> length a \<le> 128 \<and> utf8_valid a | _ \<Rightarrow> True)"

lemma send_decodes:
  "length raw < 2 ^ 32 \<Longrightarrow> request_decode (request_bytes (SendRequest raw) @ r) = Ok (SendRequest raw)"
  by (simp add: request_decode_def request_bytes_def light_ops bytes_le_codec.get_put)

lemma decode_bounded:
  assumes "request_decode b = Ok q"
  shows "request_bounded q \<and> (\<forall>raw. q = SendRequest raw \<longrightarrow> length raw < 2 ^ 32)"
  using assms
  by (auto simp: request_decode_def request_bounded_def result_simps is_array_def rd_take_Some
      bytes_le_codec.get_iff split: list.splits if_splits)

lemma bounded_fits: "request_bounded q \<Longrightarrow> \<forall>raw. q \<noteq> SendRequest raw \<Longrightarrow> request_fits q \<and> asked q = q"
  by (auto simp: request_bounded_def request_fits_def asked_def min_def split: request.splits)

text \<open>Every text a request is refused with is plain ASCII, and short.\<close>

definition refusals :: "bytes set" where
  "refusals = ascii ` {''empty request'', ''malformed range'', ''malformed txid'', ''malformed'', ''address too long'',
     ''address is not text'', ''unknown pool'', ''unknown op''}"

lemma refusal_texts: "e \<in> refusals \<Longrightarrow> utf8_valid e \<and> length e < 2 ^ 16"
proof -
  have "\<forall>e \<in> refusals. utf8_valid e \<and> length e < 100" unfolding refusals_def by code_simp
  then show "e \<in> refusals \<Longrightarrow> utf8_valid e \<and> length e < 2 ^ 16" by fastforce
qed

lemma refused_with: "request_decode b = Err e \<Longrightarrow> e \<in> refusals"
  by (auto simp: request_decode_def refusals_def result_simps split: list.splits if_splits)

lemma unwrap_err:
  assumes "utf8_valid e" "length e < 2 ^ 16"
  shows "unwrap_reply (reply_err e) = Err (LightServer e)"
proof -
  obtain a b where l: "le_bytes 2 (length e) = [a, b]"
    by (simp add: numeral_2_eq_2)
  have v: "le_val [a, b] = length e" using le_val_le_bytes [of 2 "length e"] assms(2) unfolding l by simp
  have t: "take 65535 e = e" using assms(2) by simp
  show ?thesis using assms(1)
    by (simp add: unwrap_reply_def reply_err_def t l v Let_def subs_def utf8_lossy_valid del: le_bytes_numeral le_val.simps)
qed

lemma refused_call:
  assumes "request_decode b = Err e" "length b \<le> 64 * 2 ^ 20"
  shows "light_call (serving sv) b net = (net, Err (LightServer e))"
proof -
  note e = refusal_texts [OF refused_with [OF assms(1)]]
  have s: "serving sv (light_write_frame b) net = (net, Ok (light_write_frame (reply_err e)))"
    unfolding serving_def frame_read [OF assms(2)] using assms(1) by simp
  have "length (reply_err e) \<le> 64 * 2 ^ 20" using e by (simp add: reply_err_def Let_def)
  from frame_read [OF this] e show ?thesis
    by (simp add: light_call_def s light_io_def unwrap_err del: power_numeral)
qed

section \<open>Properties\<close>

text \<open>C15: The server decodes whatever the client's six calls send, and each call brings back
  exactly what the server holds: its info, the blocks of the range capped at
  \<open>MAX_BLOCKS\<close>, the transaction, the id of a broadcast, the tree state and the unspent outputs
  of an address, for a server whose answers fit a frame.
\<close>

theorem light_client_reads_the_server:
  assumes "server_fits sv" "is_array 32 txid" "length raw < 2 ^ 26 - 5" "length address \<le> 128" "utf8_valid address"
  shows "light_info (serving sv) net = (net, Ok (sv_info sv))
    \<and> light_blocks (serving sv) start many net = (net, Ok (sv_blocks sv start (min many MAX_BLOCKS)))
    \<and> light_transaction (serving sv) txid net = (net, Ok (sv_transaction sv txid))
    \<and> light_send (serving sv) raw net = (net, Ok (sv_send sv raw))
    \<and> light_tree_state (serving sv) height pool net = (net, Ok (sv_tree_state sv height pool))
    \<and> light_utxos (serving sv) address net = (net, Ok (sv_utxos sv address))"
  using assms
  by (simp add: info_served blocks_served transaction_served send_served tree_state_served utxos_served del: power_numeral)

definition demo_server :: light_server where
  "demo_server = \<lparr> sv_info = \<lparr> li_network = NET_TESTNET, li_tip = 7, li_branch = 5, li_estimated = 9 \<rparr>,
     sv_blocks = (\<lambda>start many. [\<lparr> cb_height = start, cb_hash = zeros 32, cb_txs = [] \<rparr>]),
     sv_transaction = (\<lambda>txid. [1, 2]), sv_send = (\<lambda>raw. ascii ''00''),
     sv_tree_state = (\<lambda>height pool. (zeros 32, [])),
     sv_utxos = (\<lambda>a. [\<lparr> ut_txid = zeros 32, ut_index = 0, ut_value = 1, ut_height = 5, ut_script = [] \<rparr>]) \<rparr>"

lemma demo_server_fits: "server_fits demo_server"
proof -
  have e: "length (compact_encode \<lparr> cb_height = h, cb_hash = zeros 32, cb_txs = [] \<rparr>) = 50" for h
    by (simp add: compact_encode_def COMPACT_MAGIC_def put_list_def ascii_def)
  have "length (server_reply demo_server (asked q)) \<le> 64 * 2 ^ 20" for q
    using e by (cases q) (simp_all add: asked_def demo_server_def server_reply_def reply_info_def reply_ok_def reply_blocks_def
      reply_transaction_def reply_sent_def reply_tree_state_def reply_utxos_def put_list_def put_bytes_le_def put_short_def
      put_utxo_def ascii_def)
  moreover have "utf8_valid (ascii ''00'')" by code_simp
  ultimately show ?thesis
    by (simp add: server_fits_def demo_server_def block_fits_def is_array_def ascii_def)
qed

lemma light_client_reads_the_server_witness:
  "light_info (serving demo_server) (0 :: nat) = (0, Ok (sv_info demo_server))
   \<and> light_utxos (serving demo_server) (ascii ''t1'') (0 :: nat)
      = (0, Ok [\<lparr> ut_txid = zeros 32, ut_index = 0, ut_value = 1, ut_height = 5, ut_script = [] \<rparr>])"
proof -
  have a: "length (ascii ''t1'') \<le> 128" "utf8_valid (ascii ''t1'')" by code_simp+
  have t: "is_array 32 (zeros 32)" "length ([] :: bytes) < 2 ^ 26 - 5" by (simp_all add: is_array_def)
  show ?thesis
    using light_client_reads_the_server [OF demo_server_fits t a, of "0 :: nat" 0 0 0 Orchard]
    by (simp add: demo_server_def)
qed

text \<open>C39: A request that the server accepts is within the limits the protocol states, whatever bytes the peer
  sent: at most \<open>MAX_BLOCKS\<close> blocks, a whole transaction id, an address that is text of at most 128
  bytes; and sending it again gives the same request.
\<close>

theorem accepted_requests_are_bounded:
  assumes "request_decode b = Ok q"
  shows "request_bounded q \<and> request_decode (request_bytes q) = Ok q"
proof -
  note q = decode_bounded [OF assms]
  show ?thesis
  proof (cases "\<exists>raw. q = SendRequest raw")
    case True
    then show ?thesis using q send_decodes [where r = "[]"] by auto
  next
    case False
    then show ?thesis using q bounded_fits [of q] request_decode_bytes [of q "[]"] by simp
  qed
qed

lemma accepted_requests_are_bounded_witness:
  "let b = OP_BLOCKS # le_bytes 8 (unat (7 :: u64)) @ le_bytes 4 (unat (5000 :: u32))
   in request_decode b = Ok (BlocksRequest 7 1000)
   \<and> request_decode (request_bytes (BlocksRequest 7 1000)) = Ok (BlocksRequest 7 1000)"
proof -
  have "request_decode (OP_BLOCKS # le_bytes 8 (unat (7 :: u64)) @ le_bytes 4 (unat (5000 :: u32))) = Ok (BlocksRequest 7 1000)"
    using le64.get_put [of 7 "le_bytes 4 (unat (5000 :: u32))"] le32.get_put [of 5000 "[]"]
    by (simp add: request_decode_def light_ops MAX_BLOCKS_def min_def del: le_bytes_numeral unsigned_numeral)
  with accepted_requests_are_bounded [OF this] show ?thesis by (simp add: Let_def)
qed

text \<open>
  A request the server cannot decode comes back to the caller as the server's own words: every refusal
  is one of the decoder's texts and arrives unaltered, and asking about an address of more than 128
  bytes is refused with the reason, not answered for a part of it.
\<close>

theorem refusals_reach_the_caller:
  assumes "request_decode b = Err e" "length b \<le> 64 * 2 ^ 20" "128 < length address" "length address < 2 ^ 16"
  shows "light_call (serving sv) b net = (net, Err (LightServer e))
    \<and> light_utxos (serving sv) address net = (net, Err (LightServer (ascii ''address too long'')))"
proof
  show "light_call (serving sv) b net = (net, Err (LightServer e))" using assms(1,2) by (rule refused_call)
  have "request_decode (request_bytes (UtxosRequest address)) = Err (ascii ''address too long'')"
    using short_read(1) [OF assms(4), of "[]"] short_read(2) [OF assms(4)] assms(3)
    by (simp add: request_decode_def request_bytes_def light_ops)
  moreover have "length (request_bytes (UtxosRequest address)) \<le> 64 * 2 ^ 20"
    using assms(4) by (simp add: request_bytes_def put_short_def)
  ultimately show "light_utxos (serving sv) address net = (net, Err (LightServer (ascii ''address too long'')))"
    by (simp add: light_utxos_def light_then_def refused_call)
qed

lemma refusals_reach_the_caller_witness:
  "light_call (serving demo_server) [99] (0 :: nat) = (0, Err (LightServer (ascii ''unknown op'')))
   \<and> light_utxos (serving demo_server) (replicate 200 65) (0 :: nat) = (0, Err (LightServer (ascii ''address too long'')))"
proof -
  have "request_decode [99] = Err (ascii ''unknown op'')" by code_simp
  from refusals_reach_the_caller [OF this, of "replicate 200 65" demo_server "0 :: nat"] show ?thesis by simp
qed

definition served_heights :: "u64 \<Rightarrow> u32 \<Rightarrow> u64 list" where
  "served_heights start many = map (\<lambda>i. start + of_nat i) [0..<unat many]"

text \<open>C23: A wallet that fetches blocks from a server and scans their compact form finds what is its own. For a
  server whose blocks are the compact forms of the chain's, one call returns the range asked for, capped;
  scanning it gives exactly the hits of a search of the whole blocks, and every action whose note the
  wallet's key opens is among them, with its transaction, pool, position and value.
\<close>

theorem wallet_scan_over_the_wire:
  assumes "server_fits sv" "compact_decrypts C ivk opens"
    and "\<forall>start many. sv_blocks sv start many = map (\<lambda>h. from_block C h (chain h)) (served_heights start many)"
  shows "\<exists>bs. light_blocks (serving sv) start many net = (net, Ok bs) \<and>
    map cb_height bs = served_heights start (min many MAX_BLOCKS) \<and>
    concat (map (\<lambda>b. compact_scan C b ivk) bs) = concat (map (\<lambda>h. full_scan C (chain h) ivk) (served_heights start (min many MAX_BLOCKS))) \<and>
    (\<forall>h i j pool v. h \<in> set (map cb_height bs) \<and> i < length (cl_vtx C (chain h)) \<and>
      j < length (pool_actions C pool (cl_vtx C (chain h) ! i)) \<and>
      opens pool (pool_actions C pool (cl_vtx C (chain h) ! i) ! j) = Some v \<longrightarrow>
      \<lparr> hit_tx_index = of_nat i, hit_txid = cl_txid C (cl_vtx C (chain h) ! i), hit_pool = pool, hit_action = j,
        hit_cmx = cl_cmx C (pool_actions C pool (cl_vtx C (chain h) ! i) ! j), hit_value = v \<rparr>
      \<in> set (concat (map (\<lambda>b. compact_scan C b ivk) bs)))"
proof -
  let ?hs = "served_heights start (min many MAX_BLOCKS)"
  let ?bs = "map (\<lambda>h. from_block C h (chain h)) ?hs"
  have r: "light_blocks (serving sv) start many net = (net, Ok ?bs)"
    using blocks_served [OF assms(1), of start many net] assms(3) by simp
  have heights: "map cb_height ?bs = ?hs" by (simp add: from_block_def comp_def)
  have hits: "concat (map (\<lambda>b. compact_scan C b ivk) ?bs) = concat (map (\<lambda>h. full_scan C (chain h) ivk) ?hs)"
    by (simp add: compact_scan_misses_nothing comp_def)
  show ?thesis
    using r heights hits full_scan_complete [OF assms(2)]
    by (intro exI [of _ ?bs]) (simp add: comp_def, blast)
qed

text \<open>A chain whose every block has one transaction with one Orchard note of the wallet.\<close>

definition demo_chain :: "(unit, unit, unit, unit) chain_lib" where
  "demo_chain = \<lparr> cl_vtx = (\<lambda>b. [()]), cl_hash = (\<lambda>b. zeros 32), cl_txid = (\<lambda>t. zeros 32), cl_orchard = (\<lambda>t. Some [()]),
     cl_ironwood = (\<lambda>t. None), cl_nullifier = (\<lambda>a. zeros 32), cl_cmx = (\<lambda>a. zeros 32), cl_epk = (\<lambda>a. zeros 32),
     cl_enc_ciphertext = (\<lambda>a. zeros 580), cl_nullifier_ok = (\<lambda>b. True), cl_cmx_ok = (\<lambda>b. True),
     cl_decrypt = (\<lambda>k pool out. if pool = Orchard then Some 7 else None) \<rparr>"

definition chain_server :: light_server where
  "chain_server = demo_server \<lparr> sv_blocks := (\<lambda>start many. map (\<lambda>h. from_block demo_chain h ()) (served_heights start many)) \<rparr>"

lemma demo_block_fits: "block_fits (from_block demo_chain h ())"
  by (simp add: block_fits_def from_block_def demo_chain_def from_transaction_def compact_outputs_def compact_of_def
      tx_fits_def output_fits_def is_array_def)

lemma demo_block_length: "length (compact_encode (from_block demo_chain h ())) = 242"
  by (simp add: compact_encode_def COMPACT_MAGIC_def put_list_def from_block_def demo_chain_def from_transaction_def
      compact_outputs_def compact_of_def put_tx_def put_output_def ascii_def)

lemma length_put_list: "\<forall>x \<in> set xs. length (put x) = c \<Longrightarrow> length (put_list put xs) = 4 + c * length xs"
  by (induction xs) (simp_all add: put_list_def)

lemma chain_server_fits: "server_fits chain_server"
proof -
  have "length (server_reply chain_server (asked q)) \<le> 64 * 2 ^ 20" for q
  proof (cases q)
    case (BlocksRequest start many)
    let ?hs = "served_heights start (min many MAX_BLOCKS)"
    have "unat (min many MAX_BLOCKS) \<le> 1000" by (simp add: MAX_BLOCKS_def min_def word_le_nat_alt)
    then have "length ?hs \<le> 1000" by (simp add: served_heights_def)
    moreover have "length (put_list put_bytes_le (map compact_encode (map (\<lambda>h. from_block demo_chain h ()) ?hs))) = 4 + 246 * length ?hs"
      using length_put_list [of "map compact_encode (map (\<lambda>h. from_block demo_chain h ()) ?hs)" put_bytes_le 246]
      by (simp add: put_bytes_le_def demo_block_length)
    ultimately show ?thesis
      by (simp add: BlocksRequest asked_def server_reply_def chain_server_def reply_blocks_def reply_ok_def del: map_map)
  qed (use server_fitsD(1) [OF demo_server_fits, of q] in \<open>simp_all add: asked_def server_reply_def chain_server_def\<close>)
  then show ?thesis
    using server_fitsD(2-) [OF demo_server_fits] demo_block_fits
    by (simp add: server_fits_def chain_server_def list_all_iff)
qed

lemma wallet_scan_over_the_wire_witness:
  "\<exists>bs. light_blocks (serving chain_server) 5 2 (0 :: nat) = (0, Ok bs) \<and> map cb_height bs = [5, 6] \<and>
    \<lparr> hit_tx_index = 0, hit_txid = zeros 32, hit_pool = Orchard, hit_action = 0, hit_cmx = zeros 32, hit_value = 7 \<rparr>
      \<in> set (concat (map (\<lambda>b. compact_scan demo_chain b ()) bs))"
proof -
  have d: "compact_decrypts demo_chain () (\<lambda>pool a. if pool = Orchard then Some 7 else None)"
    by (simp add: compact_decrypts_def demo_chain_def)
  have b: "\<forall>start many. sv_blocks chain_server start many = map (\<lambda>h. from_block demo_chain h ((\<lambda>_. ()) h)) (served_heights start many)"
    by (simp add: chain_server_def)
  have m: "served_heights 5 (min 2 MAX_BLOCKS) = [5, 6]"
  proof -
    have "[0..<2] = [0 :: nat, 1]" by code_simp
    moreover have "min 2 MAX_BLOCKS = (2 :: u32)" by (simp add: MAX_BLOCKS_def min_def)
    ultimately show ?thesis by (simp add: served_heights_def)
  qed
  note w = wallet_scan_over_the_wire [OF chain_server_fits d b, of 5 2 "0 :: nat", unfolded m]
  then obtain bs where bs: "light_blocks (serving chain_server) 5 2 (0 :: nat) = (0, Ok bs)" "map cb_height bs = [5, 6]"
    "concat (map (\<lambda>b. compact_scan demo_chain b ()) bs) = concat (map (\<lambda>h :: u64. full_scan demo_chain () ()) [5, 6])"
    by (elim exE conjE) (rule that)
  have "full_scan demo_chain () () = [\<lparr> hit_tx_index = 0, hit_txid = zeros 32, hit_pool = Orchard, hit_action = 0,
      hit_cmx = zeros 32, hit_value = 7 \<rparr>]"
    by (simp add: full_scan_def pool_hits_def demo_chain_def List.map_filter_def)
  with bs show ?thesis by (intro exI [of _ bs]) simp
qed

end
