(* ===== verification/Transparent.thy ===== *)
theory Transparent
  imports Authorise Shielded
begin

text \<open>
  transparent.rs: the wallet's transparent receivers, the text of their addresses, the plan of a sweep
  and \<open>shield\<close>, which spends every transparent output into one shielded note. What it uses of the key
  derivation, of the transparent builder's inputs and of their signatures is the record \<open>sweep_lib\<close>;
  the rest of the transaction is built with \<open>payout_lib\<close>, as for a payout.
\<close>

section \<open>The libraries\<close>

record 'y sweep_lib =
  sl_account_key :: "'y \<Rightarrow> bytes \<Rightarrow> u32 \<Rightarrow> 'y option"
  sl_account_id :: "u32 \<Rightarrow> bool"
  sl_child_index :: "u32 \<Rightarrow> bool"
  sl_external_secret :: "'y \<Rightarrow> u32 \<Rightarrow> 'y option"
  sl_external_ivk :: "'y \<Rightarrow> 'y option"
  sl_ivk_address :: "'y \<Rightarrow> u32 \<Rightarrow> transparent_address option"
  sl_empty_anchor :: bytes
  sl_signing_new :: 'y
  sl_add_key :: "'y \<Rightarrow> 'y \<Rightarrow> 'y \<times> 'y"
  sl_read_script :: "bytes \<Rightarrow> bytes + 'y"
  sl_add_input :: "'y \<Rightarrow> bytes \<times> u32 \<Rightarrow> u64 \<times> 'y \<Rightarrow> 'y \<Rightarrow> bytes + 'y"
  sl_input_sighash :: "'y tx_data \<Rightarrow> 'y \<Rightarrow> bytes"
  sl_apply_signatures :: "('y \<Rightarrow> bytes) \<Rightarrow> 'y \<Rightarrow> 'y transparent_bundle \<Rightarrow> bytes + 'y transparent_bundle"

text \<open>
  \<open>sl_account_id\<close> and \<open>sl_child_index\<close> say which numbers \<open>AccountId::try_from\<close> and
  \<open>NonHardenedChildIndex::from_index\<close> accept; \<open>sl_external_ivk\<close> goes through the account's public key;
  \<open>sl_add_key\<close> adds a secret to a signing set and gives its public key first; \<open>sl_input_sighash\<close> is
  \<open>signature_hash\<close> for a transparent input.
\<close>

section \<open>Receivers\<close>

record 'y receiver =
  rc_secret :: 'y
  rc_address :: transparent_address

definition receiver_derive :: "'y sweep_lib \<Rightarrow> 'y \<Rightarrow> bytes \<Rightarrow> u32 \<Rightarrow> u32 \<Rightarrow> 'y receiver option" where
  "receiver_derive W params seed account index =
    (if \<not> sl_account_id W account then None
     else do {
       account_key \<leftarrow> sl_account_key W params seed account;
       if \<not> sl_child_index W index then None
       else do {
         secret \<leftarrow> sl_external_secret W account_key index;
         ivk \<leftarrow> sl_external_ivk W account_key;
         address \<leftarrow> sl_ivk_address W ivk index;
         Some \<lparr> rc_secret = secret, rc_address = address \<rparr> } })"

datatype network_type = MainType | TestType | RegtestType

definition encode_transparent :: "(bytes \<Rightarrow> bytes) \<Rightarrow> transparent_address \<Rightarrow> network_type \<Rightarrow> bytes" where
  "encode_transparent sha256 addr network =
    (let (p2pkh, p2sh) = (case network of
           MainType \<Rightarrow> ([0x1C, 0xB8], [0x1C, 0xBD]) | _ \<Rightarrow> ([0x1D, 0x25], [0x1C, 0xBA]));
         (prefix, hash) = (case addr of PublicKeyHash h \<Rightarrow> (p2pkh, h) | ScriptHash h \<Rightarrow> (p2sh, h));
         body = prefix @ hash;
         check = sha256 (sha256 body)
     in base58_encode (body @ take 4 check))"

definition receiver_encoded :: "(bytes \<Rightarrow> bytes) \<Rightarrow> 'y receiver \<Rightarrow> network_type \<Rightarrow> bytes" where
  "receiver_encoded sha256 r network = encode_transparent sha256 (rc_address r) network"

section \<open>The plan of a sweep\<close>

record sweep =
  sw_total :: u64
  sw_fee :: u64
  sw_net :: u64
  sw_count :: nat

definition sweep_plan :: "utxo list \<Rightarrow> sweep" where
  "sweep_plan utxos =
    (let total = sum_words (map ut_value utxos);
         fee = 5000 * of_nat (max (max (length utxos) 1 + 2) 2)
     in \<lparr> sw_total = total, sw_fee = fee, sw_net = saturating_sub total fee, sw_count = length utxos \<rparr>)"

definition script_pays :: "bytes \<Rightarrow> transparent_address \<Rightarrow> bool" where
  "script_pays script addr =
    (case addr of
       ScriptHash _ \<Rightarrow> False
     | PublicKeyHash hash \<Rightarrow> length script = 25 \<and> script ! 0 = 0x76 \<and> script ! 1 = 0xa9 \<and> script ! 2 = 0x14
         \<and> subs 3 23 script = hash \<and> script ! 23 = 0x88 \<and> script ! 24 = 0xac)"

section \<open>Sweeping\<close>

text \<open>The loop over the outputs: each becomes an input of the transparent builder, with the key of the
  first receiver its script pays in the signing set.\<close>

fun sweep_inputs ::
  "('n, 'x, 'y, 'r) payout_lib \<Rightarrow> 'y sweep_lib \<Rightarrow> 'y receiver list \<Rightarrow> utxo list \<Rightarrow> 'y \<Rightarrow> 'y \<Rightarrow> payout_error + 'y \<times> 'y" where
  "sweep_inputs L W receivers [] signing t = Ok (signing, t)"
| "sweep_inputs L W receivers (u # us) signing t =
    and_then (ok_or (List.find (\<lambda>r. script_pays (ut_script u) (rc_address r)) receivers)
        (BuildError (ascii ''an output pays an address this wallet cannot spend''))) (\<lambda>r.
      case sl_add_key W (rc_secret r) signing of (pubkey, signing) \<Rightarrow>
      if \<not> pl_zatoshis L (ut_value u) then Err (BuildError (ascii ''utxo value''))
      else if length (ut_script u) > 252 then Err (BuildError (ascii ''scriptPubKey is longer than a P2PKH''))
      else
        and_then (case sl_read_script W (of_nat (length (ut_script u)) # ut_script u) of
            Inl e \<Rightarrow> Err (BuildError (ascii ''unreadable scriptPubKey: '' @ e)) | Inr s \<Rightarrow> Ok s) (\<lambda>script_pubkey.
        and_then (build_err (sl_add_input W pubkey (ut_txid u, ut_index u) (ut_value u, script_pubkey) t)) (\<lambda>t.
          sweep_inputs L W receivers us signing t)))"

text \<open>The end of \<open>shield\<close>: the bundle is finalized, proved and its dummies signed over the sighash, both sides
  authorised over one transaction, and the transaction written.\<close>

definition sweep_seal ::
  "('n, 'x, 'y, 'r) payout_lib \<Rightarrow> 'y sweep_lib \<Rightarrow> 'y \<Rightarrow> 'y \<Rightarrow> 'y envelope \<Rightarrow> 'y pczt \<Rightarrow> 'y \<Rightarrow> 'y transparent_bundle \<Rightarrow> 'y option
    \<Rightarrow> 'r \<Rightarrow> (payout_error + 'n sealed) \<times> 'r" where
  "sweep_seal L W ask version env bundle signing unauthorized effects rng =
    (let pool = pl_value_pool L version;
         for_sighash = tx_around env pool (Some unauthorized) effects;
         sighash = pl_sighash L for_sighash
     in case pl_finalize_io L sighash bundle rng of (res, bundle, rng) \<Rightarrow>
     case envelope_err res of Inl e \<Rightarrow> (Err e, rng) | Inr _ \<Rightarrow>
    (case pl_create_proof L (proving_key L version) bundle rng of (res, bundle, rng) \<Rightarrow>
     case envelope_err res of Inl e \<Rightarrow> (Err e, rng) | Inr _ \<Rightarrow>
    (case sign_actions L sighash ask (pz_actions bundle) rng of (acts, _, rng) \<Rightarrow>
     let bundle = bundle \<lparr> pz_actions := acts \<rparr>
     in case build_err (sl_apply_signatures W (sl_input_sighash W for_sighash) signing unauthorized) of
         Inl e \<Rightarrow> (Err e, rng)
       | Inr authorized_t \<Rightarrow>
    (case envelope_err (pl_extract L bundle) of
         Inl e \<Rightarrow> (Err e, rng)
       | Inr None \<Rightarrow> (Err (EnvelopeError (ascii ''no actions'')), rng)
       | Inr (Some unbound) \<Rightarrow>
    (case pl_bind L sighash unbound rng of
         (None, rng) \<Rightarrow> (Err BadSignature, rng)
       | (Some authorized, rng) \<Rightarrow>
         (and_then (envelope_err (pl_freeze L (tx_around env pool (Some authorized_t) (Some authorized)))) (\<lambda>tx.
          and_then (envelope_err (pl_write L tx)) (\<lambda>b.
            Ok \<lparr> sd_txid = pl_txid L tx, sd_bytes = b, sd_spent = [] \<rparr>)), rng))))))"

definition shield ::
  "('n, 'x, 'y, 'r) payout_lib \<Rightarrow> 'y sweep_lib \<Rightarrow> 'y receiver list \<Rightarrow> utxo list \<Rightarrow> 'y \<Rightarrow> 'y \<Rightarrow> 'y \<Rightarrow> 'y option \<Rightarrow> 'y
    \<Rightarrow> 'y envelope \<Rightarrow> 'r \<Rightarrow> (payout_error + 'n sealed) \<times> 'r" where
  "shield L W receivers utxos to fvk ask ovk version env rng =
    (if utxos = [] then (Err (BuildError (ascii ''nothing to shield'')), rng)
     else let sweep = sweep_plan utxos
     in if sw_net sweep = 0
        then (Err (BuildError (decimal (unat (sw_total sweep)) @ ascii '' zat across '' @ decimal (sw_count sweep)
          @ ascii '' output(s) does not cover the '' @ decimal (unat (sw_fee sweep)) @ ascii '' zat fee'')), rng)
     else (case and_then (build_err (pl_builder L version (sl_empty_anchor W))) (\<lambda>builder.
             build_err (pl_add_change L fvk ovk to (sw_net sweep) (zeros 512) builder)) of
         Inl e \<Rightarrow> (Err e, rng)
       | Inr builder \<Rightarrow>
     (case pl_build L builder rng of (built, rng) \<Rightarrow>
      case and_then (build_err built) (\<lambda>bundle.
           and_then (sweep_inputs L W receivers utxos (sl_signing_new W) (pl_t_empty L)) (\<lambda>(signing, t).
           and_then (ok_or (pl_t_build L t) (BuildError (ascii ''no transparent bundle''))) (\<lambda>unauthorized.
           and_then (envelope_err (pl_extract_effects L bundle)) (\<lambda>effects.
             Ok (bundle, signing, unauthorized, effects))))) of
         Inl e \<Rightarrow> (Err e, rng)
       | Inr (bundle, signing, unauthorized, effects) \<Rightarrow>
         sweep_seal L W ask version env bundle signing unauthorized effects rng)))"

section \<open>Addresses and scripts\<close>

definition network_type_of :: "consensus_network \<Rightarrow> network_type" where
  "network_type_of network = (case network of MainNetwork \<Rightarrow> MainType | TestNetwork \<Rightarrow> TestType)"

lemma encode_transparent_text: "encode_transparent sha256 a (network_type_of network) = address_text sha256 network a"
  by (cases a; cases network)
    (simp_all add: encode_transparent_def address_text_def network_type_of_def address_prefixes_def Let_def)

lemma regtest_like_test: "encode_transparent sha256 a RegtestType = encode_transparent sha256 a TestType"
  by (simp add: encode_transparent_def)

lemma zip317_plan: "utxos \<noteq> [] \<Longrightarrow> sw_fee (sweep_plan utxos) = zip317_fee 2 (length utxos)"
  by (cases utxos) (simp_all add: sweep_plan_def zip317_fee_def Let_def)

text \<open>The script of a payment to a key hash.\<close>

definition p2pkh_script :: "bytes \<Rightarrow> bytes" where
  "p2pkh_script hash = [0x76, 0xa9, 0x14] @ hash @ [0x88, 0xac]"

lemma script_pays_iff:
  "script_pays script a \<longleftrightarrow> (\<exists>hash. a = PublicKeyHash hash \<and> length hash = 20 \<and> script = p2pkh_script hash)"
proof (cases a)
  case (PublicKeyHash hash)
  have "script = p2pkh_script hash \<and> length hash = 20"
    if s: "length script = 25" "script ! 0 = 0x76" "script ! 1 = 0xa9" "script ! 2 = 0x14"
      "subs 3 23 script = hash" "script ! 23 = 0x88" "script ! 24 = 0xac"
  proof -
    have "take 3 script @ subs 3 23 script = take 23 script"
      using append_take_drop_id [of 3 "take 23 script"] by (simp add: subs_def take_drop min_def)
    then have "script = take 3 script @ subs 3 23 script @ drop 23 script"
      by (simp only: append_assoc [symmetric] append_take_drop_id)
    moreover have "take 3 script = [0x76, 0xa9, 0x14]"
      using s(1-4) by (simp add: list_eq_iff_nth_eq less_Suc_eq numeral_3_eq_3 numeral_2_eq_2)
    moreover have "drop 23 script = [0x88, 0xac]"
      using s(1,6,7) by (simp add: list_eq_iff_nth_eq less_Suc_eq numeral_2_eq_2)
    ultimately show ?thesis using s(1,5) by (simp add: p2pkh_script_def)
  qed
  moreover have "script_pays (p2pkh_script hash) a" if "length hash = 20"
    using that by (simp add: PublicKeyHash script_pays_def p2pkh_script_def subs_def nth_append)
  ultimately show ?thesis using PublicKeyHash by (auto simp: script_pays_def)
qed (simp add: script_pays_def)

section \<open>What a sweep does\<close>

definition utxo_total :: "utxo list \<Rightarrow> nat" where
  "utxo_total utxos = sum_list (map (\<lambda>u. unat (ut_value u)) utxos)"

lemma plan_total: "utxo_total utxos < 2 ^ 64 \<Longrightarrow> unat (sw_total (sweep_plan utxos)) = utxo_total utxos"
  using unat_sum_words [of "map ut_value utxos"] by (simp add: sweep_plan_def Let_def utxo_total_def comp_def)

lemma plan_fee:
  assumes "utxos \<noteq> []" "length utxos < 2 ^ 32"
  shows "unat (sw_fee (sweep_plan utxos)) = 5000 * (length utxos + 2)"
proof -
  have "sw_fee (sweep_plan utxos) = of_nat (5000 * (length utxos + 2))"
    using assms(1) by (cases utxos) (simp_all add: sweep_plan_def Let_def)
  then show ?thesis using assms(2) by (simp only: unat_of_nat) simp
qed

lemma plan_net:
  assumes "utxo_total utxos < 2 ^ 64" "utxos \<noteq> []" "length utxos < 2 ^ 32"
  shows "unat (sw_net (sweep_plan utxos)) = utxo_total utxos - 5000 * (length utxos + 2)"
proof -
  have "sw_net (sweep_plan utxos) = saturating_sub (sw_total (sweep_plan utxos)) (sw_fee (sweep_plan utxos))"
    by (simp add: sweep_plan_def Let_def)
  then show ?thesis
    using plan_total [OF assms(1)] plan_fee [OF assms(2,3)]
    by (auto simp: saturating_sub_def unat_sub word_le_nat_alt)
qed

text \<open>
  What the libraries promise of a sweep: a bundle pays the outputs its builder was given, the transparent
  bundle spends the outpoints its builder was given and pays the outputs it was given, none here, and
  signing it changes neither. \<open>outs\<close> reads the outputs of a shielded builder, \<open>paid\<close> those of a
  bundle's effects, \<open>carries\<close> the inputs and the number of outputs of a transparent builder, and
  \<open>prevout\<close> the outpoint of an input.
\<close>

definition sweep_laws ::
  "('n, 'x, 'y, 'r) payout_lib \<Rightarrow> 'y sweep_lib \<Rightarrow> ('y \<Rightarrow> 'e) \<Rightarrow> ('y \<Rightarrow> ('y \<times> u64) list) \<Rightarrow> ('e \<Rightarrow> ('y \<times> u64) list)
    \<Rightarrow> ('y \<Rightarrow> (bytes \<times> u32) list \<times> nat) \<Rightarrow> ('y \<Rightarrow> bytes \<times> u32) \<Rightarrow> bool" where
  "sweep_laws L W eff outs paid carries prevout \<longleftrightarrow>
    (\<forall>v a u. pl_builder L v a = Ok u \<longrightarrow> outs u = []) \<and>
    (\<forall>k ko to v memo u u'. pl_add_change L k ko to v memo u = Ok u' \<longrightarrow> outs u' = outs u @ [(to, v)]) \<and>
    (\<forall>u r b r' e. pl_build L u r = (Ok b, r') \<and> pl_extract_effects L b = Ok (Some e) \<longrightarrow> paid (eff e) = outs u) \<and>
    carries (pl_t_empty L) = ([], 0) \<and>
    (\<forall>k op coin t t'. sl_add_input W k op coin t = Ok t' \<longrightarrow> carries t' = (fst (carries t) @ [op], snd (carries t))) \<and>
    (\<forall>t b. pl_t_build L t = Some b \<longrightarrow> (map prevout (tb_vin b), length (tb_vout b)) = carries t) \<and>
    (\<forall>f keys b b'. sl_apply_signatures W f keys b = Ok b' \<longrightarrow>
      map prevout (tb_vin b') = map prevout (tb_vin b) \<and> tb_vout b' = tb_vout b)"

lemma sweep_lawsD:
  assumes "sweep_laws L W eff outs paid carries prevout"
  shows "pl_builder L v a = Ok u \<Longrightarrow> outs u = []"
    "pl_add_change L k ko to amount memo u = Ok u' \<Longrightarrow> outs u' = outs u @ [(to, amount)]"
    "pl_build L u r = (Ok b, r') \<Longrightarrow> pl_extract_effects L b = Ok (Some e) \<Longrightarrow> paid (eff e) = outs u"
    "carries (pl_t_empty L) = ([], 0)"
    "sl_add_input W key op coin t = Ok t' \<Longrightarrow> carries t' = (fst (carries t) @ [op], snd (carries t))"
    "pl_t_build L t = Some tb \<Longrightarrow> (map prevout (tb_vin tb), length (tb_vout tb)) = carries t"
    "sl_apply_signatures W f keys tb = Ok tb' \<Longrightarrow> map prevout (tb_vin tb') = map prevout (tb_vin tb) \<and> tb_vout tb' = tb_vout tb"
  using assms unfolding sweep_laws_def by metis+

definition outpoint :: "utxo \<Rightarrow> bytes \<times> u32" where
  "outpoint u = (ut_txid u, ut_index u)"

text \<open>A wallet can spend an output whose script is the key-hash script of one of its receivers.\<close>

definition spendable :: "'y receiver list \<Rightarrow> utxo \<Rightarrow> bool" where
  "spendable receivers u \<longleftrightarrow>
    (\<exists>r \<in> set receivers. \<exists>hash. rc_address r = PublicKeyHash hash \<and> length hash = 20 \<and> ut_script u = p2pkh_script hash)"

lemma find_spendable:
  "List.find (\<lambda>r. script_pays (ut_script u) (rc_address r)) receivers = Some r \<Longrightarrow> spendable receivers u"
  by (auto simp: find_Some_iff script_pays_iff spendable_def)

lemma sweep_inputs_Ok:
  assumes "sweep_laws L W eff outs paid carries prevout"
  shows "sweep_inputs L W receivers us signing t = Ok (signing', t') \<Longrightarrow>
    carries t' = (fst (carries t) @ map outpoint us, snd (carries t)) \<and> list_all (spendable receivers) us"
proof (induction us arbitrary: signing t)
  case (Cons u us)
  obtain r where r: "List.find (\<lambda>r. script_pays (ut_script u) (rc_address r)) receivers = Some r"
    using Cons.prems by (auto simp: result_simps)
  obtain pubkey signing1 where k: "sl_add_key W (rc_secret r) signing = (pubkey, signing1)" by fastforce
  obtain script t1 where t1: "sl_add_input W pubkey (ut_txid u, ut_index u) (ut_value u, script) t = Ok t1"
    and rest: "sweep_inputs L W receivers us signing1 t1 = Ok (signing', t')"
    using Cons.prems by (auto simp: r k result_simps split: if_splits)
  from Cons.IH [OF rest] sweep_lawsD(5) [OF assms t1] find_spendable [OF r] show ?case
    by (simp add: outpoint_def)
qed simp

lemma sweep_inputs_refused:
  "\<exists>u \<in> set us. \<not> spendable receivers u \<Longrightarrow> \<exists>e. sweep_inputs L W receivers us signing t = Err e"
proof (induction us arbitrary: signing t)
  case (Cons u us)
  show ?case
  proof (cases "List.find (\<lambda>r. script_pays (ut_script u) (rc_address r)) receivers")
    case (Some r)
    with Cons.prems find_spendable [OF this] have bad: "\<exists>u \<in> set us. \<not> spendable receivers u" by auto
    show ?thesis
    proof (cases "sweep_inputs L W receivers (u # us) signing t")
      case (Inr x)
      then obtain signing1 t1 where "sweep_inputs L W receivers us signing1 t1 = Inr x"
        using Some by (auto simp: result_simps split: if_splits prod.splits)
      with Cons.IH [OF bad] show ?thesis by (metis sum.distinct(1))
    qed blast
  qed simp
qed simp

text \<open>What a sealed sweep was: the transaction that was signed, and the one that is sent.\<close>

lemma sweep_seal_Ok:
  assumes "authorise_laws L eff" "sweep_seal L W ask version env bundle signing unauthorized effects rng = (Ok s, rng')"
    and "pl_extract_effects L bundle = Ok effects"
  shows "\<exists>unbound a r r' signed frozen.
    pl_bind L (pl_sighash L (tx_around env (pl_value_pool L version) (Some unauthorized) effects)) unbound r = (Some a, r') \<and>
    map_option eff effects = Some (eff a) \<and>
    sl_apply_signatures W (sl_input_sighash W (tx_around env (pl_value_pool L version) (Some unauthorized) effects))
      signing unauthorized = Ok signed \<and>
    pl_freeze L (tx_around env (pl_value_pool L version) (Some signed) (Some a)) = Ok frozen \<and>
    pl_write L frozen = Ok (sd_bytes s) \<and> sd_txid s = pl_txid L frozen \<and> sd_spent s = []"
proof -
  let ?h = "pl_sighash L (tx_around env (pl_value_pool L version) (Some unauthorized) effects)"
  obtain res1 b1 r1 where f: "pl_finalize_io L ?h bundle rng = (res1, b1, r1)" by (metis prod.exhaust)
  obtain res2 b2 r2 where c: "pl_create_proof L (proving_key L version) b1 r1 = (res2, b2, r2)" by (metis prod.exhaust)
  obtain acts k r3 where g: "sign_actions L ?h ask (pz_actions b2) r2 = (acts, k, r3)" by (metis prod.exhaust)
  let ?b = "b2 \<lparr> pz_actions := acts \<rparr>"
  have e: "pl_extract_effects L ?b = Ok effects"
    using sign_actions_effects [OF assms(1) g, where b = b2 and pre = "[]"] authorise_lawsD(1) [OF assms(1) f]
      authorise_lawsD(2) [OF assms(1) c] assms(3) by simp
  note seal = assms(2) [unfolded sweep_seal_def Let_def f c g]
  obtain signed where s: "sl_apply_signatures W (sl_input_sighash W (tx_around env (pl_value_pool L version) (Some unauthorized) effects))
      signing unauthorized = Ok signed"
    using seal f c g by (auto simp: Let_def build_err_def split: sum.splits)
  obtain unbound where x: "pl_extract L ?b = Ok (Some unbound)"
    using seal f c g s by (auto simp: Let_def build_err_def envelope_err_def split: sum.splits option.splits)
  obtain a r4 where b: "pl_bind L ?h unbound r3 = (Some a, r4)"
    using seal f c g s x by (auto simp: Let_def build_err_def envelope_err_def split: sum.splits option.splits prod.splits)
  have fin: "and_then (envelope_err (pl_freeze L (tx_around env (pl_value_pool L version) (Some signed) (Some a)))) (\<lambda>tx.
          and_then (envelope_err (pl_write L tx)) (\<lambda>b.
            Ok \<lparr> sd_txid = pl_txid L tx, sd_bytes = b, sd_spent = [] \<rparr>)) = Ok s"
    using seal f c g s x b by (auto simp: Let_def build_err_def split: sum.splits) 
      (auto simp: envelope_err_def split: sum.splits)
  have "map_option eff effects = Some (eff unbound)" by (rule authorise_lawsD(5) [OF assms(1) e x])
  with authorise_lawsD(6) [OF assms(1) b] have ea: "map_option eff effects = Some (eff a)" by simp
  from fin obtain frozen where "pl_freeze L (tx_around env (pl_value_pool L version) (Some signed) (Some a)) = Ok frozen"
    "pl_write L frozen = Ok (sd_bytes s)" "sd_txid s = pl_txid L frozen" "sd_spent s = []"
    by (auto simp: result_simps)
  with b ea s show ?thesis by blast
qed

lemma shield_Ok:
  assumes "shield L W receivers utxos to fvk ask ovk version env rng = (Ok s, rng')"
  shows "utxos \<noteq> [] \<and> sw_net (sweep_plan utxos) \<noteq> 0 \<and> (\<exists>u0 u1 bundle rng1 signing t unauthorized effects.
    pl_builder L version (sl_empty_anchor W) = Ok u0 \<and>
    pl_add_change L fvk ovk to (sw_net (sweep_plan utxos)) (zeros 512) u0 = Ok u1 \<and>
    pl_build L u1 rng = (Ok bundle, rng1) \<and>
    sweep_inputs L W receivers utxos (sl_signing_new W) (pl_t_empty L) = Ok (signing, t) \<and>
    pl_t_build L t = Some unauthorized \<and> pl_extract_effects L bundle = Ok effects \<and>
    sweep_seal L W ask version env bundle signing unauthorized effects rng1 = (Ok s, rng'))"
proof -
  have n: "utxos \<noteq> []" "sw_net (sweep_plan utxos) \<noteq> 0"
    using assms by (auto simp: shield_def Let_def split: if_splits)
  note r = assms [unfolded shield_def Let_def if_not_P [OF n(1)] if_not_P [OF n(2)]]
  obtain u0 u1 where u: "pl_builder L version (sl_empty_anchor W) = Ok u0"
    "pl_add_change L fvk ovk to (sw_net (sweep_plan utxos)) (zeros 512) u0 = Ok u1"
    using r by (cases "and_then (build_err (pl_builder L version (sl_empty_anchor W)))
      (\<lambda>builder. build_err (pl_add_change L fvk ovk to (sw_net (sweep_plan utxos)) (zeros 512) builder))") (auto simp: result_simps)
  obtain built rng1 where b: "pl_build L u1 rng = (built, rng1)" by fastforce
  let ?rest = "and_then (build_err built) (\<lambda>bundle.
           and_then (sweep_inputs L W receivers utxos (sl_signing_new W) (pl_t_empty L)) (\<lambda>(signing, t).
           and_then (ok_or (pl_t_build L t) (BuildError (ascii ''no transparent bundle''))) (\<lambda>unauthorized.
           and_then (envelope_err (pl_extract_effects L bundle)) (\<lambda>effects.
             Ok (bundle, signing, unauthorized, effects)))))"
  obtain x where x: "?rest = Ok x"
    using r u b by (cases ?rest) (auto simp: build_err_def)
  obtain bdl signing unauthorized effects where x': "x = (bdl, signing, unauthorized, effects)" by (metis prod.exhaust)
  have "sweep_seal L W ask version env bdl signing unauthorized effects rng1 = (Ok s, rng')"
    using r u b x x' by (simp add: build_err_def)
  with n u b x x' show ?thesis by (auto simp: result_simps)
qed

section \<open>Properties\<close>

text \<open>C10: A sweep moves everything into one shielded output of the wallet. Whenever \<open>shield\<close> returns a
  transaction, its transparent side spends exactly the given outputs, in order, and pays no one; its
  shielded side pays one output, to the address given, of their total less the ZIP-317 fee; every output
  swept is a key-hash script of one of the wallet's receivers; and both the binding signature and the
  inputs' signatures were made over the transaction with those inputs and effects.
\<close>

theorem sweep_lands_in_one_shielded_output:
  assumes "authorise_laws L eff" "sweep_laws L W eff outs paid carries prevout"
    and "utxo_total utxos < 2 ^ 64" "length utxos < 2 ^ 32"
    and "shield L W receivers utxos to fvk ask ovk version env rng = (Ok s, rng')"
  shows "\<exists>unsigned tx frozen signing unauthorized signed unbound a r r' net.
    tx = unsigned \<lparr> tx_transparent := Some signed, tx_orchard := Some a \<rparr> \<and> tx_transparent unsigned = Some unauthorized \<and>
    pl_freeze L tx = Ok frozen \<and> pl_write L frozen = Ok (sd_bytes s) \<and> sd_txid s = pl_txid L frozen \<and> sd_spent s = [] \<and>
    map prevout (tb_vin signed) = map outpoint utxos \<and> tb_vout signed = [] \<and>
    paid (eff a) = [(to, net)] \<and> unat net + unat (zip317_fee 2 (length utxos)) = utxo_total utxos \<and> 0 < unat net \<and>
    list_all (spendable receivers) utxos \<and>
    pl_bind L (pl_sighash L unsigned) unbound r = (Some a, r') \<and> map_option eff (tx_orchard unsigned) = Some (eff a) \<and>
    sl_apply_signatures W (sl_input_sighash W unsigned) signing unauthorized = Ok signed"
proof -
  let ?net = "sw_net (sweep_plan utxos)"
  from shield_Ok [OF assms(5)] obtain u0 u1 bdl rng1 signing t unauthorized effects where n: "utxos \<noteq> []" "?net \<noteq> 0"
    and u: "pl_builder L version (sl_empty_anchor W) = Ok u0" "pl_add_change L fvk ovk to ?net (zeros 512) u0 = Ok u1"
    and b: "pl_build L u1 rng = (Ok bdl, rng1)"
    and i: "sweep_inputs L W receivers utxos (sl_signing_new W) (pl_t_empty L) = Ok (signing, t)"
    and t: "pl_t_build L t = Some unauthorized" and e: "pl_extract_effects L bdl = Ok effects"
    and seal: "sweep_seal L W ask version env bdl signing unauthorized effects rng1 = (Ok s, rng')"
    by blast
  let ?unsigned = "tx_around env (pl_value_pool L version) (Some unauthorized) effects"
  from sweep_seal_Ok [OF assms(1) seal e] obtain unbound a r r' signed frozen where
    bind: "pl_bind L (pl_sighash L ?unsigned) unbound r = (Some a, r')" and ea: "map_option eff effects = Some (eff a)"
    and sig: "sl_apply_signatures W (sl_input_sighash W ?unsigned) signing unauthorized = Ok signed"
    and f: "pl_freeze L (tx_around env (pl_value_pool L version) (Some signed) (Some a)) = Ok frozen"
      "pl_write L frozen = Ok (sd_bytes s)" "sd_txid s = pl_txid L frozen" "sd_spent s = []" by blast
  have out: "paid (eff a) = [(to, ?net)]"
    using ea e sweep_lawsD(1) [OF assms(2) u(1)] sweep_lawsD(2) [OF assms(2) u(2)]
      sweep_lawsD(3) [OF assms(2) b] by (cases effects) auto
  have side: "carries t = (map outpoint utxos, 0)" "list_all (spendable receivers) utxos"
    using sweep_inputs_Ok [OF assms(2) i] sweep_lawsD(4) [OF assms(2)] by simp_all
  then have ins: "map prevout (tb_vin signed) = map outpoint utxos" "tb_vout signed = []"
    using sweep_lawsD(6) [OF assms(2) t] sweep_lawsD(7) [OF assms(2) sig] by auto
  have "unat ?net \<noteq> 0" using n(2) by (simp add: unat_eq_0)
  then have money: "unat ?net + unat (zip317_fee 2 (length utxos)) = utxo_total utxos" "0 < unat ?net"
    using plan_net [OF assms(3) n(1) assms(4)] plan_fee [OF n(1) assms(4)] zip317_plan [OF n(1)] by simp_all
  have tx: "tx_around env (pl_value_pool L version) (Some signed) (Some a)
      = ?unsigned \<lparr> tx_transparent := Some signed, tx_orchard := Some a \<rparr>"
    "tx_transparent ?unsigned = Some unauthorized" "tx_orchard ?unsigned = effects"
    by (simp_all add: tx_around_def)
  have ea': "map_option eff (tx_orchard ?unsigned) = Some (eff a)" by (simp only: tx(3) ea)
  show ?thesis
    by (intro exI conjI) (rule tx(1,2) f ins out money side(2) bind ea' sig)+
qed

text \<open>A sweep that should not happen is refused. With nothing to sweep, or with outputs worth no more
  than the fee of sweeping them, \<open>shield\<close> refuses before it builds or draws anything; and with one output
  whose script is not a key-hash script of a receiver of the wallet, it makes no transaction at all.
\<close>

theorem sweep_refused:
  assumes "utxo_total utxos < 2 ^ 64" "length utxos < 2 ^ 32"
  shows "(utxos = [] \<or> utxo_total utxos \<le> 5000 * (length utxos + 2) \<longrightarrow>
      (\<exists>m. shield L W receivers utxos to fvk ask ovk version env rng = (Err (BuildError m), rng))) \<and>
    ((\<exists>u \<in> set utxos. \<not> spendable receivers u) \<longrightarrow>
      \<not> is_ok (fst (shield L W receivers utxos to fvk ask ovk version env rng)))"
proof
  show "utxos = [] \<or> utxo_total utxos \<le> 5000 * (length utxos + 2) \<longrightarrow>
      (\<exists>m. shield L W receivers utxos to fvk ask ovk version env rng = (Err (BuildError m), rng))"
  proof
    assume *: "utxos = [] \<or> utxo_total utxos \<le> 5000 * (length utxos + 2)"
    have "sw_net (sweep_plan utxos) = 0" if "utxos \<noteq> []"
      using plan_net [OF assms(1) that assms(2)] * that by (simp add: unat_eq_0 [symmetric])
    then show "\<exists>m. shield L W receivers utxos to fvk ask ovk version env rng = (Err (BuildError m), rng)"
      by (auto simp: shield_def Let_def)
  qed
  show "(\<exists>u \<in> set utxos. \<not> spendable receivers u) \<longrightarrow>
      \<not> is_ok (fst (shield L W receivers utxos to fvk ask ovk version env rng))"
  proof
    assume "\<exists>u \<in> set utxos. \<not> spendable receivers u"
    from sweep_inputs_refused [OF this] have "\<And>signing t x. sweep_inputs L W receivers utxos signing t \<noteq> Ok x"
      by (metis sum.distinct(1))
    then have "shield L W receivers utxos to fvk ask ovk version env rng \<noteq> (Ok s, rng')" for s rng'
      using shield_Ok [of L W receivers utxos to fvk ask ovk version env rng s rng'] by blast
    then show "\<not> is_ok (fst (shield L W receivers utxos to fvk ask ovk version env rng))"
      by (cases "shield L W receivers utxos to fvk ask ovk version env rng") (auto simp: is_ok_def split: sum.splits)
  qed
qed

section \<open>An instance\<close>

text \<open>A shielded builder is the list of its outputs, a transparent one the outpoints it spends; signatures
  add nothing to them.\<close>

datatype demo_object = Atom nat | Outputs "(demo_object \<times> u64) list" | Inputs "(bytes \<times> u32) list"

definition outputs_of :: "demo_object \<Rightarrow> (demo_object \<times> u64) list" where
  "outputs_of y = (case y of Outputs l \<Rightarrow> l | _ \<Rightarrow> [])"

definition inputs_of :: "demo_object \<Rightarrow> (bytes \<times> u32) list" where
  "inputs_of y = (case y of Inputs l \<Rightarrow> l | _ \<Rightarrow> [])"

definition demo_tx_lib :: "(nat, nat, demo_object, nat) payout_lib" where
  "demo_tx_lib = \<lparr>
     pl_cross_address = (\<lambda>v. True), pl_value_pool = (\<lambda>v. Ironwood), pl_builder = (\<lambda>v a. Ok (Outputs [])),
     pl_add_spend = (\<lambda>k n path u. Ok u), pl_add_output = (\<lambda>k to v memo u. Ok (Outputs (outputs_of u @ [(to, v)]))),
     pl_add_change = (\<lambda>k k' to v memo u. Ok (Outputs (outputs_of u @ [(to, v)]))),
     pl_build = (\<lambda>u r. (Ok \<lparr> pz_actions = [Atom 0, Atom 0], pz_rest = u \<rparr>, Suc r)),
     pl_zatoshis = (\<lambda>v. v \<le> 2100000000000000),
     pl_t_empty = Inputs [], pl_t_add = (\<lambda>to v t. Err []),
     pl_t_build = (\<lambda>t. if inputs_of t = [] then None else Some \<lparr> tb_vin = map (\<lambda>p. Inputs [p]) (inputs_of t), tb_vout = [] \<rparr>),
     pl_branch = (\<lambda>n h. Atom 6), pl_height_add = saturating_add, pl_nu5 = (\<lambda>n. Some 1842420),
     pl_bundle_version = (\<lambda>b p. Some (Atom 3)), pl_debug = (\<lambda>_. [63]),
     pl_alpha = (\<lambda>a. None), pl_rk = (\<lambda>a. []), pl_randomized_key = (\<lambda>k. k),
     pl_apply_signature = (\<lambda>h sig a. None), pl_sign_action = (\<lambda>h k a r. (None, Suc r)),
     pl_extract_effects = (\<lambda>b. Ok (Some (pz_rest b))),
     pl_finalize_io = (\<lambda>h b r. (Ok (), b, r)), pl_create_proof = (\<lambda>k b r. (Ok (), b, r)),
     pl_extract = (\<lambda>b. Ok (Some (pz_rest b))), pl_bind = (\<lambda>h u r. (Some u, r)),
     pl_sighash = (\<lambda>t. zeros 32), pl_freeze = (\<lambda>t. Ok (Atom 8)), pl_write = (\<lambda>f. Ok [8]), pl_txid = (\<lambda>f. zeros 32),
     pl_circuit_version = (\<lambda>v. v), pl_build_proving_key = (\<lambda>c. c), pl_build_verifying_key = (\<lambda>c. c) \<rparr>"

definition demo_sweep_lib :: "demo_object sweep_lib" where
  "demo_sweep_lib = \<lparr> sl_account_key = (\<lambda>p seed a. Some (Atom (unat a))), sl_account_id = (\<lambda>a. a < 2147483648),
     sl_child_index = (\<lambda>i. i < 2147483648), sl_external_secret = (\<lambda>k i. Some (Atom (unat i))), sl_external_ivk = Some,
     sl_ivk_address = (\<lambda>k i. Some (PublicKeyHash (replicate 20 (ucast i)))), sl_empty_anchor = zeros 32,
     sl_signing_new = Atom 0, sl_add_key = (\<lambda>k s. (k, s)), sl_read_script = (\<lambda>w. Ok (Atom 1)),
     sl_add_input = (\<lambda>k op coin t. Ok (Inputs (inputs_of t @ [op]))), sl_input_sighash = (\<lambda>t i. zeros 32),
     sl_apply_signatures = (\<lambda>f keys b. Ok b) \<rparr>"

lemma demo_sweep_laws:
  "authorise_laws demo_tx_lib (\<lambda>e. e)"
  "sweep_laws demo_tx_lib demo_sweep_lib (\<lambda>e. e) outputs_of outputs_of (\<lambda>t. (inputs_of t, 0)) (\<lambda>i. hd (inputs_of i))"
proof -
  show "authorise_laws demo_tx_lib (\<lambda>e. e)"
    by (auto simp: authorise_laws_def demo_tx_lib_def option.map_ident inputs_of_def elim: payments_only.cases)
  show "sweep_laws demo_tx_lib demo_sweep_lib (\<lambda>e. e) outputs_of outputs_of (\<lambda>t. (inputs_of t, 0)) (\<lambda>i. hd (inputs_of i))"
    by (auto simp: sweep_laws_def demo_tx_lib_def demo_sweep_lib_def outputs_of_def inputs_of_def comp_def split: if_splits)
qed

definition demo_utxos :: "utxo list" where
  "demo_utxos = [\<lparr> ut_txid = zeros 32, ut_index = 0, ut_value = 60000, ut_height = 5, ut_script = p2pkh_script (replicate 20 7) \<rparr>,
     \<lparr> ut_txid = zeros 32, ut_index = 1, ut_value = 50000, ut_height = 6, ut_script = p2pkh_script (replicate 20 7) \<rparr>]"

definition demo_receiver :: "demo_object receiver" where
  "demo_receiver = \<lparr> rc_secret = Atom 7, rc_address = PublicKeyHash (replicate 20 7) \<rparr>"

definition demo_sealed :: "nat sealed" where
  "demo_sealed = \<lparr> sd_txid = zeros 32, sd_bytes = [8], sd_spent = [] \<rparr>"

lemma demo_shield:
  "shield demo_tx_lib demo_sweep_lib [demo_receiver] demo_utxos (Atom 5) (Atom 1) (Atom 2) None (Atom 3)
     \<lparr> en_branch = Atom 6, en_expiry = 40 \<rparr> 0 = (Ok demo_sealed, 3)"
proof -
  have pays: "script_pays (p2pkh_script (replicate 20 7)) (PublicKeyHash (replicate 20 7))" by (simp add: script_pays_iff)
  have len: "length (p2pkh_script (replicate 20 7)) \<le> 252" by (simp add: p2pkh_script_def)
  have i: "sweep_inputs demo_tx_lib demo_sweep_lib [demo_receiver] demo_utxos (Atom 0) (Inputs [])
      = Ok (Atom 0, Inputs [(zeros 32, 0), (zeros 32, 1)])"
    using pays len by (simp add: demo_utxos_def demo_receiver_def demo_sweep_lib_def demo_tx_lib_def build_err_def inputs_of_def)
  have n: "demo_utxos \<noteq> []" "sw_net (sweep_plan demo_utxos) = 90000"
    by (simp_all add: sweep_plan_def demo_utxos_def sum_words_eq saturating_sub_def)
  show ?thesis unfolding shield_def Let_def if_not_P [OF n(1)] n(2)
    using i by (simp add: demo_tx_lib_def demo_sweep_lib_def build_err_def envelope_err_def inputs_of_def
        sweep_seal_def Let_def demo_sealed_def)
qed

lemma sweep_lands_in_one_shielded_output_witness:
  "shield demo_tx_lib demo_sweep_lib [demo_receiver] demo_utxos (Atom 5) (Atom 1) (Atom 2) None (Atom 3)
     \<lparr> en_branch = Atom 6, en_expiry = 40 \<rparr> 0 = (Ok demo_sealed, 3)
   \<and> (\<exists>tx a. pl_freeze demo_tx_lib tx = Ok (Atom 8) \<and> tx_orchard tx = Some a \<and> outputs_of a = [(Atom 5, 90000)])"
proof -
  have b: "utxo_total demo_utxos < 2 ^ 64" "length demo_utxos < 2 ^ 32" by (simp_all add: utxo_total_def demo_utxos_def)
  from sweep_lands_in_one_shielded_output [OF demo_sweep_laws b demo_shield] obtain unsigned tx frozen signed a net where
    tx: "tx = unsigned \<lparr> tx_transparent := Some signed, tx_orchard := Some a \<rparr>" "pl_freeze demo_tx_lib tx = Ok frozen"
    and out: "outputs_of a = [(Atom 5, net)]" "unat net + unat (zip317_fee 2 (length demo_utxos)) = utxo_total demo_utxos"
    by blast
  from out(2) have "unat net = unat (90000 :: u64)" by (simp add: zip317_fee_def demo_utxos_def utxo_total_def)
  then have "net = 90000" by (rule word_unat_eq_iff [THEN iffD2])
  moreover have "pl_freeze demo_tx_lib tx = Ok (Atom 8)" by (simp add: demo_tx_lib_def)
  moreover have "tx_orchard tx = Some a" using tx(1) by simp
  ultimately show ?thesis using out(1) demo_shield by blast
qed

lemma sweep_refused_witness:
  "\<exists>m. shield demo_tx_lib demo_sweep_lib [demo_receiver] [(hd demo_utxos) \<lparr> ut_value := 15000 \<rparr>] (Atom 5) (Atom 1) (Atom 2) None (Atom 3)
     \<lparr> en_branch = Atom 6, en_expiry = 40 \<rparr> 0 = ((Err (BuildError m), 0) :: (payout_error + nat sealed) \<times> nat)"
proof -
  let ?us = "[(hd demo_utxos) \<lparr> ut_value := 15000 \<rparr>]"
  have b: "utxo_total ?us < 2 ^ 64" "length ?us < 2 ^ 32" "utxo_total ?us \<le> 5000 * (length ?us + 2)"
    by (simp_all add: utxo_total_def demo_utxos_def)
  show ?thesis
    by (rule sweep_refused [OF b(1,2), THEN conjunct1, THEN mp, OF disjI2 [OF b(3)]])
qed

text \<open>
  An address the wallet hands out is one a payout can name. Whatever receiver was derived, the text of
  its address on a network is read back by \<open>transparent_address\<close> as that address on that network and
  refused on the other; the prefix tables of the writer and of the reader agree.
\<close>

theorem receiver_address_reads_back:
  assumes "\<forall>b. length (sha256 b) = 32" "receiver_derive W params seed account index = Some r"
    and "length (address_hash (rc_address r)) = 20"
  shows "transparent_address sha256 (receiver_encoded sha256 r (network_type_of network)) network' =
    (if network' = network then Some (rc_address r) else None)"
proof -
  have "transparent_address sha256 (receiver_encoded sha256 r (network_type_of network)) network = Some (rc_address r)"
    by (rule transparent_address_of_text [OF assms(1)])
      (simp add: receiver_encoded_def encode_transparent_text assms(3))
  then show ?thesis
    using transparent_address_one_network [of sha256 "receiver_encoded sha256 r (network_type_of network)"]
    by (cases network; cases network') auto
qed

lemma receiver_address_reads_back_witness:
  "transparent_address (\<lambda>_. zeros 32)
     (receiver_encoded (\<lambda>_. zeros 32) \<lparr> rc_secret = Atom 4, rc_address = PublicKeyHash (replicate 20 4) \<rparr> TestType) TestNetwork
   = Some (PublicKeyHash (replicate 20 4))"
proof -
  have d: "receiver_derive demo_sweep_lib (Atom 0) (zeros 32) 0 4
      = Some \<lparr> rc_secret = Atom 4, rc_address = PublicKeyHash (replicate 20 4) \<rparr>"
    by (simp add: receiver_derive_def demo_sweep_lib_def)
  from receiver_address_reads_back [OF _ d, of "\<lambda>_. zeros 32" TestNetwork TestNetwork] show ?thesis
    by (simp add: network_type_of_def address_hash_def)
qed

end
