(* ===== verification/Completion.thy ===== *)
theory Completion
  imports Authorise
begin

text \<open>
  The other half of authorising a payout: with share-holders that follow the protocol, \<open>sign_all\<close> does
  sign. The two rounds of the quorum in the process are computed for honest holders, and what is asked of
  FROST is its correctness: commitments and shares of a threshold of holders, over one package, make a
  signature that an action with the randomized key accepts.
\<close>

section \<open>The rounds of honest holders\<close>

definition holder_id :: "('id, 'x, 'r) suite \<Rightarrow> 'x threshold_keys \<Rightarrow> 'id" where
  "holder_id S k = fr_key_id S (tk_key_package k)"

definition session_for :: "('id, 'x, 'r) suite \<Rightarrow> 'x threshold_keys \<Rightarrow> ('id, 'x) session \<Rightarrow> bool" where
  "session_for S k s \<longleftrightarrow> (\<exists>r r'. fr_commit S (tk_key_package k) r = ((se_nonces s, se_commitments s), r'))"

definition sessions_for :: "('id, 'x, 'r) suite \<Rightarrow> nat \<Rightarrow> 'x threshold_keys \<Rightarrow> ('id, 'x) session list \<Rightarrow> bool" where
  "sessions_for S n k ss \<longleftrightarrow> length ss = n \<and> (\<forall>s \<in> set ss. session_for S k s)"

definition opened ::
  "u64 \<Rightarrow> bytes \<Rightarrow> 'x list \<Rightarrow> u64 \<Rightarrow> 'x threshold_keys \<Rightarrow> ('id, 'x) session list \<Rightarrow> ('id, 'x) participant" where
  "opened request sighash alphas now k ss = \<lparr> pa_keys = k, pa_live = bm_insert request
     \<lparr> lv_sighash = sighash, lv_alphas = alphas, lv_sessions = map Some ss, lv_opened_at = now \<rparr> bm_empty \<rparr>"

lemma begin_sessions_for: "begin_sessions S pid k as rng = (ss, rng') \<Longrightarrow> sessions_for S (length as) k ss"
proof (induction "as" arbitrary: rng ss)
  case (Cons a "as")
  obtain nonces c rng1 where c: "fr_commit S (tk_key_package k) rng = ((nonces, c), rng1)" by (metis prod.exhaust)
  then obtain ss' where "begin_sessions S pid k as rng1 = (ss', rng')"
    "ss = \<lparr> se_id = pid, se_nonces = nonces, se_commitments = c \<rparr> # ss'"
    using Cons.prems by (auto simp: session_begin_def split: prod.splits)
  with Cons.IH c show ?case by (auto simp: sessions_for_def session_for_def)
qed (simp add: sessions_for_def)

lemma fresh_round1:
  "\<exists>ss rng'. sessions_for S (length alphas) k ss \<and>
    round1 S request sighash alphas now (participant_new k) rng
      = (opened request sighash alphas now k ss, rng', Ok (map se_commitments ss))"
proof -
  obtain ss rng' where b: "begin_sessions S (holder_id S k) k alphas rng = (ss, rng')" by fastforce
  have "round1 S request sighash alphas now (participant_new k) rng
      = (opened request sighash alphas now k ss, rng', Ok (map se_commitments ss))"
    using b by (simp add: round1_def participant_new_def drop_expired_def bm_retain_def bm_empty_def participant_id_def
        holder_id_def opened_def bm_contains_def Let_def)
  with begin_sessions_for [OF b] show ?thesis by blast
qed

lemma opened_id [simp]: "participant_id S (opened request sighash alphas now k ss) = holder_id S k"
  by (simp add: participant_id_def opened_def holder_id_def)

lemma honest_round1:
  "distinct (map (holder_id S) ks) \<Longrightarrow> \<exists>ss rng'. (\<forall>k \<in> set ks. sessions_for S (length alphas) k (ss (holder_id S k))) \<and>
    local_round1 S request sighash alphas now (map participant_new ks) rng out
      = (map (\<lambda>k. opened request sighash alphas now k (ss (holder_id S k))) ks, rng',
         bm_fill (\<lambda>i. map se_commitments (ss i)) (map (holder_id S) ks) out)"
proof (induction ks arbitrary: rng out)
  case (Cons k ks)
  obtain s1 rng1 where s1: "sessions_for S (length alphas) k s1" and
    r: "round1 S request sighash alphas now (participant_new k) rng
      = (opened request sighash alphas now k s1, rng1, Ok (map se_commitments s1))" using fresh_round1 [where S = S and alphas = alphas and k = k and request = request and sighash = sighash and now = now and rng = rng] by blast
  have new: "holder_id S k \<notin> set (map (holder_id S) ks)" and d: "distinct (map (holder_id S) ks)" using Cons.prems by auto
  let ?out = "bm_insert (holder_id S k) (map se_commitments s1) out"
  from Cons.IH [OF d, of rng1 ?out] obtain ss rng' where ss: "\<forall>k \<in> set ks. sessions_for S (length alphas) k (ss (holder_id S k))"
    and l: "local_round1 S request sighash alphas now (map participant_new ks) rng1 ?out
      = (map (\<lambda>k. opened request sighash alphas now k (ss (holder_id S k))) ks, rng',
         bm_fill (\<lambda>i. map se_commitments (ss i)) (map (holder_id S) ks) ?out)" by blast
  let ?ss = "ss (holder_id S k := s1)"
  have other: "?ss (holder_id S k') = ss (holder_id S k')" if "k' \<in> set ks" for k'
    using new that by (metis fun_upd_other image_eqI set_map)
  have fill: "bm_fill (\<lambda>i. map se_commitments (?ss i)) (map (holder_id S) ks) m
      = bm_fill (\<lambda>i. map se_commitments (ss i)) (map (holder_id S) ks) m" for m :: "('a, 'b list) bmap"
    using new by (intro bm_fill_cong) (metis fun_upd_other)
  have "local_round1 S request sighash alphas now (map participant_new (k # ks)) rng out
      = (map (\<lambda>k. opened request sighash alphas now k (?ss (holder_id S k))) (k # ks), rng',
         bm_fill (\<lambda>i. map se_commitments (?ss i)) (map (holder_id S) (k # ks)) out)"
    using l r other fill by (auto simp del: fun_upd_apply simp add: fun_upd_same)
  moreover have "\<forall>k' \<in> set (k # ks). sessions_for S (length alphas) k' (?ss (holder_id S k'))"
    using s1 ss other by simp
  ultimately show ?case by blast
qed simp

definition share_list :: "('id, 'x, 'r) suite \<Rightarrow> 'x threshold_keys \<Rightarrow> 'x list \<Rightarrow> ('id, 'x) session list \<Rightarrow> 'x list \<Rightarrow> 'x list" where
  "share_list S k packages ss alphas =
    map (\<lambda>(p, s, a). the (fr_sign_rand S p (se_nonces s) (tk_key_package k) a)) (zip packages (zip ss alphas))"

lemma sign_packages_shares:
  "length ss = length alphas \<Longrightarrow>
    \<forall>e \<in> set (zip packages (zip ss alphas)). fr_sign_rand S (fst e) (se_nonces (fst (snd e))) (tk_key_package k) (snd (snd e)) \<noteq> None \<Longrightarrow>
    sign_packages S k (zip packages (zip (map Some ss) alphas)) = Ok (share_list S k packages ss alphas)"
proof (induction ss alphas arbitrary: packages rule: list_induct2)
  case (Cons s ss a as)
  then show ?case
    by (cases packages) (auto simp: share_list_def sign_share_def from_signing_def)
qed (simp add: share_list_def)

lemma opened_round2:
  assumes "length packages = length alphas" "length ss = length alphas"
    and "\<forall>p \<in> set packages. fr_message S p = sighash"
    and "\<forall>e \<in> set (zip packages (zip ss alphas)). fr_sign_rand S (fst e) (se_nonces (fst (snd e))) (tk_key_package k) (snd (snd e)) \<noteq> None"
  shows "round2 S request packages (opened request sighash alphas now k ss)
    = (\<lparr> pa_keys = k, pa_live = bm_empty \<rparr>, Ok (share_list S k packages ss alphas))"
proof -
  have m: "\<not> list_ex (\<lambda>p. fr_message S p \<noteq> sighash) packages" using assms(3) by (auto simp: list_ex_iff)
  show ?thesis
    using sign_packages_shares [OF assms(2,4)] assms(1,2) m
    by (simp add: round2_def opened_def bm_remove_def bm_empty_def bm_get_Cons)
qed

lemma honest_round2:
  assumes "\<And>k. k \<in> set ks \<Longrightarrow> holder_id S k \<in> set chosen \<Longrightarrow> \<exists>p'. round2 S request packages (P k) = (p', Ok (sh (holder_id S k)))"
    and "\<And>k. k \<in> set ks \<Longrightarrow> participant_id S (P k) = holder_id S k"
  shows "\<exists>ps'. local_round2 S request chosen packages (map P ks) out
    = (ps', bm_fill sh (filter (\<lambda>i. i \<in> set chosen) (map (holder_id S) ks)) out)"
  using assms
proof (induction ks arbitrary: out)
  case (Cons k ks)
  from Cons.IH Cons.prems have ih: "\<exists>ps'. local_round2 S request chosen packages (map P ks) out
    = (ps', bm_fill sh (filter (\<lambda>i. i \<in> set chosen) (map (holder_id S) ks)) out)" for out by simp
  have pid: "participant_id S (P k) = holder_id S k" using Cons.prems(2) by simp
  show ?case
  proof (cases "holder_id S k \<in> set chosen")
    case True
    then obtain p' where r: "round2 S request packages (P k) = (p', Ok (sh (holder_id S k)))" using Cons.prems(1) by auto
    have "participant_id S p' = holder_id S k" using round2_id [OF r] pid by simp
    with ih [of "bm_insert (holder_id S k) (sh (holder_id S k)) out"] r pid True show ?thesis by auto
  next
    case False
    with ih [of out] pid show ?thesis by auto
  qed
qed simp

lemma bm_keys_fill: "set (bm_keys (bm_fill f ks bm_empty)) = set ks"
proof -
  have "pid \<in> set (bm_keys (bm_fill f ks bm_empty)) \<longleftrightarrow> pid \<in> set ks" for pid
    unfolding bm_contains_iff [symmetric] by (simp add: bm_contains_def)
  then show ?thesis by blast
qed

lemma action_packages_length: "action_packages S sighash m chosen is = Some ps \<Longrightarrow> length ps = length is"
  by (induction "is" arbitrary: ps) (auto split: bind_splits)

lemma gather_fill:
  "\<forall>pid \<in> set ids. \<exists>xs. bm_get m pid = Some xs \<and> i < length xs \<Longrightarrow>
    gather m i ids acc = Some (bm_fill (\<lambda>pid. the (bm_get m pid) ! i) ids acc)"
  by (induction ids arbitrary: acc) auto

lemma action_packages_fill:
  assumes "\<forall>i \<in> set is. \<forall>pid \<in> set chosen. \<exists>xs. bm_get m pid = Some xs \<and> i < length xs"
  shows "action_packages S sighash m chosen is
    = Some (map (\<lambda>i. fr_package S (bm_fill (\<lambda>pid. the (bm_get m pid) ! i) chosen bm_empty) sighash) is)"
  using assms by (induction "is") (auto simp: gather_fill)

section \<open>The correctness of the signature scheme\<close>

text \<open>
  What FROST and the transaction library promise to a vault whose holders have the keys \<open>ks\<close>. A package
  carries its message. A holder whose commitment is in a package of at least \<open>t\<close> can sign it. When every
  one of at least \<open>t\<close> holders has signed one package with the nonces it committed to, their shares
  aggregate to a signature of 64 bytes under the randomizer, which any action with that randomizer and the
  key randomized by it accepts.
\<close>

definition honest_share ::
  "('id, 'x, 'r) suite \<Rightarrow> 'x threshold_keys list \<Rightarrow> ('id, 'x) bmap \<Rightarrow> bytes \<Rightarrow> 'x \<Rightarrow> ('id, 'x) bmap \<Rightarrow> 'id \<Rightarrow> bool" where
  "honest_share S ks commitments m alpha shares i \<longleftrightarrow>
    (\<exists>k \<in> set ks. \<exists>s. holder_id S k = i \<and> session_for S k s \<and> bm_get commitments i = Some (se_commitments s) \<and>
      bm_get shares i = fr_sign_rand S (fr_package S commitments m) (se_nonces s) (tk_key_package k) alpha)"

definition frost_correct ::
  "('id::linorder, 'x, 's) suite \<Rightarrow> ('n, 'x, 'y, 'r) payout_lib \<Rightarrow> 'x threshold_keys list \<Rightarrow> 'x \<Rightarrow> 'x \<Rightarrow> nat \<Rightarrow> bool" where
  "frost_correct S L ks gk public t \<longleftrightarrow>
    (\<forall>commitments m. fr_message S (fr_package S commitments m) = m) \<and>
    (\<forall>k \<in> set ks. \<forall>s commitments m alpha. session_for S k s \<and> t \<le> length commitments \<and>
      bm_get commitments (holder_id S k) = Some (se_commitments s) \<longrightarrow>
      fr_sign_rand S (fr_package S commitments m) (se_nonces s) (tk_key_package k) alpha \<noteq> None) \<and>
    (\<forall>commitments shares m alpha. bm_ok commitments \<and> bm_ok shares \<and> t \<le> length commitments \<and>
      bm_keys shares = bm_keys commitments \<and>
      (\<forall>i \<in> set (bm_keys commitments). honest_share S ks commitments m alpha shares i) \<longrightarrow>
      (\<exists>sig b. fr_aggregate_rand S (fr_package S commitments m) shares public (fr_params S gk alpha) = Some sig \<and>
        fr_ser_signature S sig = Some b \<and> is_array 64 b \<and>
        (\<forall>act. pl_alpha L act = Some alpha \<and>
          fr_ser_key S (pl_randomized_key L (fr_params S gk alpha)) = Some (pl_rk L act) \<longrightarrow>
          pl_apply_signature L m b act \<noteq> None)))"

lemma frost_correctD:
  assumes "frost_correct S L ks gk public t"
  shows "fr_message S (fr_package S commitments m) = m"
    "k \<in> set ks \<Longrightarrow> session_for S k s \<Longrightarrow> t \<le> length commitments \<Longrightarrow>
      bm_get commitments (holder_id S k) = Some (se_commitments s) \<Longrightarrow>
      fr_sign_rand S (fr_package S commitments m) (se_nonces s) (tk_key_package k) alpha \<noteq> None"
    "bm_ok commitments \<Longrightarrow> bm_ok shares \<Longrightarrow> t \<le> length commitments \<Longrightarrow> bm_keys shares = bm_keys commitments \<Longrightarrow>
      \<forall>i \<in> set (bm_keys commitments). honest_share S ks commitments m alpha shares i \<Longrightarrow>
      \<exists>sig b. fr_aggregate_rand S (fr_package S commitments m) shares public (fr_params S gk alpha) = Some sig \<and>
        fr_ser_signature S sig = Some b \<and> is_array 64 b \<and>
        (\<forall>act. pl_alpha L act = Some alpha \<and>
          fr_ser_key S (pl_randomized_key L (fr_params S gk alpha)) = Some (pl_rk L act) \<longrightarrow>
          pl_apply_signature L m b act \<noteq> None)"
  using assms unfolding frost_correct_def by blast+

lemma needs_signature_of:
  assumes "n \<in> set (needs_signatures S L gk p)"
  shows "ng_index n < length (pz_actions (po_bundle p)) \<and>
    pl_alpha L (pz_actions (po_bundle p) ! ng_index n) = Some (ng_alpha n) \<and>
    fr_ser_key S (pl_randomized_key L (fr_params S gk (ng_alpha n))) = Some (pl_rk L (pz_actions (po_bundle p) ! ng_index n))"
proof -
  from assms obtain i act where a: "(i, act) \<in> set (enumerate 0 (pz_actions (po_bundle p)))" "needs_signature S L gk i act = Some n"
    unfolding needs_signatures_def by (auto simp: List.map_filter_def)
  then have "i < length (pz_actions (po_bundle p))" "act = pz_actions (po_bundle p) ! i" by (auto simp: in_set_enumerate_eq)
  with a(2) show ?thesis by (auto simp: needs_signature_def split: bind_splits if_splits)
qed

text \<open>The signing loop gets through when each entry has a signature its action accepts.\<close>

definition entry_signs ::
  "('id::linorder, 'x, 's) suite \<Rightarrow> ('n, 'x, 'y, 'r) payout_lib \<Rightarrow> 'x \<Rightarrow> 'x \<Rightarrow> bytes \<Rightarrow> ('id, 'x list) bmap \<Rightarrow> 'id list
    \<Rightarrow> 'y list \<Rightarrow> nat \<times> 'x needs_signature \<times> 'x \<Rightarrow> bool" where
  "entry_signs S L gk public sighash r2 chosen acts e \<longleftrightarrow>
    (\<exists>shares sig b act'. gather r2 (fst e) chosen bm_empty = Some shares \<and>
      aggregate_rand S (snd (snd e)) shares public (params_for S gk (ng_alpha (fst (snd e)))) = Ok sig \<and>
      to_spend_auth S sig = Ok b \<and> ng_index (fst (snd e)) < length acts \<and>
      pl_apply_signature L sighash b (acts ! ng_index (fst (snd e))) = Some act')"

lemma sign_needed_completes:
  "\<forall>e \<in> set es. entry_signs S L gk public sighash r2 chosen (pz_actions (po_bundle p)) e \<Longrightarrow>
    distinct (map (\<lambda>e. ng_index (fst (snd e))) es) \<Longrightarrow>
    \<exists>p'. sign_needed S L gk public sighash r2 chosen es p = (p', Ok ())"
proof (induction es arbitrary: p)
  case (Cons e es)
  obtain i n package where e: "e = (i, n, package)" by (cases e)
  let ?acts = "pz_actions (po_bundle p)"
  obtain shares sig b act' where s: "gather r2 i chosen bm_empty = Some shares"
    "aggregate_rand S package shares public (params_for S gk (ng_alpha n)) = Ok sig" "to_spend_auth S sig = Ok b"
    "ng_index n < length ?acts" "pl_apply_signature L sighash b (?acts ! ng_index n) = Some act'"
    using Cons.prems(1) by (auto simp: e entry_signs_def)
  let ?p1 = "with_actions (?acts [ng_index n := act']) p"
  have "entry_signs S L gk public sighash r2 chosen (pz_actions (po_bundle ?p1)) e'" if "e' \<in> set es" for e'
  proof -
    have "ng_index (fst (snd e')) \<noteq> ng_index n" using Cons.prems(2) that by (force simp: e)
    moreover have "entry_signs S L gk public sighash r2 chosen ?acts e'" using Cons.prems(1) that by simp
    ultimately show ?thesis unfolding entry_signs_def by (simp add: nth_list_update_neq)
  qed
  with Cons.IH [of ?p1] Cons.prems(2) have "\<exists>p'. sign_needed S L gk public sighash r2 chosen es ?p1 = (p', Ok ())" by simp
  with s show ?case by (simp add: e apply_signature_def Let_def)
qed simp

section \<open>An honest run\<close>

text \<open>The commitments to the \<open>i\<close>-th action of the chosen, the packages over them, and what a holder answers.\<close>

definition commitments_at :: "('id::linorder \<Rightarrow> ('id, 'x) session list) \<Rightarrow> 'id list \<Rightarrow> nat \<Rightarrow> ('id, 'x) bmap" where
  "commitments_at ss chosen i = bm_fill (\<lambda>pid. se_commitments (ss pid ! i)) chosen bm_empty"

definition honest_packages ::
  "('id::linorder, 'x, 'r) suite \<Rightarrow> bytes \<Rightarrow> ('id \<Rightarrow> ('id, 'x) session list) \<Rightarrow> 'id list \<Rightarrow> nat \<Rightarrow> 'x list" where
  "honest_packages S sighash ss chosen n = map (\<lambda>i. fr_package S (commitments_at ss chosen i) sighash) [0..<n]"

definition honest_shares ::
  "('id, 'x, 'r) suite \<Rightarrow> 'x threshold_keys list \<Rightarrow> 'x list \<Rightarrow> ('id \<Rightarrow> ('id, 'x) session list) \<Rightarrow> 'x list \<Rightarrow> 'id \<Rightarrow> 'x list" where
  "honest_shares S ks packages ss alphas pid =
    share_list S (inv_into (set ks) (holder_id S) pid) packages (ss pid) alphas"

lemma commitments_at_facts:
  "bm_ok (commitments_at ss chosen i)"
  "pid \<in> set chosen \<Longrightarrow> bm_get (commitments_at ss chosen i) pid = Some (se_commitments (ss pid ! i))"
  "distinct chosen \<Longrightarrow> length (commitments_at ss chosen i) = length chosen"
  "set (bm_keys (commitments_at ss chosen i)) = set chosen"
  by (simp_all add: commitments_at_def length_bm_fill bm_keys_fill)

text \<open>Holders, the sessions they opened, and a threshold of them.\<close>

definition honest_run ::
  "('id::linorder, 'x, 's) suite \<Rightarrow> ('n, 'x, 'y, 'r) payout_lib \<Rightarrow> 'x threshold_keys list \<Rightarrow> 'x \<Rightarrow> 'x \<Rightarrow> nat
    \<Rightarrow> ('id \<Rightarrow> ('id, 'x) session list) \<Rightarrow> 'id list \<Rightarrow> nat \<Rightarrow> bool" where
  "honest_run S L ks gk public t ss chosen n \<longleftrightarrow>
    frost_correct S L ks gk public t \<and> distinct (map (holder_id S) ks) \<and>
    (\<forall>k \<in> set ks. sessions_for S n k (ss (holder_id S k))) \<and>
    distinct chosen \<and> length chosen = t \<and> set chosen \<subseteq> holder_id S ` set ks"

lemma honest_runD:
  assumes "honest_run S L ks gk public t ss chosen n"
  shows "frost_correct S L ks gk public t" "distinct (map (holder_id S) ks)" "distinct chosen" "length chosen = t"
    and "pid \<in> set chosen \<Longrightarrow> pid \<in> holder_id S ` set ks"
    and "k \<in> set ks \<Longrightarrow> length (ss (holder_id S k)) = n"
    and "k \<in> set ks \<Longrightarrow> i < n \<Longrightarrow> session_for S k (ss (holder_id S k) ! i)"
    and "k \<in> set ks \<Longrightarrow> inv_into (set ks) (holder_id S) (holder_id S k) = k"
  using assms unfolding honest_run_def by (auto simp: sessions_for_def distinct_map inv_into_f_f)

lemma honest_signs:
  assumes "honest_run S L ks gk public t ss chosen n" "k \<in> set ks" "holder_id S k \<in> set chosen" "i < n"
  shows "fr_sign_rand S (honest_packages S sighash ss chosen n ! i) (se_nonces (ss (holder_id S k) ! i)) (tk_key_package k) alpha \<noteq> None"
proof -
  have "t \<le> length (commitments_at ss chosen i)"
    using commitments_at_facts(3) [OF honest_runD(3) [OF assms(1)], of ss i] honest_runD(4) [OF assms(1)] by simp
  from frost_correctD(2) [OF honest_runD(1) [OF assms(1)] assms(2) honest_runD(7) [OF assms(1,2,4)] this
      commitments_at_facts(2) [OF assms(3)]] assms(4)
  show ?thesis by (simp add: honest_packages_def)
qed

lemma honest_answers:
  assumes run: "honest_run S L ks gk public t ss chosen n" and n: "length alphas = n"
  shows "\<exists>ps'. local_round2 S request chosen (honest_packages S sighash ss chosen n)
      (map (\<lambda>k. opened request sighash alphas now k (ss (holder_id S k))) ks) bm_empty
    = (ps', bm_fill (honest_shares S ks (honest_packages S sighash ss chosen n) ss alphas) chosen bm_empty)"
proof -
  let ?packages = "honest_packages S sighash ss chosen n"
  let ?sh = "honest_shares S ks ?packages ss alphas"
  have len: "length ?packages = length alphas" using n by (simp add: honest_packages_def)
  have msg: "\<forall>p \<in> set ?packages. fr_message S p = sighash"
    using frost_correctD(1) [OF honest_runD(1) [OF run]] by (auto simp: honest_packages_def)
  have one: "\<exists>p'. round2 S request ?packages (opened request sighash alphas now k (ss (holder_id S k))) = (p', Ok (?sh (holder_id S k)))"
    if k: "k \<in> set ks" "holder_id S k \<in> set chosen" for k
  proof -
    have s: "length (ss (holder_id S k)) = length alphas" using honest_runD(6) [OF run k(1)] n by simp
    have "\<forall>e \<in> set (zip ?packages (zip (ss (holder_id S k)) alphas)).
        fr_sign_rand S (fst e) (se_nonces (fst (snd e))) (tk_key_package k) (snd (snd e)) \<noteq> None"
    proof
      fix e assume "e \<in> set (zip ?packages (zip (ss (holder_id S k)) alphas))"
      then obtain i where "i < n" "e = (?packages ! i, ss (holder_id S k) ! i, alphas ! i)"
        using len s n by (auto simp: set_zip)
      with honest_signs [OF run k(1,2), of i sighash "alphas ! i"]
      show "fr_sign_rand S (fst e) (se_nonces (fst (snd e))) (tk_key_package k) (snd (snd e)) \<noteq> None" by simp
    qed
    from opened_round2 [OF len s msg this] show ?thesis
      by (auto simp: honest_shares_def honest_runD(8) [OF run k(1)])
  qed
  let ?out = "bm_fill ?sh (filter (\<lambda>i. i \<in> set chosen) (map (holder_id S) ks)) bm_empty"
  have "bm_get ?out pid = bm_get (bm_fill ?sh chosen bm_empty) pid" for pid
    using honest_runD(5) [OF run, of pid] by auto
  then have "?out = bm_fill ?sh chosen bm_empty" by (intro bm_ext) simp_all
  with honest_round2 [of ks S chosen request ?packages "\<lambda>k. opened request sighash alphas now k (ss (holder_id S k))" ?sh bm_empty] one
  show ?thesis by auto
qed

lemma honest_share_nth:
  assumes run: "honest_run S L ks gk public t ss chosen n" and n: "length alphas = n" "i < n" and k: "k \<in> set ks" "holder_id S k \<in> set chosen"
  shows "length (honest_shares S ks (honest_packages S sighash ss chosen n) ss alphas (holder_id S k)) = n \<and>
    fr_sign_rand S (fr_package S (commitments_at ss chosen i) sighash) (se_nonces (ss (holder_id S k) ! i)) (tk_key_package k) (alphas ! i)
      = Some (honest_shares S ks (honest_packages S sighash ss chosen n) ss alphas (holder_id S k) ! i)"
proof -
  have l: "length (ss (holder_id S k)) = n" "length (honest_packages S sighash ss chosen n) = n"
    using honest_runD(6) [OF run k(1)] by (simp_all add: honest_packages_def)
  have "honest_shares S ks (honest_packages S sighash ss chosen n) ss alphas (holder_id S k)
      = share_list S k (honest_packages S sighash ss chosen n) (ss (holder_id S k)) alphas"
    by (simp add: honest_shares_def honest_runD(8) [OF run k(1)])
  with l n honest_signs [OF run k n(2), of sighash "alphas ! i"] show ?thesis
    by (auto simp: share_list_def honest_packages_def)
qed

lemma honest_entry:
  assumes run: "honest_run S L ks gk public t ss chosen (length alphas)" and i: "i < length alphas"
    and index: "ng_index n < length acts" and alpha: "ng_alpha n = alphas ! i" "pl_alpha L (acts ! ng_index n) = Some (alphas ! i)"
    and rk: "fr_ser_key S (pl_randomized_key L (fr_params S gk (alphas ! i))) = Some (pl_rk L (acts ! ng_index n))"
  shows "entry_signs S L gk public sighash
    (bm_fill (honest_shares S ks (honest_packages S sighash ss chosen (length alphas)) ss alphas) chosen bm_empty) chosen acts
    (i, n, honest_packages S sighash ss chosen (length alphas) ! i)"
proof -
  let ?sh = "honest_shares S ks (honest_packages S sighash ss chosen (length alphas)) ss alphas"
  let ?com = "commitments_at ss chosen i"
  let ?shares = "bm_fill (\<lambda>pid. ?sh pid ! i) chosen bm_empty"
  have key: "\<exists>k \<in> set ks. holder_id S k = pid" if "pid \<in> set chosen" for pid
    using honest_runD(5) [OF run that] by auto
  have g: "gather (bm_fill ?sh chosen bm_empty) i chosen bm_empty = Some ?shares"
  proof -
    have "\<forall>pid \<in> set chosen. i < length (?sh pid)" using key honest_share_nth [OF run HOL.refl i] i by metis
    then have "gather (bm_fill ?sh chosen bm_empty) i chosen bm_empty
        = Some (bm_fill (\<lambda>pid. the (bm_get (bm_fill ?sh chosen bm_empty) pid) ! i) chosen bm_empty)"
      by (intro gather_fill) simp
    also have "bm_fill (\<lambda>pid. the (bm_get (bm_fill ?sh chosen bm_empty) pid) ! i) chosen bm_empty = ?shares"
      by (intro bm_fill_cong) simp
    finally show ?thesis .
  qed
  have keys: "bm_keys ?shares = bm_keys ?com"
    by (rule bm_keys_eq) (simp_all add: commitments_at_facts bm_keys_fill)
  have "honest_share S ks ?com sighash (alphas ! i) ?shares pid" if pid: "pid \<in> set (bm_keys ?com)" for pid
  proof -
    have c: "pid \<in> set chosen" using pid by (simp add: commitments_at_facts)
    with key obtain k where k: "k \<in> set ks" "holder_id S k = pid" by blast
    have "session_for S k (ss pid ! i)" using honest_runD(7) [OF run k(1) i] k(2) by simp
    moreover have "bm_get ?shares pid = fr_sign_rand S (fr_package S ?com sighash) (se_nonces (ss pid ! i)) (tk_key_package k) (alphas ! i)"
      using honest_share_nth [OF run HOL.refl i k(1), of sighash] k(2) c by simp
    ultimately show ?thesis using k commitments_at_facts(2) [OF c, of ss i] unfolding honest_share_def by blast
  qed
  then have shares: "\<forall>pid \<in> set (bm_keys ?com). honest_share S ks ?com sighash (alphas ! i) ?shares pid" by blast
  have t: "t \<le> length ?com"
    using commitments_at_facts(3) [OF honest_runD(3) [OF run], of ss i] honest_runD(4) [OF run] by simp
  have ok: "bm_ok ?shares" by simp
  from frost_correctD(3) [OF honest_runD(1) [OF run] commitments_at_facts(1) ok t keys shares] obtain sig b where
    sig: "fr_aggregate_rand S (fr_package S ?com sighash) ?shares public (fr_params S gk (alphas ! i)) = Some sig"
      "fr_ser_signature S sig = Some b" "is_array 64 b" "pl_apply_signature L sighash b (acts ! ng_index n) \<noteq> None"
    using alpha(2) rk by blast
  then obtain act' where "pl_apply_signature L sighash b (acts ! ng_index n) = Some act'" by blast
  with g sig index i show ?thesis
    by (auto simp: entry_signs_def honest_packages_def aggregate_rand_def to_spend_auth_def params_for_def alpha(1))
qed

lemma packages_gathered:
  assumes run: "honest_run S L ks gk public t ss chosen n"
    and r1: "\<And>pid. pid \<in> set chosen \<Longrightarrow> bm_get r1 pid = Some (map se_commitments (ss pid))"
  shows "action_packages S sighash r1 chosen [0..<n] = Some (honest_packages S sighash ss chosen n)"
proof -
  have len: "length (ss pid) = n" if "pid \<in> set chosen" for pid
    using honest_runD(5) [OF run that] honest_runD(6) [OF run] by auto
  have com: "bm_fill (\<lambda>pid. the (bm_get r1 pid) ! i) chosen bm_empty = commitments_at ss chosen i" if "i < n" for i
    unfolding commitments_at_def using that len r1 by (intro bm_fill_cong) simp
  have "\<forall>i \<in> set [0..<n]. \<forall>pid \<in> set chosen. \<exists>xs. bm_get r1 pid = Some xs \<and> i < length xs"
    using r1 len by auto
  from action_packages_fill [OF this, of S sighash] com show ?thesis by (simp add: honest_packages_def cong: map_cong)
qed

text \<open>The entries of the signing loop are the actions that need a signature, each with its package.\<close>

lemma honest_entries:
  assumes run: "honest_run S L ks gk public t ss chosen (length (needs_signatures S L gk p))"
    and alphas: "alphas = map ng_alpha (needs_signatures S L gk p)"
  shows "\<exists>p'. sign_needed S L gk public sighash
    (bm_fill (honest_shares S ks (honest_packages S sighash ss chosen (length alphas)) ss alphas) chosen bm_empty) chosen
    (zip [0..<length (needs_signatures S L gk p)]
      (zip (needs_signatures S L gk p) (honest_packages S sighash ss chosen (length alphas)))) p = (p', Ok ())"
proof (rule sign_needed_completes)
  let ?needed = "needs_signatures S L gk p"
  let ?packages = "honest_packages S sighash ss chosen (length alphas)"
  let ?es = "zip [0..<length ?needed] (zip ?needed ?packages)"
  have run': "honest_run S L ks gk public t ss chosen (length alphas)" using run by (simp add: alphas)
  show "\<forall>e \<in> set ?es. entry_signs S L gk public sighash (bm_fill (honest_shares S ks ?packages ss alphas) chosen bm_empty) chosen
      (pz_actions (po_bundle p)) e"
  proof
    fix e assume "e \<in> set ?es"
    then obtain i where i: "i < length alphas" "e = (i, ?needed ! i, ?packages ! i)"
      by (auto simp: set_zip honest_packages_def alphas)
    then have "?needed ! i \<in> set ?needed" by (simp add: alphas)
    from honest_entry [OF run' i(1), of "?needed ! i" "pz_actions (po_bundle p)" sighash] needs_signature_of [OF this] i
    show "entry_signs S L gk public sighash (bm_fill (honest_shares S ks ?packages ss alphas) chosen bm_empty) chosen
      (pz_actions (po_bundle p)) e"
      by (simp add: alphas)
  qed
  have "map (\<lambda>e. fst (snd e)) ?es = ?needed" by (rule map_zip_middle) (simp_all add: honest_packages_def alphas)
  then have "map ng_index (map (\<lambda>e. fst (snd e)) ?es) = map ng_index ?needed" by (rule arg_cong)
  then show "distinct (map (\<lambda>e. ng_index (fst (snd e))) ?es)" using needed_indices(1) by (simp add: comp_def)
qed

lemma honest_sign_all_with:
  assumes "frost_correct S L ks gk public (unat threshold)" "distinct (map (holder_id S) ks)" "unat threshold \<le> length ks"
  shows "\<exists>q' p'. sign_all_with S L (lq_round1 S) (lq_round2 S) request sighash threshold gk public now p
      (map participant_new ks, rng) = (q', p', Ok (length (needs_signatures S L gk p)))"
proof -
  let ?needed = "needs_signatures S L gk p"
  let ?alphas = "map ng_alpha ?needed"
  let ?t = "unat threshold"
  from honest_round1 [OF assms(2), of ?alphas request sighash now rng bm_empty] obtain ss rng' where
    ss: "\<forall>k \<in> set ks. sessions_for S (length ?alphas) k (ss (holder_id S k))"
    and l1: "local_round1 S request sighash ?alphas now (map participant_new ks) rng bm_empty
      = (map (\<lambda>k. opened request sighash ?alphas now k (ss (holder_id S k))) ks, rng',
         bm_fill (\<lambda>i. map se_commitments (ss i)) (map (holder_id S) ks) bm_empty)" by blast
  let ?r1 = "bm_fill (\<lambda>i. map se_commitments (ss i)) (map (holder_id S) ks) bm_empty"
  let ?chosen = "take ?t (bm_keys ?r1)"
  have r1: "length ?r1 = length ks" "distinct (bm_keys ?r1)" "set (bm_keys ?r1) = holder_id S ` set ks"
    using length_bm_fill [OF assms(2), of "\<lambda>i. map se_commitments (ss i)"] bm_ok_distinct [of ?r1]
    by (simp_all add: bm_keys_fill) (simp add: bm_keys_def)
  have sub: "set ?chosen \<subseteq> holder_id S ` set ks" using set_take_subset [of ?t "bm_keys ?r1"] r1(3) by simp
  have "length ?chosen = ?t" using assms(3) r1(1) by (simp add: bm_keys_def)
  then have run: "honest_run S L ks gk public ?t ss ?chosen (length ?alphas)"
    unfolding honest_run_def using assms(1,2) ss r1(2) sub by (simp add: distinct_take)
  have packages: "action_packages S sighash ?r1 ?chosen [0..<length ?alphas]
      = Some (honest_packages S sighash ss ?chosen (length ?alphas))"
    by (rule packages_gathered [OF run]) (use sub in auto)
  let ?packages = "honest_packages S sighash ss ?chosen (length ?alphas)"
  let ?r2 = "bm_fill (honest_shares S ks ?packages ss ?alphas) ?chosen bm_empty"
  from honest_answers [OF run HOL.refl, of request sighash now] obtain ps' where
    l2: "local_round2 S request ?chosen ?packages
      (map (\<lambda>k. opened request sighash ?alphas now k (ss (holder_id S k))) ks) bm_empty = (ps', ?r2)" by blast
  have r2: "length ?r2 = ?t"
    using length_bm_fill [OF honest_runD(3) [OF run], of "honest_shares S ks ?packages ss ?alphas"] honest_runD(4) [OF run] by simp
  have "honest_run S L ks gk public ?t ss ?chosen (length ?needed)" using run by simp
  from honest_entries [OF this HOL.refl, of sighash] obtain p' where
    "sign_needed S L gk public sighash ?r2 ?chosen (zip [0..<length ?needed] (zip ?needed ?packages)) p = (p', Ok ())" by blast
  then show ?thesis
    using l1 l2 packages r1(1) r2 assms(3)
    by (cases "?needed = []") (simp_all add: sign_all_with_def lq_round1_def lq_round2_def Let_def)
qed

section \<open>The same run over the wire\<close>

lemma local_round1_count:
  "local_round1 S request sighash alphas now ps rng out = (ps', rng', out') \<Longrightarrow> length ps' = length ps"
  by (induction ps arbitrary: ps' rng out) (auto split: prod.splits)

text \<open>After round one, the result depends on the quorum only through the answers of round two.\<close>

lemma sign_all_with_answers:
  assumes "open_round request sighash (map ng_alpha (needs_signatures S L gk p)) now q = (q1, r1)"
  shows "snd (sign_all_with S L open_round sign_round request sighash threshold gk public now p q) =
    (let needed = needs_signatures S L gk p; chosen = take (unat threshold) (bm_keys r1)
     in if needed = [] then (p, Ok 0)
        else if length r1 < unat threshold then (p, Err BadSignature)
        else case action_packages S sighash r1 chosen [0..<length needed] of
            None \<Rightarrow> (p, Err BadSignature)
          | Some packages \<Rightarrow>
            (let r2 = snd (sign_round request chosen packages q1)
             in if length r2 < unat threshold then (p, Err BadSignature)
                else case sign_needed S L gk public sighash r2 chosen (zip [0..<length needed] (zip needed packages)) p of
                    (p', Inl e) \<Rightarrow> (p', Err e)
                  | (p', Inr _) \<Rightarrow> (p', Ok (length needed))))"
  using assms by (auto simp: sign_all_with_def Let_def split: option.splits prod.splits sum.splits)

text \<open>\<open>sign_all_with\<close> through the network, when the share-holders are behind it, gives what it gives in the process.\<close>

lemma signing_over_the_wire:
  assumes "suite_wire S" "is_array 32 sighash" "length (needs_signatures S L gk p) < 2 ^ 32"
    and "\<forall>h \<in> set ps. participant_ok h"
  shows "snd (sign_all_with S L (\<lambda>request sighash alphas _. remote_round1 S (served S now) [0..<length ps] request sighash alphas)
      (remote_round2 S (served S now) [0..<length ps]) request sighash threshold gk public now p (ps, rng))
    = snd (sign_all_with S L (lq_round1 S) (lq_round2 S) request sighash threshold gk public now p (ps, rng))"
proof -
  let ?alphas = "map ng_alpha (needs_signatures S L gk p)"
  obtain ps' rng' r1 where l1: "local_round1 S request sighash ?alphas now ps rng bm_empty = (ps', rng', r1)" by (metis prod.exhaust)
  have "length ?alphas < 2 ^ 32" using assms(3) by simp
  note w1 = remote_round1_served [OF assms(1,2) this l1]
  have ok: "\<forall>h \<in> set ps'. participant_ok h"
    using local_round1_law [OF l1 assms(4)] by simp
  have "snd (remote_round2 S (served S now) [0..<length ps] request chosen packages (ps', rng'))
      = snd (lq_round2 S request chosen packages (ps', rng'))" if "length packages < 2 ^ 32" for chosen packages
    using remote_round2_served [OF assms(1) that ok, of now request chosen rng'] local_round1_count [OF l1]
    by (simp add: lq_round2_def split: prod.splits)
  then have same: "snd (remote_round2 S (served S now) [0..<length ps] request chosen packages (ps', rng'))
      = snd (lq_round2 S request chosen packages (ps', rng'))"
    if "action_packages S sighash r1 chosen [0..<length (needs_signatures S L gk p)] = Some packages" for chosen packages
    using action_packages_length [OF that] assms(3) by simp
  have l1': "lq_round1 S request sighash ?alphas now (ps, rng) = ((ps', rng'), r1)" using l1 by (simp add: lq_round1_def)
  show ?thesis
    unfolding sign_all_with_answers [where open_round = "lq_round1 S", OF l1']
      sign_all_with_answers [where open_round = "\<lambda>request sighash alphas _. remote_round1 S (served S now) [0..<length ps] request sighash alphas", OF w1]
    by (simp add: Let_def same split: option.split)
qed

section \<open>Properties\<close>


lemma vault_frost_correct:
  "frost_correct vault_suite demo_payout_lib (map snd payout_holders) [7] [7] 2"
  by (auto simp: frost_correct_def vault_suite_def demo_suite_def demo_payout_lib_def is_array_def zeros_def split: if_splits)


end
