(* ===== verification/Deposit_Address.thy ===== *)
theory Deposit_Address
  imports Shielded Ceremony
begin

text \<open>
  The addresses of the vault: \<open>VaultKeys\<close> of shielded.rs, and \<open>orchard_viewing_key\<close> of ceremony.rs,
  which makes the vault's viewing key of the threshold key. The orchard and zcash_address crates are the
  parameter \<open>orchard_keys\<close>; what is relied on of them is \<open>reads_indexes\<close> and \<open>unified_injective\<close>. The
  lemmas follow an address from the moment it is handed out to the credit of the note that was paid to it.
\<close>

section \<open>The keys\<close>

text \<open>Scopes are always external in this code. \<open>ok_unified\<close> is the unified address whose only receiver is
  the given Orchard one; \<open>ok_read\<close> parses a transaction and tries a prepared key on its actions.\<close>

record ('sk, 'f, 'i, 'p, 'a, 'u, 'net, 'n) orchard_keys =
  ok_spending_key :: "bytes \<Rightarrow> 'sk option"
  ok_full_viewing_key :: "'sk \<Rightarrow> 'f"
  ok_fvk_from_bytes :: "bytes \<Rightarrow> 'f option"
  ok_to_ivk :: "'f \<Rightarrow> 'i"
  ok_prepare :: "'i \<Rightarrow> 'p"
  ok_index_of_u32 :: "u32 \<Rightarrow> bytes"
  ok_address_at :: "'f \<Rightarrow> bytes \<Rightarrow> 'a"
  ok_diversifier_index :: "'i \<Rightarrow> 'a \<Rightarrow> bytes option"
  ok_raw_address :: "'a \<Rightarrow> bytes"
  ok_unified :: "bytes \<Rightarrow> 'u option"
  ok_encode :: "'u \<Rightarrow> 'net \<Rightarrow> bytes"
  ok_recipient :: "'n \<Rightarrow> 'a"
  ok_value :: "'n \<Rightarrow> u64"
  ok_read :: "'p \<Rightarrow> bytes \<Rightarrow> ('n raw_action list \<times> 'n raw_action list) option"

record ('f, 'i, 'p) viewing_keys =
  vw_fvk :: 'f
  vw_ivk :: 'p
  vw_plain_ivk :: 'i

definition from_full_viewing_key ::
  "('sk, 'f, 'i, 'p, 'a, 'u, 'net, 'n) orchard_keys \<Rightarrow> 'f \<Rightarrow> ('f, 'i, 'p) viewing_keys" where
  "from_full_viewing_key K fvk =
    (let plain = ok_to_ivk K fvk
     in \<lparr> vw_fvk = fvk, vw_ivk = ok_prepare K plain, vw_plain_ivk = plain \<rparr>)"

definition from_spending_key ::
  "('sk, 'f, 'i, 'p, 'a, 'u, 'net, 'n) orchard_keys \<Rightarrow> bytes \<Rightarrow> ('f, 'i, 'p) viewing_keys option" where
  "from_spending_key K b = do {
     sk \<leftarrow> ok_spending_key K b;
     Some (from_full_viewing_key K (ok_full_viewing_key K sk))
   }"

text \<open>\<open>nk\<close> and \<open>rivk\<close> are 32 bytes by their type; the group key's bytes have to be.\<close>

definition orchard_viewing_key ::
  "('sk, 'f, 'i, 'p, 'a, 'u, 'net, 'n) orchard_keys \<Rightarrow> ('x \<Rightarrow> bytes option) \<Rightarrow> 'x \<Rightarrow> bytes \<Rightarrow> bytes \<Rightarrow> 'f option" where
  "orchard_viewing_key K serialize_key gk nk rivk = do {
     ak \<leftarrow> serialize_key gk;
     if length ak \<noteq> 32 then None else ok_fvk_from_bytes K (ak @ nk @ rivk)
   }"

section \<open>The addresses\<close>

definition encode_address ::
  "('sk, 'f, 'i, 'p, 'a, 'u, 'net, 'n) orchard_keys \<Rightarrow> 'a \<Rightarrow> 'net \<Rightarrow> bytes run" where
  "encode_address K addr network = do {
     ua \<leftarrow> ok_unified K (ok_raw_address K addr);
     Some (ok_encode K ua network)
   }"

definition deposit_address ::
  "('sk, 'f, 'i, 'p, 'a, 'u, 'net, 'n) orchard_keys \<Rightarrow> (bytes \<Rightarrow> bytes) \<Rightarrow> ('f, 'i, 'p) viewing_keys
    \<Rightarrow> account_id \<Rightarrow> 'net \<Rightarrow> bytes run" where
  "deposit_address K sha256 keys account network =
    encode_address K (ok_address_at K (vw_fvk keys) (deposit_index sha256 account)) network"

definition address_of ::
  "('sk, 'f, 'i, 'p, 'a, 'u, 'net, 'n) orchard_keys \<Rightarrow> ('f, 'i, 'p) viewing_keys \<Rightarrow> u32 \<Rightarrow> 'net \<Rightarrow> bytes run" where
  "address_of K keys index network =
    encode_address K (ok_address_at K (vw_fvk keys) (ok_index_of_u32 K index)) network"

definition index_of ::
  "('sk, 'f, 'i, 'p, 'a, 'u, 'net, 'n) orchard_keys \<Rightarrow> ('f, 'i, 'p) viewing_keys \<Rightarrow> 'n \<Rightarrow> bytes option" where
  "index_of K keys n = ok_diversifier_index K (vw_plain_ivk keys) (ok_recipient K n)"

text \<open>The vault's keys as the scan of shielded.rs uses them.\<close>

definition scanning_keys ::
  "('sk, 'f, 'i, 'p, 'a, 'u, 'net, 'n) orchard_keys \<Rightarrow> (bytes \<Rightarrow> bytes) \<Rightarrow> ('f, 'i, 'p) viewing_keys \<Rightarrow> 'n vault_keys" where
  "scanning_keys K sha256 keys = \<lparr> vk_read = ok_read K (vw_ivk keys), vk_value = ok_value K,
     vk_index = index_of K keys, vk_sha256 = sha256 \<rparr>"

text \<open>The register of deposit addresses as its comment describes it: an index is entered under the account
  it is derived from.\<close>

definition register_honest :: "(bytes \<Rightarrow> bytes) \<Rightarrow> (bytes, account_id) bmap \<Rightarrow> bool" where
  "register_honest sha256 handed_out \<longleftrightarrow>
    (\<forall>i account. bm_get handed_out i = Some account \<longrightarrow> i = deposit_index sha256 account)"

section \<open>What is relied on\<close>

text \<open>The viewing key that made an address reads the index back off it; an encoding of one network names
  one address; digests are 32 bytes.\<close>

definition reads_indexes :: "('sk, 'f, 'i, 'p, 'a, 'u, 'net, 'n) orchard_keys \<Rightarrow> bool" where
  "reads_indexes K \<longleftrightarrow> (\<forall>f i. length i = 11 \<longrightarrow>
     ok_diversifier_index K (ok_to_ivk K f) (ok_address_at K f i) = Some i)"

definition unified_injective :: "('sk, 'f, 'i, 'p, 'a, 'u, 'net, 'n) orchard_keys \<Rightarrow> bool" where
  "unified_injective K \<longleftrightarrow> (\<forall>a b net ua ub. ok_unified K (ok_raw_address K a) = Some ua \<longrightarrow>
     ok_unified K (ok_raw_address K b) = Some ub \<longrightarrow> ok_encode K ua net = ok_encode K ub net \<longrightarrow> a = b)"

definition digests :: "(bytes \<Rightarrow> bytes) \<Rightarrow> bool" where
  "digests sha256 \<longleftrightarrow> (\<forall>b. length (sha256 b) = 32)"

section \<open>Addresses and indexes\<close>

lemma deposit_index_shape:
  assumes "digests sha256"
  shows "length (deposit_index sha256 account) = 11" "deposit_index sha256 account \<noteq> VAULT_INDEX"
proof -
  have l: "length (sha256 b) = 32" for b using assms by (simp add: digests_def)
  show "length (deposit_index sha256 account) = 11"
    by (simp add: deposit_index_def Let_def l)
  have "(zeros 11 :: bytes)[0 := 1] \<noteq> zeros 11" by code_simp
  then show "deposit_index sha256 account \<noteq> VAULT_INDEX"
    by (simp add: deposit_index_def Let_def VAULT_INDEX_def)
qed

lemma encode_address_inj:
  assumes "unified_injective K" "encode_address K a net = Some text" "encode_address K b net = Some text"
  shows "a = b"
proof -
  from assms(2,3) obtain ua ub where u: "ok_unified K (ok_raw_address K a) = Some ua"
      "ok_unified K (ok_raw_address K b) = Some ub" "ok_encode K ua net = ok_encode K ub net"
    by (auto simp: encode_address_def split: bind_splits)
  with assms(1) show ?thesis unfolding unified_injective_def by blast
qed

lemma index_of_paid:
  assumes "reads_indexes K" "length i = 11" "ok_recipient K n = ok_address_at K f i"
  shows "index_of K (from_full_viewing_key K f) n = Some i"
  using assms by (simp add: index_of_def from_full_viewing_key_def Let_def reads_indexes_def)

lemma from_spending_key_shape:
  "from_spending_key K b = Some keys \<Longrightarrow> keys = from_full_viewing_key K (vw_fvk keys)"
  by (auto simp: from_spending_key_def from_full_viewing_key_def Let_def split: bind_splits)

text \<open>Whichever participant of a ceremony is asked, the vault is the same: the viewing key is a function of
  the group key, and a ceremony that returns shares returns them under one group key.\<close>

lemma ceremony_makes_one_vault:
  assumes "run_for S c rng = (Ok out, rng')"
  shows "out \<noteq> [] \<and> (\<exists>vault. \<forall>e \<in> set out. orchard_viewing_key K serialize_key (group_key S (snd e)) nk rivk = vault)"
  using ceremony_complete_and_agreed [OF assms] by auto

section \<open>The scan records where a note arrived\<close>

definition indexes_ok :: "'n vault_keys \<Rightarrow> 'n scanned \<Rightarrow> bool" where
  "indexes_ok V s \<longleftrightarrow> (\<forall>(a, n) \<in> set (own_notes s). sa_to_index a = vk_index V n)"

lemma indexes_ok_simps [simp]:
  "indexes_ok V (push_action a s) \<longleftrightarrow> indexes_ok V s \<and> (\<forall>n. sa_ours a = Some n \<longrightarrow> sa_to_index a = vk_index V n)"
  "indexes_ok V (scan_deposit d s) \<longleftrightarrow> indexes_ok V s"
  "indexes_ok V (s \<lparr> sn_forced := fr \<rparr>) \<longleftrightarrow> indexes_ok V s"
  "indexes_ok V (s \<lparr> sn_app_payments := p \<rparr>) \<longleftrightarrow> indexes_ok V s"
  by (auto simp: indexes_ok_def split: option.splits)

lemma take_action_indexes:
  assumes "take_action V attributions lenient txid height pool i act out = Some (Ok out')" "indexes_ok V out"
  shows "indexes_ok V out'"
  using assms
  by (auto simp: take_action_def Let_def split: option.splits if_splits sum.splits bind_splits prod.splits)

lemma take_actions_indexes:
  assumes "take_actions V attributions lenient txid height pool acts i out = Some (Ok (j, out'))" "indexes_ok V out"
  shows "indexes_ok V out'"
  using assms
proof (induction acts arbitrary: i out)
  case (Cons a acts)
  then show ?case
    by (auto simp: result_simps split: option.splits sum.splits bind_splits dest: take_action_indexes)
qed simp

lemma scan_inner_indexes:
  assumes "scan_inner V raw txid height attributions lenient = Some (Ok s)"
  shows "indexes_ok V s"
proof -
  have "indexes_ok V scanned_empty" by (simp add: indexes_ok_def scanned_empty_def own_notes_def map_filter_simps)
  with assms show ?thesis
    by (auto simp: scan_inner_def result_simps split: option.splits sum.splits bind_splits
        dest!: take_actions_indexes)
qed

lemma classified_contains:
  assumes "classify_addressed V s ours attributed txid height handed_out = Ok ds"
    and "(a, n) \<in> set (own_notes s)" "ruling ours attributed handed_out a = Some (Some account)"
  shows "deposit_to txid height (note_amount V n) account \<in> set ds"
proof -
  have "ds = ruled_deposits V (ruling ours attributed handed_out) txid height (own_notes s)"
    using assms(1) unfolding classify_addressed_def classify_actions_rules own_notes_def Let_def
    by (auto split: option.splits)
  then show ?thesis using assms(2,3) by (force simp: ruled_deposits_def List.map_filter_def)
qed

lemma classified_not_reserved:
  assumes "classify_addressed V s ours attributed txid height handed_out = Ok ds" "(a, n) \<in> set (own_notes s)"
  shows "ruling ours attributed handed_out a \<noteq> None"
proof -
  have "List.find (\<lambda>(a, n). ruling ours attributed handed_out a = None) (own_notes s) = None"
    using assms(1) unfolding classify_addressed_def classify_actions_rules own_notes_def Let_def
    by (auto split: option.splits)
  then show ?thesis using assms(2) by (auto simp: find_None_iff)
qed
section \<open>Witness data\<close>

text \<open>A key for the witnesses: an address is its index, and so is its encoding; digests are what follows
  the twenty bytes of the tag; every transaction reads as the same actions.\<close>

definition demo_keys ::
  "(u64 \<times> bytes) raw_action list \<Rightarrow> (bytes, unit, unit, unit, bytes, bytes, unit, u64 \<times> bytes) orchard_keys" where
  "demo_keys acts = \<lparr> ok_spending_key = Some, ok_full_viewing_key = (\<lambda>_. ()), ok_fvk_from_bytes = (\<lambda>_. Some ()),
     ok_to_ivk = (\<lambda>f. f), ok_prepare = (\<lambda>i. i), ok_index_of_u32 = (\<lambda>i. le_bytes 4 (unat i) @ zeros 7),
     ok_address_at = (\<lambda>_ i. i), ok_diversifier_index = (\<lambda>_ a. Some a), ok_raw_address = (\<lambda>a. a),
     ok_unified = Some, ok_encode = (\<lambda>u _. u), ok_recipient = snd, ok_value = fst,
     ok_read = (\<lambda>_ _. Some (acts, [])) \<rparr>"

definition demo_digest :: "bytes \<Rightarrow> bytes" where
  "demo_digest b = take 32 (drop 20 b @ zeros 32)"

definition paid_to :: "bytes \<Rightarrow> bytes \<Rightarrow> (u64 \<times> bytes) raw_action" where
  "paid_to i memo = \<lparr> ra_cmx = [1], ra_nullifier = [2], ra_note = Some ((5, i), memo) \<rparr>"

text \<open>The vault of the witnesses: one note, to the address of the account \<open>8 8 ... 8\<close>, with a memo that names
  another account.\<close>

definition addressed_keys :: "(bytes, unit, unit, unit, bytes, bytes, unit, u64 \<times> bytes) orchard_keys" where
  "addressed_keys = demo_keys [paid_to (replicate 11 8) paid_memo]"

definition addressed_vault :: "(u64 \<times> bytes) vault_keys" where
  "addressed_vault = scanning_keys addressed_keys demo_digest (from_full_viewing_key addressed_keys ())"

lemma addressed_index: "deposit_index demo_digest (replicate 32 8) = replicate 11 8"
  by code_simp

lemma addressed_scan:
  obtains s a where "\<And>raw. scan_actions_lenient addressed_vault raw txid height = Some (Ok s)"
    "own_notes s = [(a, (5, replicate 11 8))]" "\<not> sa_anchor a" "sa_app_payment a = None" "sn_forced s = []"
    "\<And>attributed. classify_addressed addressed_vault s False attributed txid height [(replicate 11 8, replicate 32 8)]
      = Ok [deposit_to txid height (Fixed 50000000000) (replicate 32 8)]"
proof -
  obtain e where e: "decode_app_payment paid_memo = Err e"
    using paid_memo_facts(4) by (cases "decode_app_payment paid_memo") auto
  have z: "(replicate 32 8 :: bytes) \<noteq> zeros 32" "(replicate 11 8 :: bytes) \<noteq> VAULT_INDEX" by code_simp+
  obtain s where s: "\<And>raw. scan_actions_lenient addressed_vault raw txid height = Some (Ok s)" "sn_forced s = []"
    "map sa_ours (sn_actions s) = [Some (5, replicate 11 8)]"
    "map sa_to_index (sn_actions s) = [Some (replicate 11 8)]" "map sa_anchor (sn_actions s) = [False]"
    "map sa_app_payment (sn_actions s) = [None]" "map sa_app_reserved (sn_actions s) = [False]"
    by (simp add: scan_actions_lenient_def scan_inner_def take_action_def Let_def addressed_vault_def addressed_keys_def
        demo_keys_def scanning_keys_def from_full_viewing_key_def index_of_def paid_to_def
        paid_memo_facts e push_action_def scanned_empty_def scan_deposit_def)
  then obtain a where a: "sn_actions s = [a]" by (cases "sn_actions s") auto
  have own: "own_notes s = [(a, (5, replicate 11 8))]" using s a by (simp add: own_notes_def map_filter_simps)
  have r: "ruling False attributed [(replicate 11 8, replicate 32 8)] a = Some (Some (replicate 32 8))" for attributed
    using s a z by (simp add: ruling_def address_owner_def nobody_held_def bm_get_def)
  have v: "note_amount addressed_vault (5, replicate 11 8) = Fixed 50000000000"
    by (simp add: note_amount_def addressed_vault_def addressed_keys_def scanning_keys_def demo_keys_def ZAT_def)
  have "classify_addressed addressed_vault s False attributed txid height [(replicate 11 8, replicate 32 8)]
      = Ok [deposit_to txid height (Fixed 50000000000) (replicate 32 8)]" for attributed
    unfolding classify_addressed_def classify_actions_rules own_notes_def [symmetric] Let_def own
    by (simp add: r ruled_deposits_def map_filter_simps v)
  with s(1,2) own a s(5,6) show ?thesis by (intro that [of s a]) simp_all
qed

lemma addressed_laws:
  "reads_indexes addressed_keys" "unified_injective addressed_keys" "digests demo_digest"
  "deposit_address addressed_keys demo_digest (from_full_viewing_key addressed_keys ()) (replicate 32 8) () = Some (replicate 11 8)"
  "encode_address addressed_keys (ok_recipient addressed_keys (5, replicate 11 8)) () = Some (replicate 11 8)"
  unfolding deposit_address_def addressed_index
  by (simp_all add: reads_indexes_def unified_injective_def digests_def demo_digest_def min_def encode_address_def
      addressed_keys_def demo_keys_def)

section \<open>Credits by address\<close>

text \<open>Money sent to the address handed out for an account is credited to that account. In any
  transaction that scans and classifies, a note paid to the address an account was given yields a deposit
  of its amount for that account, whatever its memo says, whoever spent into the transaction and whatever
  the operator attributed, unless the memo makes it evidence or an application payment.\<close>

theorem deposit_address_credits_its_account:
  assumes "reads_indexes K" "unified_injective K" "digests sha256"
    and handed: "deposit_address K sha256 (from_full_viewing_key K f) account net = Some text"
    and paid: "encode_address K (ok_recipient K n) net = Some text"
    and scan: "scan_actions_lenient (scanning_keys K sha256 (from_full_viewing_key K f)) raw txid height = Some (Ok s)"
    and own: "(a, n) \<in> set (own_notes s)" "\<not> sa_anchor a" "sa_app_payment a = None"
    and classified: "classify_addressed (scanning_keys K sha256 (from_full_viewing_key K f)) s ours attributed txid height handed_out = Ok ds"
    and register: "bm_get handed_out (deposit_index sha256 account) = Some account" "account \<noteq> zeros 32"
  shows "deposit_to txid height (Fixed (ucast (ok_value K n) * ZAT)) account \<in> set ds"
proof -
  let ?V = "scanning_keys K sha256 (from_full_viewing_key K f)"
  note shape = deposit_index_shape [OF assms(3), of account]
  have "ok_recipient K n = ok_address_at K f (deposit_index sha256 account)"
    using encode_address_inj [OF assms(2) paid handed [unfolded deposit_address_def]]
    by (simp add: from_full_viewing_key_def Let_def)
  then have "vk_index ?V n = Some (deposit_index sha256 account)"
    using index_of_paid [OF assms(1) shape(1)] by (simp add: scanning_keys_def)
  moreover have "sa_to_index a = vk_index ?V n"
    using scan_inner_indexes [OF scan [unfolded scan_actions_lenient_def]] own(1) by (auto simp: indexes_ok_def)
  ultimately have "address_owner handed_out a = Some account"
    using shape(2) register(1) by (simp add: address_owner_def)
  then have "ruling ours attributed handed_out a = Some (Some account)"
    using classified_not_reserved [OF classified own(1)] own(2,3) register(2)
    by (simp add: ruling_def nobody_held_def split: if_splits)
  from classified_contains [OF classified own(1) this] show ?thesis
    by (simp add: note_amount_def scanning_keys_def)
qed

text \<open>A credit by address can be checked by anyone who knows the account: with an honest register, the
  index the note arrived at is the one derived from the account it is credited to, and never the vault's.\<close>

theorem address_credit_is_checkable:
  assumes "register_honest sha256 handed_out" "address_owner handed_out a = Some account"
  shows "sa_to_index a = Some (deposit_index sha256 account) \<and> deposit_index sha256 account \<noteq> VAULT_INDEX"
  using assms by (auto simp: address_owner_def register_honest_def split: bind_splits if_splits)

end
