(* ===== verification/Following.thy ===== *)
theory Following
  imports Scan_Range
begin

text \<open>
  The scanner of shielded.rs and the watcher of watcher.rs together: passes over the chain, each read from
  about where the watcher stopped, as the doc of \<open>observe\<close> asks, each followed by a poll. What one poll
  promises is in Watcher and what one pass reports is in Scan_Range; here a run of both credits every buried
  deposit once, and ends. The scanner has no note trees. The run itself is the caller's and has no code.
\<close>

section \<open>A run\<close>

text \<open>\<open>D\<close> is what a block holds once it is buried. A run goes on with a pass and a poll that answers, or
  with a poll that is refused; a chain may show anything above what is buried.\<close>

inductive following ::
  "('n, 't) note_lib \<Rightarrow> 'n vault_keys \<Rightarrow> scanner \<Rightarrow> (u64 \<Rightarrow> observed_deposit list) \<Rightarrow> watcher
    \<Rightarrow> watcher \<Rightarrow> watcher_action list \<Rightarrow> bool" for L V sc D w0 where
  start: "following L V sc D w0 w0 []"
| pass: "following L V sc D w0 w log \<Longrightarrow>
    scan_observe L V N sc from_h None = Some (Ok ob, st) \<Longrightarrow> unat from_h \<le> Suc (unat (w_scanned_to w)) \<Longrightarrow>
    poll w (observed_view ob) = (w', Ok acts) \<Longrightarrow>
    (\<And>h. h \<le> w_scanned_to w' \<Longrightarrow> block_deposits V N sc h = D h) \<Longrightarrow>
    following L V sc D w0 w' (log @ acts)"
| refused: "following L V sc D w0 w log \<Longrightarrow> poll w c = (w', Err e) \<Longrightarrow> following L V sc D w0 w' log"

text \<open>The guards of a credit that are on the deposit alone.\<close>

definition eligible :: "observed_deposit \<Rightarrow> bool" where
  "eligible d \<longleftrightarrow> is_positive (od_amount d) \<and> od_account d \<noteq> zeros 32"

text \<open>The eligible deposits of the blocks above \<open>a\<close> up to \<open>b\<close>, none below the scanner's floor.\<close>

definition settled :: "u64 \<Rightarrow> (u64 \<Rightarrow> observed_deposit list) \<Rightarrow> u64 \<Rightarrow> u64 \<Rightarrow> observed_deposit list" where
  "settled floor D a b = filter eligible (concat (map
     (\<lambda>n. if floor \<le> of_nat n then D (of_nat n) else []) [Suc (unat a)..<Suc (unat b)]))"

definition mined_once :: "(u64 \<Rightarrow> observed_deposit list) \<Rightarrow> bool" where
  "mined_once D \<longleftrightarrow> (\<forall>h h'. \<forall>d \<in> set (D h). \<forall>d' \<in> set (D h'). od_txid d = od_txid d' \<longrightarrow> h = h')"

definition credits_of :: "watcher_action list \<Rightarrow> (u64 \<times> account_id \<times> fixed \<times> txid \<times> asset_id option) list" where
  "credits_of acts = List.map_filter (\<lambda>a. case a of Credit account v i r x \<Rightarrow> Some (i, account, v, r, x) | _ \<Rightarrow> None) acts"

definition credit_key :: "observed_deposit \<Rightarrow> account_id \<times> fixed \<times> txid \<times> asset_id option" where
  "credit_key d = (od_account d, od_amount d, od_txid d, od_asset d)"

lemma credits_of_simps [simp]:
  "credits_of [] = []" "credits_of (Attest v # acts) = credits_of acts"
  "credits_of (AttestAsset x v # acts) = credits_of acts"
  "credits_of (Credit account u i r y # acts) = (i, account, u, r, y) # credits_of acts"
  "credits_of (acts @ acts') = credits_of acts @ credits_of acts'"
  by (simp_all add: credits_of_def map_filter_def)

lemma credits_of_assets: "attest_assets c safe as = Ok acts \<Longrightarrow> credits_of acts = []"
  by (induction "as" arbitrary: acts) (auto simp: result_simps)

lemma credits_of_emitted:
  "credits_of (map (\<lambda>(i, d). Credit (od_account d) (od_amount d) (k + of_nat i) (od_txid d) (od_asset d)) (enumerate n ds))
    = map (\<lambda>(i, d). (k + of_nat i, credit_key d)) (enumerate n ds)"
  by (induction ds arbitrary: n) (auto simp: credit_key_def)

section \<open>What is settled\<close>

lemma settled_same [simp]: "settled floor D a a = []"
  by (simp add: settled_def)

lemma settled_append:
  assumes "a \<le> b" "b \<le> c"
  shows "settled floor D a c = settled floor D a b @ settled floor D b c"
proof -
  have "[Suc (unat a)..<Suc (unat c)] = [Suc (unat a)..<Suc (unat b)] @ [Suc (unat b)..<Suc (unat c)]"
    using assms upt_add_eq_append [of "Suc (unat a)" "Suc (unat b)" "unat c - unat b"] by (simp add: word_le_nat_alt)
  then show ?thesis by (simp add: settled_def)
qed

lemma unat_height: "n \<le> unat (b :: u64) \<Longrightarrow> unat (of_nat n :: u64) = n"
  using unat_less_64 [of b] by (simp add: unat_of_nat)

lemma settled_from:
  "d \<in> set (settled floor D a b) \<Longrightarrow> eligible d \<and> (\<exists>h. d \<in> set (D h) \<and> a < h \<and> h \<le> b)"
proof -
  assume "d \<in> set (settled floor D a b)"
  then have "eligible d \<and> (\<exists>n \<in> {Suc (unat a)..<Suc (unat b)}. d \<in> set (D (of_nat n)))"
    by (fastforce simp: settled_def simp del: upt_Suc split: if_splits)
  then obtain n where n: "eligible d" "unat a < n" "n \<le> unat b" "d \<in> set (D (of_nat n))"
    by (auto simp: Suc_le_eq less_Suc_eq_le)
  moreover have "unat (of_nat n :: u64) = n" by (rule unat_height [OF n(3)])
  ultimately show ?thesis by (intro conjI exI [of _ "of_nat n"]) (simp_all add: word_less_nat_alt word_le_nat_alt)
qed

lemma settled_member:
  assumes "d \<in> set (D h)" "eligible d" "floor \<le> h" "a < h" "h \<le> b"
  shows "d \<in> set (settled floor D a b)"
proof -
  have "unat h \<in> set [Suc (unat a)..<Suc (unat b)]"
    using assms(4,5) by (simp add: word_less_nat_alt word_le_nat_alt Suc_le_eq less_Suc_eq_le del: upt_Suc)
  then show ?thesis unfolding settled_def using assms(1-3) by (auto simp del: upt_Suc intro!: bexI [of _ "unat h"])
qed

lemma heights_above:
  assumes "a < b"
  shows "heights (a + 1) b = map of_nat [Suc (unat a)..<Suc (unat b)]"
  unfolding heights_def using unat_plus_one [OF assms] by simp

text \<open>The fresh deposits of a poll on a pass are the settled ones between its heights.\<close>

lemma pass_fresh:
  assumes pass: "scan_observe L V N sc from_h None = Some (Ok ob, st)"
    and before: "unat from_h \<le> Suc (unat (w_scanned_to w))" and new: "w_scanned_to w < safe" "safe \<le> ob_tip ob"
    and buried: "\<And>h. h \<le> safe \<Longrightarrow> block_deposits V N sc h = D h"
    and unseen: "\<And>h d. w_scanned_to w < h \<Longrightarrow> d \<in> set (D h) \<Longrightarrow> eligible d \<Longrightarrow> od_txid d \<notin> set (w_credited w)"
  shows "scan_range w (observed_view ob) safe = settled (sr_from_height sc) D (w_scanned_to w) safe"
proof -
  let ?s = "w_scanned_to w"
  have block: "filter (reportable w) (observed_deposits_at ob (of_nat n))
      = filter eligible (if sr_from_height sc \<le> of_nat n then D (of_nat n) else [])"
    if "n \<in> set [Suc (unat ?s)..<Suc (unat safe)]" for n
  proof -
    have n: "unat (of_nat n :: u64) = n" by (rule unat_height [of _ safe]) (use that in auto)
    then have h: "?s < of_nat n" "of_nat n \<le> safe" "from_h \<le> of_nat n"
      using that before by (auto simp: word_less_nat_alt word_le_nat_alt)
    then have "observed_deposits_at ob (of_nat n) = (if sr_from_height sc \<le> of_nat n then D (of_nat n) else [])"
      using pass_reports_exactly_its_window [OF pass, of "of_nat n"] buried [OF h(2)] new(2) by auto
    moreover have "reportable w d \<longleftrightarrow> eligible d" if "d \<in> set (D (of_nat n))" for d
      using unseen [OF h(1) that] by (auto simp: reportable_def eligible_def)
    ultimately show ?thesis by (auto intro: filter_cong)
  qed
  show ?thesis
    unfolding scan_range_def heights_above [OF new(1)] settled_def filter_concat map_map comp_def
    by (intro arg_cong [of _ _ concat] map_cong [OF refl])
      (simp only: block observed_view_def chain.simps)
qed

section \<open>The invariant of a run\<close>

definition run_inv :: "u64 \<Rightarrow> (u64 \<Rightarrow> observed_deposit list) \<Rightarrow> watcher \<Rightarrow> watcher \<Rightarrow> watcher_action list \<Rightarrow> bool" where
  "run_inv floor D w0 w log \<longleftrightarrow> w_confirmations w = w_confirmations w0 \<and> w_scanned_to w0 \<le> w_scanned_to w \<and>
     set (w_credited w) = set (w_credited w0) \<union> od_txid ` set (settled floor D (w_scanned_to w0) (w_scanned_to w)) \<and>
     mset (map snd (credits_of log)) = mset (map credit_key (settled floor D (w_scanned_to w0) (w_scanned_to w))) \<and>
     map fst (credits_of log) = map (\<lambda>i. w_next_index w0 + of_nat i) [0..<length (credits_of log)] \<and>
     w_next_index w = w_next_index w0 + of_nat (length (credits_of log))"

lemma poll_step:
  assumes "poll w c = (w', Ok acts)"
  obtains (quiet) "acts = []" "w' = w"
    | (new) safe where "safe_height w (cv_tip c) = Some safe" "w_scanned_to w < safe" "w_scanned_to w' = safe"
        "w_confirmations w' = w_confirmations w"
        "credits_of acts = map (\<lambda>(i, d). (w_next_index w + of_nat i, credit_key d)) (enumerate 0 (fresh_deposits w c safe))"
        "set (w_credited w') = set (w_credited w) \<union> od_txid ` set (scan_range w c safe)"
        "w_next_index w' = w_next_index w + of_nat (length (scan_range w c safe))"
  using assms
proof (cases rule: poll_cases)
  case (empty safe)
  then have "scan_range w c safe = []" by (metis set_fresh set_empty)
  with empty show ?thesis by (intro new [OF empty(3,4)]) simp_all
next
  case (batch safe observed assets credits w1)
  have "length (fresh_deposits w c safe) = length (scan_range w c safe)" by (simp add: fresh_deposits_def)
  with batch emit_credits_eq [OF batch(6)] show ?thesis
    by (intro new [OF batch(1,2)]) (simp_all add: credits_of_assets [OF batch(5)] credits_of_emitted set_fresh)
qed (rule quiet)

lemma enumerate_keys:
  "map fst (map (\<lambda>(i, d). (k + of_nat i, f d)) (enumerate 0 ds)) = map (\<lambda>i. k + of_nat i) [0..<length ds]"
  "map snd (map (\<lambda>(i, d). (k + of_nat i, f d)) (enumerate 0 ds)) = map f ds"
  by (rule nth_equalityI; simp add: nth_enumerate_eq)+

lemma safe_within: "safe_height w tip = Some safe \<Longrightarrow> safe \<le> tip"
  using safe_height_Some [of w tip safe] by (simp add: word_le_nat_alt)

lemma run_inv_step:
  assumes inv: "run_inv (sr_from_height sc) D w0 w log" and D: "mined_once D"
    and unseen: "\<And>h d. w_scanned_to w0 < h \<Longrightarrow> d \<in> set (D h) \<Longrightarrow> od_txid d \<notin> set (w_credited w0)"
    and pass: "scan_observe L V N sc from_h None = Some (Ok ob, st)" "unat from_h \<le> Suc (unat (w_scanned_to w))"
    and poll: "poll w (observed_view ob) = (w', Ok acts)"
    and buried: "\<And>h. h \<le> w_scanned_to w' \<Longrightarrow> block_deposits V N sc h = D h"
  shows "run_inv (sr_from_height sc) D w0 w' (log @ acts)"
  using poll
proof (cases rule: poll_step)
  case quiet
  with inv show ?thesis by simp
next
  case (new safe)
  let ?S = "settled (sr_from_height sc) D"
  have a: "w_scanned_to w0 \<le> w_scanned_to w" using inv by (simp add: run_inv_def)
  have u: "od_txid d \<notin> set (w_credited w)" if "w_scanned_to w < h" "d \<in> set (D h)" for h d
  proof
    assume "od_txid d \<in> set (w_credited w)"
    moreover have "od_txid d \<notin> set (w_credited w0)" by (rule unseen [OF le_less_trans [OF a that(1)] that(2)])
    ultimately obtain e where e: "od_txid d = od_txid e" "e \<in> set (?S (w_scanned_to w0) (w_scanned_to w))"
      using inv by (auto simp: run_inv_def)
    then obtain h' where "e \<in> set (D h')" "h' \<le> w_scanned_to w" using settled_from by blast
    then have "h = h'" using D e(1) that(2) unfolding mined_once_def by blast
    with that(1) \<open>h' \<le> w_scanned_to w\<close> show False by simp
  qed
  have r: "scan_range w (observed_view ob) safe = ?S (w_scanned_to w) safe"
  proof (rule pass_fresh [OF pass new(2)])
    show "safe \<le> ob_tip ob" using safe_within [OF new(1)] by (simp add: observed_view_def)
  qed (use buried new(3) u in simp_all)
  have s: "?S (w_scanned_to w0) safe = ?S (w_scanned_to w0) (w_scanned_to w) @ ?S (w_scanned_to w) safe"
    by (rule settled_append [OF a]) (use new(2) in simp)
  let ?fresh = "fresh_deposits w (observed_view ob) safe"
  have f: "mset ?fresh = mset (?S (w_scanned_to w) safe)" "length ?fresh = length (?S (w_scanned_to w) safe)"
    by (simp_all add: fresh_deposits_def r)
  have k: "map fst (credits_of acts) = map (\<lambda>i. w_next_index w + of_nat i) [0..<length ?fresh]"
      "map snd (credits_of acts) = map credit_key ?fresh"
    unfolding new(5) enumerate_keys by simp_all
  have l: "length (credits_of acts) = length ?fresh" by (simp add: new(5))
  have i: "map (\<lambda>i. w_next_index w0 + of_nat i) [0..<length (credits_of log) + length ?fresh]
      = map (\<lambda>i. w_next_index w0 + of_nat i) [0..<length (credits_of log)] @ map (\<lambda>i. w_next_index w + of_nat i) [0..<length ?fresh]"
    using inv by (intro nth_equalityI) (auto simp: run_inv_def nth_append algebra_simps)
  show ?thesis
    unfolding run_inv_def
  proof (intro conjI)
    show "mset (map snd (credits_of (log @ acts))) = mset (map credit_key (?S (w_scanned_to w0) (w_scanned_to w')))"
      using inv f(1) by (simp add: run_inv_def new(3) s k(2))
    show "map fst (credits_of (log @ acts)) = map (\<lambda>i. w_next_index w0 + of_nat i) [0..<length (credits_of (log @ acts))]"
      using inv by (simp add: run_inv_def k(1) l i)
    show "set (w_credited w') = set (w_credited w0) \<union> od_txid ` set (?S (w_scanned_to w0) (w_scanned_to w'))"
      using inv by (simp add: run_inv_def new(3,6) r s) blast
  qed (use inv a new f(2) l r in \<open>simp_all add: run_inv_def\<close>)
qed

lemma following_inv:
  assumes "following L V sc D w0 w log" "mined_once D"
    and "\<And>h d. w_scanned_to w0 < h \<Longrightarrow> d \<in> set (D h) \<Longrightarrow> od_txid d \<notin> set (w_credited w0)"
  shows "run_inv (sr_from_height sc) D w0 w log"
  using assms(1)
proof (induction rule: following.induct)
  case start
  show ?case by (simp add: run_inv_def)
next
  case (pass w log N from_h ob st w' acts)
  show ?case by (rule run_inv_step [OF pass.IH assms(2,3) pass.hyps(2-5)])
next
  case (refused w log c w' e)
  have "w' = w" using refused.hyps(2)
    by (auto simp: poll_def Let_def split: option.splits if_splits sum.splits prod.splits)
  with refused.IH show ?case by simp
qed

section \<open>A pass that can be read\<close>

definition tx_reads :: "'n vault_keys \<Rightarrow> node \<Rightarrow> scanner \<Rightarrow> u64 \<Rightarrow> bytes \<Rightarrow> bool" where
  "tx_reads V N sc height hex = (case (nd_raw N hex, txid_bytes hex) of
     (Inl _, _) \<Rightarrow> False
   | (Inr _, None) \<Rightarrow> True
   | (Inr raw, Some txid) \<Rightarrow> (case scan_actions_lenient V raw txid height of
       None \<Rightarrow> False
     | Some (Inl _) \<Rightarrow> True
     | Some (Inr s) \<Rightarrow>
         is_ok (classify_addressed V s False (bm_get (sr_attributions sc) txid) txid height (sr_addresses sc))))"

definition block_reads :: "'n vault_keys \<Rightarrow> node \<Rightarrow> scanner \<Rightarrow> u64 \<Rightarrow> bool" where
  "block_reads V N sc height = (case nd_block_txids N height of
     Inl _ \<Rightarrow> False | Inr hexes \<Rightarrow> list_all (tx_reads V N sc height) hexes)"

lemma scan_txs_reads:
  "list_all (tx_reads V N sc height) hexes \<Longrightarrow>
    \<exists>ds' fs'. scan_txs L V N sc None height hexes ds fs = Some (Ok (ds', fs'))"
proof (induction hexes arbitrary: ds fs)
  case (Cons hex hexes)
  then have "tx_reads V N sc height hex" by simp
  with Cons show ?case by (auto simp: tx_reads_def is_ok_def split: sum.splits option.splits)
qed simp

lemma scan_heights_reads:
  "list_all (block_reads V N sc) hs \<Longrightarrow>
    \<exists>ds' fs'. scan_heights L V N sc None None hs ds fs = Some (Ok (ds', fs'))"
proof (induction hs arbitrary: ds fs)
  case (Cons h hs)
  then obtain hexes where h: "nd_block_txids N h = Ok hexes" "list_all (tx_reads V N sc h) hexes"
    by (auto simp: block_reads_def split: sum.splits)
  from scan_txs_reads [OF h(2)] obtain ds' fs' where "scan_txs L V N sc None h hexes ds fs = Some (Ok (ds', fs'))" by blast
  with Cons h(1) show ?case by simp
qed simp

lemma observe_reads:
  assumes "nd_block_count N = Ok tip" "\<And>h. sr_from_height sc \<le> h \<Longrightarrow> h \<le> tip \<Longrightarrow> block_reads V N sc h"
  obtains ob where "scan_observe L V N sc from_h None = Some (Ok ob, None)"
    "ob_tip ob = window_end sc tip (max from_h (sr_from_height sc))"
proof -
  let ?start = "max from_h (sr_from_height sc)"
  have w: "window_end sc tip ?start \<le> tip" by (simp add: window_end_def)
  have "list_all (block_reads V N sc) (heights ?start (window_end sc tip ?start))"
    unfolding list_all_iff using assms(2) w by (auto simp: set_heights)
  then obtain ds fs where "scan_heights L V N sc None None (heights ?start (window_end sc tip ?start)) [] [] = Some (Ok (ds, fs))"
    using scan_heights_reads by blast
  then obtain ob where ob: "scan_observe L V N sc from_h None = Some (Ok ob, None)"
    using assms(1) by (cases "window_end sc tip ?start < ?start") (auto simp: scan_observe_def feed_trees_def Let_def result_simps)
  from scan_observe_ok [OF ob] assms(1) w have "ob_tip ob = window_end sc tip ?start" by (auto simp: min_absorb2)
  with ob show ?thesis by (rule that)
qed

section \<open>A poll that answers\<close>

lemma fixed_add_fits:
  "0 \<le> raw_value a \<Longrightarrow> 0 \<le> raw_value b \<Longrightarrow> raw_value a + raw_value b < 2 ^ 127 \<Longrightarrow> \<exists>c. fixed_add a b = Some c"
  by (simp add: fixed_add_def checked_i128_def raw_value_def)

lemma add_amounts_fits:
  assumes "0 \<le> raw_value acc" "\<forall>d \<in> set ds. 0 \<le> raw_value (od_amount d)" "raw_value acc + amounts ds < 2 ^ 127"
  shows "\<exists>t. add_amounts acc ds = Some t"
  using assms
proof (induction ds arbitrary: acc)
  case (Cons d ds)
  have n: "0 \<le> amounts ds" by (rule amounts_nonneg) (use Cons.prems(2) in simp)
  have a: "amounts (d # ds) = raw_value (od_amount d) + amounts ds" by (simp add: amounts_def)
  obtain c where c: "fixed_add acc (od_amount d) = Some c"
    using fixed_add_fits [of acc "od_amount d"] Cons.prems n a by auto
  have "raw_value c = raw_value acc + raw_value (od_amount d)" by (rule fixed_add_Some [OF c])
  with Cons.IH [of c] Cons.prems c a show ?case by simp
qed simp

lemma total_to_fits:
  assumes "deposits_ok m" "0 \<le> raw_value acc"
    and "raw_value acc + sum_list (map (\<lambda>e. amounts (snd e)) (filter (\<lambda>e. fst e \<le> height) m)) < 2 ^ 127"
  shows "\<exists>t. total_to height m acc = Some t"
  using assms
proof (induction m arbitrary: acc)
  case (Cons e m)
  obtain h ds where e: "e = (h, ds)" by (cases e)
  have ok: "deposits_ok m" using Cons.prems(1) by (simp add: e deposits_ok_def bm_ok_Cons)
  have ds: "\<forall>d \<in> set ds. 0 \<le> raw_value (od_amount d)" using Cons.prems(1) e by (auto simp: deposits_ok_def)
  have n: "0 \<le> sum_list (map (\<lambda>e. amounts (snd e)) (filter (\<lambda>e. fst e \<le> height) m))"
    using ok by (intro sum_list_nonneg) (auto simp: deposits_ok_def intro!: amounts_nonneg)
  show ?case
  proof (cases "height < h")
    case False
    with Cons.prems e have b: "raw_value acc + amounts ds + sum_list (map (\<lambda>e. amounts (snd e)) (filter (\<lambda>e. fst e \<le> height) m)) < 2 ^ 127"
      by (auto simp: not_less algebra_simps)
    with n obtain t where t: "add_amounts acc ds = Some t" using add_amounts_fits [OF Cons.prems(2) ds] by auto
    then have "raw_value t = raw_value acc + amounts ds" by (rule add_amounts_Some)
    with Cons.IH [OF ok, of t] amounts_nonneg [OF ds] Cons.prems(2) b t e False show ?thesis by simp
  qed (simp add: e)
qed simp

text \<open>What a pass's snapshot sums, and that it can be summed.\<close>

definition window_total :: "'n vault_keys \<Rightarrow> node \<Rightarrow> scanner \<Rightarrow> u64 \<Rightarrow> u64 \<Rightarrow> int" where
  "window_total V N sc a b = amounts (concat (map (block_deposits V N sc) (heights a b)))"

lemma classified_asset:
  "classify_addressed V s ours attributed txid height handed_out = Ok ds \<Longrightarrow> d \<in> set ds \<Longrightarrow> od_asset d = None"
  unfolding classify_addressed_def classify_actions_rules Let_def
  by (auto simp: ruled_deposits_def List.map_filter_def deposit_to_def split: option.splits)

lemma block_deposit_facts:
  "d \<in> set (block_deposits V N sc h) \<Longrightarrow> 0 \<le> raw_value (od_amount d) \<and> od_asset d = None"
  by (auto simp: block_deposits_def tx_deposits_def split: sum.splits option.splits
      dest: classified [OF sym] classified_asset [OF sym])

lemma amounts_concat: "amounts (concat (map f hs)) = sum_list (map (\<lambda>h. amounts (f h)) hs)"
  by (induction hs) (simp_all add: amounts_def)

lemma window_total_sum: "window_total V N sc a b = (\<Sum>h \<in> {a..b}. amounts (block_deposits V N sc h))"
proof -
  have "set (heights a b) = {a..b}" by (auto simp: set_heights)
  then show ?thesis
    unfolding window_total_def amounts_concat by (simp add: sum_list_distinct_conv_sum_set [OF distinct_heights])
qed

lemma window_total_mono:
  assumes "a' \<le> a" "b \<le> b'"
  shows "window_total V N sc a b \<le> window_total V N sc a' b'"
  unfolding window_total_sum
  by (intro sum_mono2) (use assms in \<open>auto intro!: amounts_nonneg dest: block_deposit_facts\<close>)

lemma entries_total:
  assumes pass: "scan_observe L V N sc from_h None = Some (Ok ob, st)" and "safe \<le> ob_tip ob"
  shows "sum_list (map (\<lambda>e. amounts (snd e)) (filter (\<lambda>e. fst e \<le> safe) (ob_deposits ob)))
    = window_total V N sc (max from_h (sr_from_height sc)) safe"
proof -
  let ?m = "ob_deposits ob" and ?W = "{max from_h (sr_from_height sc)..safe}"
  from scan_observe_ok [OF pass] have ok: "bm_ok ?m" by (metis observed_ok_def deposits_ok_def)
  have at: "amounts (observed_deposits_at ob h) = (if h \<in> ?W then amounts (block_deposits V N sc h) else 0)" if "h \<le> safe" for h
    using pass_reports_exactly_its_window [OF pass, of h] that assms(2) by (auto simp: amounts_def)
  have "sum_list (map (\<lambda>e. amounts (snd e)) (filter (\<lambda>e. fst e \<le> safe) ?m))
      = (\<Sum>h \<in> {h \<in> fst ` set ?m. h \<le> safe}. amounts (observed_deposits_at ob h))"
    unfolding sum_entries [OF ok] observed_deposits_at_def ..
  also have "\<dots> = (\<Sum>h \<in> {..safe}. amounts (observed_deposits_at ob h))"
  proof (intro sum.mono_neutral_left ballI)
    fix h assume "h \<in> {..safe} - {h \<in> fst ` set ?m. h \<le> safe}"
    then have "h \<notin> fst ` set ?m" by auto
    then show "amounts (observed_deposits_at ob h) = 0" by (simp add: no_entry amounts_def)
  qed auto
  also have "\<dots> = (\<Sum>h \<in> {..safe}. if h \<in> ?W then amounts (block_deposits V N sc h) else 0)"
    by (intro sum.cong) (use at in auto)
  also have "\<dots> = (\<Sum>h \<in> ?W. amounts (block_deposits V N sc h))"
    by (subst sum.inter_restrict [symmetric]) (auto intro: sum.cong)
  finally show ?thesis by (simp add: window_total_sum)
qed

lemma balance_fits:
  assumes pass: "scan_observe L V N sc from_h None = Some (Ok ob, st)" and "safe \<le> ob_tip ob"
    and "window_total V N sc (max from_h (sr_from_height sc)) safe < 2 ^ 127"
  shows "\<exists>b. cv_balance_at (observed_view ob) safe = Some b"
proof -
  from scan_observe_ok [OF pass] have "deposits_ok (ob_deposits ob)" by (metis observed_ok_def)
  from total_to_fits [OF this, of fixed_zero safe] assms(2,3) show ?thesis
    by (simp add: entries_total [OF pass assms(2)] observed_view_def observed_balance_at_def fixed_zero_def raw_value_def)
qed

lemma pass_assets:
  assumes pass: "scan_observe L V N sc from_h None = Some (Ok ob, st)" and "d \<in> set (fresh_deposits w (observed_view ob) safe)"
  shows "od_asset d = None"
proof -
  from assms(2) obtain h where "d \<in> set (observed_deposits_at ob h)"
    by (auto simp: set_fresh scan_range_def observed_view_def)
  with pass_reports_exactly_its_window [OF pass, of h] show ?thesis by (auto dest: block_deposit_facts split: if_splits)
qed

lemma poll_answers:
  assumes "safe_height w (cv_tip c) = Some safe" "w_scanned_to w < safe" "cv_balance_at c safe = Some b"
    and "\<And>d. d \<in> set (fresh_deposits w c safe) \<Longrightarrow> od_asset d = None"
  shows "\<exists>w' acts. poll w c = (w', Ok acts) \<and> w_scanned_to w' = safe"
proof -
  have "List.map_filter od_asset (fresh_deposits w c safe) = []"
    using assms(4) by (simp add: List.map_filter_def filter_empty_conv)
  with assms(1-3) show ?thesis
    by (cases "fresh_deposits w c safe = []") (auto simp: poll_def Let_def split: prod.splits)
qed

section \<open>A run of passes over one chain\<close>

text \<open>\<open>n\<close> passes, each read from where the watcher last scanned to. \<open>None\<close> is a pass that panics or fails.\<close>

fun passes ::
  "nat \<Rightarrow> ('n, 't) note_lib \<Rightarrow> 'n vault_keys \<Rightarrow> node \<Rightarrow> scanner \<Rightarrow> watcher \<Rightarrow> (watcher \<times> watcher_action list) option" where
  "passes 0 L V N sc w = Some (w, [])"
| "passes (Suc n) L V N sc w =
    (case scan_observe L V N sc (w_scanned_to w) None of
       Some (Inr ob, _) \<Rightarrow>
         (case poll w (observed_view ob) of
            (w', Inr acts) \<Rightarrow> map_option (\<lambda>(w'', rest). (w'', acts @ rest)) (passes n L V N sc w')
          | _ \<Rightarrow> None)
     | _ \<Rightarrow> None)"

lemma passes_following:
  "passes n L V N sc w = Some (w', acts) \<Longrightarrow> following L V sc (block_deposits V N sc) w0 w log \<Longrightarrow>
    following L V sc (block_deposits V N sc) w0 w' (log @ acts)"
proof (induction n arbitrary: w log acts)
  case (Suc n)
  from Suc.prems(1) obtain ob st u first rest where o: "scan_observe L V N sc (w_scanned_to w) None = Some (Ok ob, st)"
    and p: "poll w (observed_view ob) = (u, Ok first)" and r: "passes n L V N sc u = Some (w', rest)" "acts = first @ rest"
    by (auto split: option.splits prod.splits sum.splits)
  have "following L V sc (block_deposits V N sc) w0 u (log @ first)"
    by (rule following.pass [OF Suc.prems(2) o _ p]) simp_all
  from Suc.IH [OF r(1) this] r(2) show ?case by simp
qed simp

definition depth :: "watcher \<Rightarrow> nat" where
  "depth w = unat (w_confirmations w) - 1"

lemma safe_height_deep:
  assumes "depth w < unat tip"
  shows "\<exists>safe. safe_height w tip = Some safe \<and> unat safe + depth w = unat tip"
proof -
  have s: "unat (saturating_sub (w_confirmations w) 1) = depth w" by (simp add: unat_saturating_sub depth_def)
  then obtain h where h: "checked_sub tip (saturating_sub (w_confirmations w) 1) = Some h"
    using assms by (auto simp: checked_sub_def word_le_nat_alt)
  then have "unat h = unat tip - depth w" by (simp add: checked_sub_Some s)
  with assms have "\<exists>h'. checked_sub h 1 = Some h'" by (auto simp: checked_sub_def word_le_nat_alt)
  with h obtain safe where "safe_height w tip = Some safe" by (auto simp: safe_height_def)
  with safe_height_Some [OF this] show ?thesis by (simp add: depth_def)
qed

text \<open>Where a pass ends, over the naturals.\<close>

lemma unat_window_end:
  "unat (window_end sc limit start) = min (unat limit) (min (2 ^ 64 - 1) (unat start + unat (sr_max_blocks sc)) - 1)"
  by (simp add: window_end_def min_def [of limit] word_le_nat_alt unat_saturating_sub unat_saturating_add)
    (simp add: min.commute)

lemma pass_step:
  assumes tip: "nd_block_count N = Ok tip" "unat tip < 2 ^ 64 - 1"
    and reads: "\<And>h. sr_from_height sc \<le> h \<Longrightarrow> h \<le> tip \<Longrightarrow> block_reads V N sc h"
    and total: "window_total V N sc (sr_from_height sc) tip < 2 ^ 127"
    and wide: "Suc (depth w) < unat (sr_max_blocks sc)" and gap: "unat (w_scanned_to w) + depth w < unat tip"
  obtains ob w' acts where "scan_observe L V N sc (w_scanned_to w) None = Some (Ok ob, None)"
    "poll w (observed_view ob) = (w', Ok acts)" "w_scanned_to w < w_scanned_to w'"
    "unat (w_scanned_to w') + depth w \<le> unat tip" "depth w' = depth w"
proof -
  let ?start = "max (w_scanned_to w) (sr_from_height sc)"
  from observe_reads [OF tip(1) reads] obtain ob where ob: "scan_observe L V N sc (w_scanned_to w) None = Some (Ok ob, None)"
    "ob_tip ob = window_end sc tip ?start" by blast
  have "unat (w_scanned_to w) \<le> unat ?start" by (simp add: word_le_nat_alt [symmetric])
  then have "unat (w_scanned_to w) + depth w < unat (ob_tip ob)"
    using gap wide tip(2) unfolding ob(2) unat_window_end by linarith
  moreover from this obtain safe where safe: "safe_height w (ob_tip ob) = Some safe" "unat safe + depth w = unat (ob_tip ob)"
    using safe_height_deep [of w "ob_tip ob"] by auto
  ultimately have new: "w_scanned_to w < safe" by (simp add: word_less_nat_alt)
  have le: "ob_tip ob \<le> tip" unfolding ob(2) by (simp add: window_end_def)
  have within: "safe \<le> ob_tip ob" by (rule safe_within [OF safe(1)])
  have "window_total V N sc ?start safe \<le> window_total V N sc (sr_from_height sc) tip"
    by (rule window_total_mono) (use within le in auto)
  then obtain b where b: "cv_balance_at (observed_view ob) safe = Some b"
    using balance_fits [OF ob(1) within] total by auto
  have "safe_height w (cv_tip (observed_view ob)) = Some safe" using safe(1) by (simp add: observed_view_def)
  from poll_answers [OF this new b] pass_assets [OF ob(1)] obtain w' acts where
    p: "poll w (observed_view ob) = (w', Ok acts)" "w_scanned_to w' = safe" by blast
  have c: "w_confirmations w' = w_confirmations w" using p(1) by (cases rule: poll_step) auto
  show ?thesis
    by (rule that [OF ob(1) p(1)]) (use new p(2) safe(2) le c in \<open>simp_all add: depth_def word_le_nat_alt\<close>)
qed

lemma passes_end:
  assumes tip: "nd_block_count N = Ok tip" "unat tip < 2 ^ 64 - 1"
    and reads: "\<And>h. sr_from_height sc \<le> h \<Longrightarrow> h \<le> tip \<Longrightarrow> block_reads V N sc h"
    and total: "window_total V N sc (sr_from_height sc) tip < 2 ^ 127"
    and wide: "Suc (depth w) < unat (sr_max_blocks sc)" and below: "unat (w_scanned_to w) + depth w \<le> unat tip"
  shows "\<exists>n w' log. n \<le> unat tip - (unat (w_scanned_to w) + depth w) \<and>
    passes n L V N sc w = Some (w', log) \<and> unat (w_scanned_to w') + depth w = unat tip"
  using wide below
proof (induction "unat tip - (unat (w_scanned_to w) + depth w)" arbitrary: w rule: less_induct)
  case less
  show ?case
  proof (cases "unat (w_scanned_to w) + depth w = unat tip")
    case True
    then show ?thesis by (intro exI [of _ 0]) simp
  next
    case False
    with less.prems(2) have gap: "unat (w_scanned_to w) + depth w < unat tip" by simp
    from pass_step [where L = L, OF tip reads total less.prems(1) this] obtain ob u acts where
      step: "scan_observe L V N sc (w_scanned_to w) None = Some (Ok ob, None)" "poll w (observed_view ob) = (u, Ok acts)"
      and on: "unat (w_scanned_to w) < unat (w_scanned_to u)" "unat (w_scanned_to u) + depth u \<le> unat tip" and d: "depth u = depth w"
      by (metis word_less_nat_alt)
    then have "unat tip - (unat (w_scanned_to u) + depth u) < unat tip - (unat (w_scanned_to w) + depth w)"
      using gap by simp
    from less.hyps [OF this] less.prems(1) on(2) d obtain n w' log where n: "n \<le> unat tip - (unat (w_scanned_to u) + depth u)"
      "passes n L V N sc u = Some (w', log)" "unat (w_scanned_to w') + depth w = unat tip" by auto
    have "passes (Suc n) L V N sc w = Some (w', acts @ log)" using step n(2) by simp
    moreover have "Suc n \<le> unat tip - (unat (w_scanned_to w) + depth w)" using n(1) on(1) gap d by simp
    ultimately show ?thesis using n(3) by blast
  qed
qed

lemma catch_up:
  assumes "nd_block_count N = Ok tip" "unat tip < 2 ^ 64 - 1"
    and "\<And>h. sr_from_height sc \<le> h \<Longrightarrow> h \<le> tip \<Longrightarrow> block_reads V N sc h"
    and "window_total V N sc (sr_from_height sc) tip < 2 ^ 127" "mined_once (block_deposits V N sc)"
    and "Suc (depth w0) < unat (sr_max_blocks sc)" "unat (w_scanned_to w0) + depth w0 \<le> unat tip" "w_credited w0 = []"
  shows "\<exists>n w log. n \<le> unat tip - (unat (w_scanned_to w0) + depth w0) \<and> passes n L V N sc w0 = Some (w, log) \<and>
    unat (w_scanned_to w) + depth w0 = unat tip \<and>
    mset (map snd (credits_of log))
      = mset (map credit_key (settled (sr_from_height sc) (block_deposits V N sc) (w_scanned_to w0) (w_scanned_to w)))"
proof -
  from passes_end [where L = L, OF assms(1-4,6,7)] obtain n w log where n: "n \<le> unat tip - (unat (w_scanned_to w0) + depth w0)"
    "passes n L V N sc w0 = Some (w, log)" "unat (w_scanned_to w) + depth w0 = unat tip" by blast
  have "following L V sc (block_deposits V N sc) w0 w log"
    using passes_following [OF n(2) following.start] by simp
  from following_inv [OF this assms(5)] assms(8) n show ?thesis by (auto simp: run_inv_def)
qed

section \<open>One transaction in one block, for the witnesses\<close>

definition lone_scanner :: scanner where
  "lone_scanner = demo_scanner \<lparr> sr_max_blocks := 2 \<rparr>"

lemma lone_tx:
  "tx_deposits demo_reader (demo_node [demo_hex 0x32]) lone_scanner 8 (demo_hex 0x32) = [demo_deposit]"
  "tx_reads demo_reader (demo_node [demo_hex 0x32]) lone_scanner 8 (demo_hex 0x32)"
  by (simp_all add: tx_deposits_def tx_reads_def lone_scanner_def demo_txid demo_reader_scans demo_classified is_ok_def)

lemma lone_settings:
  "sr_from_height lone_scanner = 8" "sr_max_blocks lone_scanner = 2" "nd_block_count (demo_node hexes) = Ok 8"
  by (simp_all add: lone_scanner_def demo_node_def demo_scanner_def with_attributions_def scanner_new_def)

lemma lone_block:
  "block_deposits demo_reader (demo_node [demo_hex 0x32]) lone_scanner h = (if h = 8 then [demo_deposit] else [])"
  using lone_tx(1) by (auto simp: block_deposits_def demo_node_def)

lemma lone_reads: "block_reads demo_reader (demo_node [demo_hex 0x32]) lone_scanner h"
  using lone_tx(2) by (auto simp: block_reads_def demo_node_def)

lemma lone_settled:
  "settled 8 (block_deposits demo_reader (demo_node [demo_hex 0x32]) lone_scanner) 7 8 = [demo_deposit]"
  "mined_once (block_deposits demo_reader (demo_node [demo_hex 0x32]) lone_scanner)"
  "window_total demo_reader (demo_node [demo_hex 0x32]) lone_scanner 8 8 = 60000000000"
proof -
  have z: "replicate 32 7 \<noteq> zeros 32" by code_simp
  then have "eligible demo_deposit"
    by (simp add: eligible_def demo_deposit_def deposit_to_def is_positive_def)
  then show "settled 8 (block_deposits demo_reader (demo_node [demo_hex 0x32]) lone_scanner) 7 8 = [demo_deposit]"
    by (simp add: settled_def lone_block)
  show "mined_once (block_deposits demo_reader (demo_node [demo_hex 0x32]) lone_scanner)"
    by (auto simp: mined_once_def lone_block split: if_splits)
  show "window_total demo_reader (demo_node [demo_hex 0x32]) lone_scanner 8 8 = 60000000000"
    by (simp add: window_total_def demo_window(2) lone_block amounts_def demo_deposit_def deposit_to_def raw_value_def)
qed

section \<open>Properties\<close>

text \<open>C4: nothing is credited twice, to another, or missed, over any run. Take a watcher that has credited
  nothing and follows a chain through passes of a scanner, in whatever pieces, with failed polls in between, where
  each pass is read from no later than the block after the last one scanned and buried blocks do not change. Then
  the credits it has ever returned are exactly the eligible deposits of the blocks it has scanned, each with its
  account, amount, transaction and asset, and their indices are consecutive from its first one.\<close>

theorem run_credits_each_deposit_once:
  assumes "following L V sc D w0 w log" "mined_once D" "w_credited w0 = []"
  shows "mset (map snd (credits_of log))
      = mset (map credit_key (settled (sr_from_height sc) D (w_scanned_to w0) (w_scanned_to w))) \<and>
    map fst (credits_of log) = map (\<lambda>i. w_next_index w0 + of_nat i) [0..<length (credits_of log)]"
  using following_inv [OF assms(1,2)] assms(3) by (simp add: run_inv_def)

text \<open>C5: the watcher catches up. On a chain whose blocks read, with a window wider than the confirmations it
  asks for, passes read from where it last scanned to reach the deepest safe height after finitely many of them,
  at most one for each block, none failing; and by then every eligible deposit buried there has been credited,
  exactly once.\<close>

theorem watcher_catches_up:
  assumes "nd_block_count N = Ok tip" "unat tip < 2 ^ 64 - 1"
    and "\<And>h. sr_from_height sc \<le> h \<Longrightarrow> h \<le> tip \<Longrightarrow> block_reads V N sc h"
    and "window_total V N sc (sr_from_height sc) tip < 2 ^ 127" "mined_once (block_deposits V N sc)"
    and "Suc (depth w0) < unat (sr_max_blocks sc)" "unat (w_scanned_to w0) + depth w0 \<le> unat tip" "w_credited w0 = []"
  shows "\<exists>n w log. n \<le> unat tip - (unat (w_scanned_to w0) + depth w0) \<and> passes n L V N sc w0 = Some (w, log) \<and>
    unat (w_scanned_to w) + depth w0 = unat tip \<and>
    mset (map snd (credits_of log))
      = mset (map credit_key (settled (sr_from_height sc) (block_deposits V N sc) (w_scanned_to w0) (w_scanned_to w)))"
  by (rule catch_up [OF assms])


text \<open>A window no wider than the confirmations never moves the watcher: each pass ends before anything above
  what was scanned is safe, and the next one reads the same blocks.\<close>

theorem narrow_window_stalls:
  assumes "scan_observe L V N sc (w_scanned_to w) st = Some (Ok ob, st')"
    and "sr_max_blocks sc \<le> w_confirmations w" "sr_from_height sc \<le> w_scanned_to w"
  shows "poll w (observed_view ob) = (w, Ok [])"
proof -
  have m: "max (w_scanned_to w) (sr_from_height sc) = w_scanned_to w" using assms(3) by (simp add: max_absorb1)
  from scan_observe_ok [OF assms(1)] obtain tip where "ob_tip ob = min tip (window_end sc tip (w_scanned_to w))"
    unfolding m by blast
  then have "ob_tip ob \<le> window_end sc tip (w_scanned_to w)" by simp
  then have "unat (ob_tip ob) \<le> unat (w_scanned_to w) + unat (sr_max_blocks sc) - 1"
    unfolding word_le_nat_alt unat_window_end by linarith
  then have "unat (ob_tip ob) \<le> unat (w_scanned_to w) + (unat (w_confirmations w) - 1)"
    using assms(2) unfolding word_le_nat_alt by linarith
  then have "safe \<le> w_scanned_to w" if "safe_height w (ob_tip ob) = Some safe" for safe
    using safe_height_Some [OF that] by (simp add: word_le_nat_alt)
  then show ?thesis by (auto simp: poll_def observed_view_def split: option.split)
qed

section \<open>Witnesses\<close>

lemma lone_run:
  "\<exists>n w log. n \<le> 1 \<and> passes n demo_notes demo_reader (demo_node [demo_hex 0x32]) lone_scanner (watcher_resume 1 0 7) = Some (w, log) \<and>
    w_scanned_to w = 8"
proof -
  have "depth (watcher_resume 1 0 7) = 0" "w_scanned_to (watcher_resume 1 0 7) = 7" by (simp_all add: depth_def watcher_resume_def)
  then have "\<exists>n w log. n \<le> unat (8 :: u64) - (unat (7 :: u64) + 0) \<and>
      passes n demo_notes demo_reader (demo_node [demo_hex 0x32]) lone_scanner (watcher_resume 1 0 7) = Some (w, log) \<and>
      unat (w_scanned_to w) + 0 = unat (8 :: u64)"
    using passes_end [where L = demo_notes and w = "watcher_resume 1 0 7" and sc = lone_scanner, OF lone_settings(3) _ lone_reads]
    by (simp add: lone_settings lone_settled)
  then show ?thesis by (auto simp: word_unat_eq_iff)
qed

theorem run_credits_each_deposit_once_witness:
  "\<exists>w log. following demo_notes demo_reader lone_scanner (block_deposits demo_reader (demo_node [demo_hex 0x32]) lone_scanner)
      (watcher_resume 1 0 7) w log \<and> map snd (credits_of log) = [credit_key demo_deposit] \<and> map fst (credits_of log) = [0]"
proof -
  obtain n w log where p: "passes n demo_notes demo_reader (demo_node [demo_hex 0x32]) lone_scanner (watcher_resume 1 0 7) = Some (w, log)"
    "w_scanned_to w = 8" using lone_run by blast
  have f: "following demo_notes demo_reader lone_scanner (block_deposits demo_reader (demo_node [demo_hex 0x32]) lone_scanner)
      (watcher_resume 1 0 7) w log" using passes_following [OF p(1) following.start] by simp
  have w0: "w_credited (watcher_resume 1 0 7) = []" "w_scanned_to (watcher_resume 1 0 7) = 7" "w_next_index (watcher_resume 1 0 7) = 0"
    by (simp_all add: watcher_resume_def)
  from run_credits_each_deposit_once [OF f lone_settled(2) w0(1)]
  have "mset (map snd (credits_of log)) = {#credit_key demo_deposit#}"
    "map fst (credits_of log) = map of_nat [0..<length (credits_of log)]"
    by (simp_all add: w0 p(2) lone_settings lone_settled(1))
  moreover from this(1) have "length (credits_of log) = 1" by (metis length_map size_mset size_single)
  ultimately have "map snd (credits_of log) = [credit_key demo_deposit]" "map fst (credits_of log) = [0]"
    by (simp_all only: mset_single_iff) simp
  with f show ?thesis by (intro exI conjI)
qed

theorem watcher_catches_up_witness:
  "\<exists>n w log. n \<le> 1 \<and> passes n demo_notes demo_reader (demo_node [demo_hex 0x32]) lone_scanner (watcher_resume 1 0 7) = Some (w, log) \<and>
    w_scanned_to w = 8 \<and> mset (map snd (credits_of log)) = {#credit_key demo_deposit#}"
proof -
  have w0: "depth (watcher_resume 1 0 7) = 0" "w_scanned_to (watcher_resume 1 0 7) = 7" "w_credited (watcher_resume 1 0 7) = []"
    by (simp_all add: depth_def watcher_resume_def)
  have m: "Suc (depth (watcher_resume 1 0 7)) < unat (sr_max_blocks lone_scanner)"
    "unat (w_scanned_to (watcher_resume 1 0 7)) + depth (watcher_resume 1 0 7) \<le> unat (8 :: u64)"
    "unat (8 :: u64) < 2 ^ 64 - 1" "window_total demo_reader (demo_node [demo_hex 0x32]) lone_scanner (sr_from_height lone_scanner) 8 < 2 ^ 127"
    by (simp_all add: w0 lone_settings lone_settled)
  obtain n w log where r: "n \<le> unat (8 :: u64) - (unat (w_scanned_to (watcher_resume 1 0 7)) + depth (watcher_resume 1 0 7))"
    "passes n demo_notes demo_reader (demo_node [demo_hex 0x32]) lone_scanner (watcher_resume 1 0 7) = Some (w, log)"
    "unat (w_scanned_to w) + depth (watcher_resume 1 0 7) = unat (8 :: u64)"
    "mset (map snd (credits_of log)) = mset (map credit_key (settled (sr_from_height lone_scanner)
       (block_deposits demo_reader (demo_node [demo_hex 0x32]) lone_scanner) (w_scanned_to (watcher_resume 1 0 7)) (w_scanned_to w)))"
    using watcher_catches_up [where L = demo_notes, OF lone_settings(3) m(3) lone_reads m(4) lone_settled(2) m(1,2) w0(3)] by blast
  have s: "w_scanned_to w = 8" using r(3) by (simp add: w0 word_unat_eq_iff)
  have "n \<le> 1" "mset (map snd (credits_of log)) = {#credit_key demo_deposit#}"
    using r(1,4) by (simp_all add: w0 s lone_settings lone_settled(1))
  then show ?thesis by (intro exI conjI) (rule r(2) s | assumption)+
qed


end
