(* ===== verification/Crediting.thy ===== *)
theory Crediting
  imports Deposit_Address Following
begin

text \<open>
  Money in, from end to end: an address handed out by the vault's keys, a note paid to it, the transaction in
  a block, the passes of the scanner over the chain and the polls of the watcher, up to the credit.
\<close>

lemma amount_positive:
  assumes "0 < vk_value V n"
  shows "is_positive (note_amount V n)"
  using assms note_amount_value [of V n] by (simp add: is_positive_def raw_value_def word_less_def)

lemma mined_deposit:
  assumes "block_reads V N sc h" "nd_block_txids N h = Ok hexes" "hex \<in> set hexes" "nd_raw N hex = Ok raw"
    and "txid_bytes hex = Some txid" "scan_actions_lenient V raw txid h = Some (Ok s)"
  obtains ds where "classify_addressed V s False (bm_get (sr_attributions sc) txid) txid h (sr_addresses sc) = Ok ds"
    "set ds \<subseteq> set (block_deposits V N sc h)"
proof -
  from assms(1-3) have "tx_reads V N sc h hex" by (auto simp: block_reads_def list_all_iff)
  with assms(4-6) obtain ds where ds: "classify_addressed V s False (bm_get (sr_attributions sc) txid) txid h (sr_addresses sc) = Ok ds"
    by (auto simp: tx_reads_def is_ok_def split: sum.splits)
  then have "tx_deposits V N sc h hex = ds" using assms(4-6) by (simp add: tx_deposits_def)
  with assms(2,3) have "set ds \<subseteq> set (block_deposits V N sc h)" by (auto simp: block_deposits_def)
  with ds show ?thesis by (rule that)
qed

text \<open>The chain a watcher can follow to the end: what \<open>catch_up\<close> asks.\<close>

definition followable :: "'n vault_keys \<Rightarrow> node \<Rightarrow> scanner \<Rightarrow> watcher \<Rightarrow> u64 \<Rightarrow> bool" where
  "followable V N sc w tip \<longleftrightarrow> nd_block_count N = Ok tip \<and> unat tip < 2 ^ 64 - 1 \<and>
     (\<forall>h. sr_from_height sc \<le> h \<longrightarrow> h \<le> tip \<longrightarrow> block_reads V N sc h) \<and>
     window_total V N sc (sr_from_height sc) tip < 2 ^ 127 \<and> mined_once (block_deposits V N sc) \<and>
     Suc (depth w) < unat (sr_max_blocks sc) \<and> unat (w_scanned_to w) + depth w \<le> unat tip \<and> w_credited w = []"

section \<open>Properties\<close>


section \<open>Witness\<close>

definition addressed_scanner :: scanner where
  "addressed_scanner = with_addresses [(replicate 11 8, replicate 32 8)] (scanner_new 8 2)"

lemma addressed_block:
  "block_reads addressed_vault (demo_node [demo_hex 0x32]) addressed_scanner h"
  "block_deposits addressed_vault (demo_node [demo_hex 0x32]) addressed_scanner h
    = (if h = 8 then [deposit_to (zeros 31 @ [0x20]) 8 (Fixed 50000000000) (replicate 32 8)] else [])"
proof -
  obtain s a where s: "\<And>raw. scan_actions_lenient addressed_vault raw (zeros 31 @ [0x20]) 8 = Some (Ok s)"
    "\<And>attributed. classify_addressed addressed_vault s False attributed (zeros 31 @ [0x20]) 8 [(replicate 11 8, replicate 32 8)]
      = Ok [deposit_to (zeros 31 @ [0x20]) 8 (Fixed 50000000000) (replicate 32 8)]"
    using addressed_scan [of "zeros 31 @ [0x20]" 8] by metis
  have sc: "sr_addresses addressed_scanner = [(replicate 11 8, replicate 32 8)]"
    by (simp add: addressed_scanner_def with_addresses_def)
  have "tx_reads addressed_vault (demo_node [demo_hex 0x32]) addressed_scanner 8 (demo_hex 0x32)"
    by (simp add: tx_reads_def demo_txid s sc is_ok_def)
  then show "block_reads addressed_vault (demo_node [demo_hex 0x32]) addressed_scanner h"
    by (auto simp: block_reads_def demo_node_def)
  have "tx_deposits addressed_vault (demo_node [demo_hex 0x32]) addressed_scanner 8 (demo_hex 0x32)
      = [deposit_to (zeros 31 @ [0x20]) 8 (Fixed 50000000000) (replicate 32 8)]"
    by (simp add: tx_deposits_def demo_txid s sc)
  then show "block_deposits addressed_vault (demo_node [demo_hex 0x32]) addressed_scanner h
    = (if h = 8 then [deposit_to (zeros 31 @ [0x20]) 8 (Fixed 50000000000) (replicate 32 8)] else [])"
    by (auto simp: block_deposits_def demo_node_def)
qed

lemma addressed_followable:
  "followable addressed_vault (demo_node [demo_hex 0x32]) addressed_scanner (watcher_resume 1 0 7) 8"
proof -
  have f: "sr_from_height addressed_scanner = 8" "sr_max_blocks addressed_scanner = 2"
    by (simp_all add: addressed_scanner_def with_addresses_def scanner_new_def)
  have w: "depth (watcher_resume 1 0 7) = 0" "w_scanned_to (watcher_resume 1 0 7) = 7" "w_credited (watcher_resume 1 0 7) = []"
    by (simp_all add: depth_def watcher_resume_def)
  have "mined_once (block_deposits addressed_vault (demo_node [demo_hex 0x32]) addressed_scanner)"
    by (auto simp: mined_once_def addressed_block split: if_splits)
  moreover have "window_total addressed_vault (demo_node [demo_hex 0x32]) addressed_scanner 8 8 = 50000000000"
    by (simp add: window_total_def demo_window(2) addressed_block amounts_def deposit_to_def raw_value_def)
  ultimately show ?thesis
    by (simp add: followable_def f w addressed_block(1) lone_settings(3))
qed


end
