(* ===== verification/Spec2Isabelle.thy ===== *)
theory Spec2Isabelle
  imports Decimal Account Amount Base58 Memo Watcher Zebra Ceremony Signing Custodian Custody_Net Dkg_Net
    Quorums Ed25519_Vault Shares Notes Shielded Feeding Scan_Range Payout Authorise Notes_Disk
    Compact Lightd Transparent Completion Deposit_Address Following Crediting
begin

text \<open>
  A verification library for zec-multisig: threshold custody of shielded Zcash funds.

  \<^bold>\<open>The program.\<close> A vault's spending key exists only as a threshold of shares. A ceremony
  makes the shares (ceremony.rs in one process, dkg_net.rs over a relay), shares.rs keeps them on disk,
  custodian.rs answers the two signing rounds for one share, custody_net.rs carries the rounds over sockets,
  signing.rs and ed25519.rs coordinate them. Deposits come in through a node client (zebra.rs) or, shielded,
  through the scanner (shielded.rs), which reads memos (memo.rs), feeds the note stores (notes.rs) and hands
  snapshots to the watcher (watcher.rs), whose credits carry fixed-point amounts (amount.rs) to accounts
  (account.rs, base58.rs). Money goes out as payouts (payout.rs), planned from the note store, signed through a
  quorum and sealed. A wallet that holds its own keys follows the chain through a block server (lightd.rs) in
  compact blocks (compact.rs), and sweeps what it receives at transparent addresses into a shielded note
  (transparent.rs).

  \<^bold>\<open>Theories.\<close> Each opens with what it holds and which file it models. Prelude: words,
  byte strings, results and their automation. Decimal: numerals. Ordered_Map: a \<open>BTreeMap\<close> as a
  sorted association list. Wire and Text: the readers and writers of bytes, and the \<open>str\<close>
  functions the code uses. Account, Amount, Base58, Memo: the data. Watcher, Zebra: deposits and the node
  client; the trait \<open>ChainView\<close> is the locale \<open>chain_view\<close>, interpreted on the
  snapshot. Ceremony, Signing: the key ceremony and the coordinator over a parameter record
  \<open>suite\<close> for the FROST crates. Custodian: both share-holders under the locale
  \<open>one_shot\<close>. Custody_Net: frames, the daemon, the remote quorums. Quorums: the traits
  \<open>Quorum\<close> and \<open>Ed25519Quorum\<close> as the locales \<open>share_quorum\<close> and
  \<open>ed_quorum\<close>, each interpreted on the local and on the remote implementation. Dkg_Net: the
  sealed ceremony, its relay and its client. Ed25519_Vault: provisioning and vault signatures. Shares: the
  share directory. Notes: the note store. Shielded: what one transaction means to the vault and the block
  feed. Feeding: what the feed keeps of the trees. Scan_Range: passes over ranges of blocks, the replica
  views, reseeding. Deposit_Address: the vault's keys and the addresses it hands out, from the threshold key
  to the credit of a note. Following: runs of scanner passes and watcher polls. Crediting: from an address
  handed out to the credit. Notes_Disk: the file of a note store. Payout: planning and assembling a payout,
  and transparent addresses. Authorise: the envelope, the sighash, signing through \<open>share_quorum\<close>
  or one key, and the sealed transaction. Completion: the run of honest holders, which signs everything.
  Compact: the compact block, its bytes and its scan. Lightd: the block server's protocol, and the client
  against a server that decodes and replies with the code's own functions. Transparent: receivers, the plan of
  a sweep and the sweep.

  \<^bold>\<open>Conventions.\<close> A function that fails returns \<open>error + value\<close> with the
  source's error type; one that can panic returns an option (\<open>run\<close>), \<open>None\<close> being
  the panic; machine integers are words of their width, and a sum that can overflow is written out. State is
  passed and returned. A library the source only calls is a record of functions and an argument; what a
  property needs of it is a hypothesis with its own name (\<open>seal_laws\<close>, \<open>tree_laws\<close>,
  \<open>suite_wire\<close>, \<open>fresh_nonces\<close>, \<open>builder_laws\<close>,
  \<open>authorise_laws\<close>, \<open>sweep_laws\<close>, \<open>reads_indexes\<close>,
  \<open>frost_correct\<close>), and a witness shows it can hold. Loops are recursion on their data;
  \<open>reseed\<close>'s loop is a partial function, with a theorem that it returns. The readers of UTF-8
  (\<open>chars_fuel\<close>, \<open>lossy_fuel\<close>) take the length of the text as fuel, and every step
  consumes a byte.

  \<^bold>\<open>What the theorems show.\<close> Signing: a nonce signs once, a request is answered once and
  only over the message committed to, nothing is produced below the threshold, and the wire changes nothing of
  it. Ceremony: accepted thresholds make quorums intersect, a ceremony is complete and agreed, and sealing it
  over a relay gives the same keys. Money in: memos parse strictly, round-trip and do not overlap; every note
  of a transaction is accounted for once, and one paid to an account's address is that account's; a block is
  in both trees or neither; a pass reports exactly its window; a poll reports each deposit once, credits no
  more than it attests, and no transaction twice; over any run of passes every buried deposit is credited
  exactly once, the watcher catches up with the chain when its window is wider than its confirmations, and
  what is paid to an address handed out reaches the account it was handed out for. Money kept: notes are
  conserved, selection is minimal, and a store written to disk is read back, or refused when it is cut short
  anywhere but at two places. Money out: a payout balances with the fee of its own shape, only signatures of a
  threshold change it, honest holders do sign it, and what is sealed is what was signed; a sweep pays one
  shielded output and nothing else. The wallet: the client's calls return what the server holds, and a compact
  block hides no note of it. Arithmetic is exact or refused. Several theorems state where the code departs
  from its own comments: they are the manifest's findings.

  \<^bold>\<open>Not modelled.\<close> Threads and locks (one caller at a time), wall-clock timeouts, logging,
  the wiping of memory, the encoding of unified addresses (a parameter), the \<open>Display\<close> of error
  types, the memory a decoder reserves, and the test modules.
\<close>

end
